(* ===== verification/Prelude.thy ===== *)
theory Prelude
  imports Main "HOL-Library.Word" "HOL-Library.Char_ord"
begin

text \<open>
  What every theory of the development shares: the names of the machine integers of the
  C++ code, bytes and text, the \<open>EncodingResult\<close> wrapper of \<open>zc/core/encoding.h\<close>, and the
  generic lemmas on words, lists and characters that carry the component proofs.

  \<^item> \<open>zc::byte\<close> is \<open>8 word\<close>, \<open>char16_t\<close> and \<open>char32_t\<close> are words of 16 and 32 bits,
    \<open>uint\<close> and \<open>uint64_t\<close> words of 32 and 64 bits, so that every operation wraps as the code's.
  \<^item> Text that the code reads as bytes is a \<open>byte list\<close>, text that it reads as characters a
    \<open>string\<close>; \<open>asBytes\<close> and \<open>asChars\<close> are the reinterpretations between the two.
  \<^item> \<open>bits_to_nat\<close> collects the equations that turn bit operations into arithmetic on \<open>nat\<close>.
\<close>

unbundle bit_operations_syntax

section \<open>Types\<close>

type_synonym byte = "8 word"
type_synonym char16 = "16 word"
type_synonym char32 = "32 word"
type_synonym uint32 = "32 word"
type_synonym uint64 = "64 word"

text \<open>The value a decoder returns together with its \<open>hadErrors\<close> flag.\<close>

record 'a encoding_result =
  value_of :: 'a
  hadErrors :: bool

abbreviation encResult :: "'a \<Rightarrow> bool \<Rightarrow> 'a encoding_result" where
  "encResult v e \<equiv> \<lparr>value_of = v, hadErrors = e\<rparr>"

section \<open>Collections of facts\<close>

named_theorems bits_to_nat \<open>bit operations on words as arithmetic on natural numbers\<close>
named_theorems zc_defs \<open>definitions a component unfolds in its own proofs\<close>

section \<open>Words as natural numbers\<close>

lemma unat_bound: "unat (w :: 'a::len word) < 2 ^ LENGTH('a)"
  by (rule unsigned_less)

lemma unat_byte [simp]: "unat (b :: byte) < 256"
  using unat_bound [of b] by simp

lemma unat_char16 [simp]: "unat (u :: char16) < 65536"
  using unat_bound [of u] by simp

lemma unat_take_bit: "unat (take_bit n w) = unat w mod 2 ^ n"
  by (simp only: unsigned_take_bit_eq) (simp only: take_bit_eq_mod)

lemma unat_and_mask: "unat (w AND mask n) = unat w mod 2 ^ n"
  by (metis take_bit_eq_mask unat_take_bit)

lemma unat_shr [bits_to_nat]: "unat (drop_bit n w) = unat w div 2 ^ n"
  by (simp only: unat_drop_bit_eq) (simp only: drop_bit_eq_div)

lemma unat_shl [bits_to_nat]:
  "unat (push_bit n (w :: 'a::len word)) = (unat w * 2 ^ n) mod 2 ^ LENGTH('a)"
  by (simp only: unsigned_push_bit_eq) (simp only: push_bit_eq_mult take_bit_eq_mod)

lemma unat_ucast_word [bits_to_nat]:
  "unat (ucast (w :: 'a::len word) :: 'b::len word) = unat w mod 2 ^ LENGTH('b)"
  by (simp only: unsigned_ucast_eq) (simp only: take_bit_eq_mod)

text \<open>The low-bit masks of the code, as literals.\<close>

lemma unat_and_low [bits_to_nat]:
  "unat (w AND 1) = unat w mod 2"
  "unat (w AND 0x3) = unat w mod 4"
  "unat (w AND 0x7) = unat w mod 8"
  "unat (w AND 0xf) = unat w mod 16"
  "unat (w AND 0x1f) = unat w mod 32"
  "unat (w AND 0x3f) = unat w mod 64"
  "unat (w AND 0x7f) = unat w mod 128"
  "unat (w AND 0x3ff) = unat w mod 1024"
  subgoal using unat_and_mask [of w 1] by (simp add: mask_eq_exp_minus_1)
  subgoal using unat_and_mask [of w 2] by (simp add: mask_eq_exp_minus_1)
  subgoal using unat_and_mask [of w 3] by (simp add: mask_eq_exp_minus_1)
  subgoal using unat_and_mask [of w 4] by (simp add: mask_eq_exp_minus_1)
  subgoal using unat_and_mask [of w 5] by (simp add: mask_eq_exp_minus_1)
  subgoal using unat_and_mask [of w 6] by (simp add: mask_eq_exp_minus_1)
  subgoal using unat_and_mask [of w 7] by (simp add: mask_eq_exp_minus_1)
  subgoal using unat_and_mask [of w 10] by (simp add: mask_eq_exp_minus_1)
  done

text \<open>Bitwise or of operands with disjoint bits is addition.\<close>

lemma nat_or_add:
  fixes a b :: nat
  assumes "2 ^ n dvd a" and "b < 2 ^ n"
  shows "a OR b = a + b"
proof -
  from assms(1) obtain k where a: "a = push_bit n k"
    by (auto simp: push_bit_eq_mult dvd_def mult.commute)
  from assms(2) have b: "b = take_bit n b"
    by (simp add: take_bit_eq_mod)
  have "a AND b = 0"
  proof (rule bit_eqI)
    fix i show "bit (a AND b) i = bit 0 i"
      by (subst b) (auto simp: a bit_simps)
  qed
  then show ?thesis by (simp add: disjunctive_add_eq_or)
qed

lemma unat_or_add:
  assumes "2 ^ n dvd unat v" and "unat w < 2 ^ n"
  shows "unat (v OR w) = unat v + unat w"
  by (simp only: unsigned_or_eq nat_or_add [OF assms])

text \<open>A test of the high bits is a test of the quotient.\<close>

lemma word_and_not_mask: "w AND NOT (mask n) = push_bit n (drop_bit n (w :: 'a::len word))"
  by (rule bit_word_eqI) (auto simp: bit_simps)

lemma unat_and_not_mask:
  "unat (w AND NOT (mask n) :: 'a::len word) = unat w div 2 ^ n * 2 ^ n"
proof -
  have "unat w div 2 ^ n * 2 ^ n \<le> unat w" by simp
  also have "\<dots> < 2 ^ LENGTH('a)" by (rule unat_bound)
  finally show ?thesis by (simp only: word_and_not_mask unat_shl unat_shr mod_less)
qed

text \<open>The tests of the high bits that the transcoders make.\<close>

lemma unat_and_high:
  "unat ((b :: byte) AND 0xc0) = unat b div 64 * 64"
  "unat ((u :: char16) AND 0xf800) = unat u div 2048 * 2048"
  "unat ((u :: char16) AND 0xfc00) = unat u div 1024 * 1024"
proof -
  have m: "NOT (mask 6) = (0xc0 :: byte)" "NOT (mask 11) = (0xf800 :: char16)"
    "NOT (mask 10) = (0xfc00 :: char16)"
    by (simp_all add: mask_eq_exp_minus_1)
  show "unat (b AND 0xc0) = unat b div 64 * 64"
    using unat_and_not_mask [of b 6] by (simp only: m) simp
  show "unat (u AND 0xf800) = unat u div 2048 * 2048"
    using unat_and_not_mask [of u 11] by (simp only: m) simp
  show "unat (u AND 0xfc00) = unat u div 1024 * 1024"
    using unat_and_not_mask [of u 10] by (simp only: m) simp
qed

lemma continuation_iff: "(b :: byte) AND 0xc0 = 0x80 \<longleftrightarrow> unat b div 64 = 2"
  by (simp add: word_unat_eq_iff unat_and_high)

lemma surrogate_iff: "(u :: char16) AND 0xf800 = 0xd800 \<longleftrightarrow> unat u div 2048 = 27"
  by (simp add: word_unat_eq_iff unat_and_high)

lemma high_low_iff:
  "(u :: char16) AND 0xfc00 = 0xd800 \<longleftrightarrow> unat u div 1024 = 54"
  "(u :: char16) AND 0xfc00 = 0xdc00 \<longleftrightarrow> unat u div 1024 = 55"
  by (simp_all add: word_unat_eq_iff unat_and_high)

lemma bit10_iff: "(u :: char16) AND 0x400 = 0 \<longleftrightarrow> even (unat u div 1024)"
proof -
  have "u AND 0x400 = 0 \<longleftrightarrow> \<not> bit u 10"
    using and_exp_eq_0_iff_not_bit [of u 10] by simp
  also have "\<dots> \<longleftrightarrow> \<not> bit (unat u) 10"
    by (simp only: bit_unsigned_iff) (simp add: possible_bit_def)
  also have "\<dots> \<longleftrightarrow> even (unat u div 1024)"
    by (simp only: bit_iff_odd) simp
  finally show ?thesis .
qed

lemma unat_or_lead:
  fixes w :: "'a::len word"
  assumes "8 \<le> LENGTH('a)"
  shows "unat w < 64 \<Longrightarrow> unat (w OR 0x80) = 0x80 + unat w"
    and "unat w < 64 \<Longrightarrow> unat (w OR 0xc0) = 0xc0 + unat w"
    and "unat w < 32 \<Longrightarrow> unat (w OR 0xe0) = 0xe0 + unat w"
    and "unat w < 16 \<Longrightarrow> unat (w OR 0xf0) = 0xf0 + unat w"
proof -
  have "(2::nat) ^ 8 \<le> 2 ^ LENGTH('a)"
    using assms by (rule power_increasing) simp
  then have k: "unat (0x80 :: 'a word) = 0x80" "unat (0xc0 :: 'a word) = 0xc0"
    "unat (0xe0 :: 'a word) = 0xe0" "unat (0xf0 :: 'a word) = 0xf0"
    by (simp_all add: unsigned_numeral take_bit_eq_mod)
  show "unat w < 64 \<Longrightarrow> unat (w OR 0x80) = 0x80 + unat w"
    using unat_or_add [of 6 "0x80" w, unfolded k] by (simp add: or.commute)
  show "unat w < 64 \<Longrightarrow> unat (w OR 0xc0) = 0xc0 + unat w"
    using unat_or_add [of 6 "0xc0" w, unfolded k] by (simp add: or.commute)
  show "unat w < 32 \<Longrightarrow> unat (w OR 0xe0) = 0xe0 + unat w"
    using unat_or_add [of 5 "0xe0" w, unfolded k] by (simp add: or.commute)
  show "unat w < 16 \<Longrightarrow> unat (w OR 0xf0) = 0xf0 + unat w"
    using unat_or_add [of 4 "0xf0" w, unfolded k] by (simp add: or.commute)
qed

text \<open>The payload of a lead or continuation byte.\<close>

lemma utf8_payload:
  fixes q :: nat
  shows "q < 32 \<Longrightarrow> (0xc0 + q) mod 32 = q"
    and "q < 16 \<Longrightarrow> (0xe0 + q) mod 16 = q"
    and "q < 8 \<Longrightarrow> (0xf0 + q) mod 8 = q"
    and "q < 64 \<Longrightarrow> (0x80 + q) mod 64 = q"
    and "q < 64 \<Longrightarrow> (0x80 + q) div 64 = 2"
  using mod_mult_self3 [of 6 32 q] mod_mult_self3 [of 14 16 q] mod_mult_self3 [of 30 8 q]
    mod_mult_self3 [of 2 64 q] div_mult_self3 [of 64 2 q]
  by simp_all

lemma base64_digits:
  fixes n :: nat
  shows "n = n div 4096 * 4096 + n div 64 mod 64 * 64 + n mod 64"
    and "n = n div 262144 * 262144 + n div 4096 mod 64 * 4096 + n div 64 mod 64 * 64 + n mod 64"
proof -
  have "n = n div 64 * 64 + n mod 64" by simp
  moreover have "n div 64 = n div 4096 * 64 + n div 64 mod 64"
    using div_mult2_eq [of n 64 64] by simp
  moreover have "n div 4096 = n div 262144 * 64 + n div 4096 mod 64"
    using div_mult2_eq [of n 4096 64] by simp
  ultimately show "n = n div 4096 * 4096 + n div 64 mod 64 * 64 + n mod 64"
    and "n = n div 262144 * 262144 + n div 4096 mod 64 * 4096 + n div 64 mod 64 * 64 + n mod 64"
    by linarith+
qed

lemma nat_div_eq_iff: "0 < m \<Longrightarrow> (n :: nat) div m = q \<longleftrightarrow> q * m \<le> n \<and> n < Suc q * m"
  by (metis div_less_iff_less_mult less_Suc_eq_le less_eq_div_iff_mult_less_eq nle_le)

section \<open>Bytes and characters\<close>

text \<open>The reinterpretations of \<open>char\<close> as \<open>byte\<close> and back; both are 8-bit types.\<close>

definition byteOfChar :: "char \<Rightarrow> byte" where
  "byteOfChar c = of_char c"

definition charOfByte :: "byte \<Rightarrow> char" where
  "charOfByte b = char_of (unat b)"

abbreviation asBytes :: "string \<Rightarrow> byte list" where
  "asBytes \<equiv> map byteOfChar"

abbreviation asChars :: "byte list \<Rightarrow> string" where
  "asChars \<equiv> map charOfByte"

lemma unat_byteOfChar [simp]: "unat (byteOfChar c) = of_char c"
proof -
  have "byteOfChar c = word_of_nat (of_char c)" unfolding byteOfChar_def by (rule of_nat_of_char [symmetric])
  then show ?thesis using nat_of_char_less_256 [of c] by (simp add: unat_of_nat)
qed

lemma charOfByte_byteOfChar [simp]: "charOfByte (byteOfChar c) = c"
  by (simp add: charOfByte_def)

lemma byteOfChar_charOfByte [simp]: "byteOfChar (charOfByte b) = b"
  by (simp add: word_unat_eq_iff charOfByte_def)

lemma charOfByte_eq_iff: "charOfByte b = c \<longleftrightarrow> b = byteOfChar c"
  by (metis charOfByte_byteOfChar byteOfChar_charOfByte)

section \<open>Prefixes of text\<close>

text \<open>\<open>StringPtr::startsWith\<close>.\<close>

definition startsWithChars :: "string \<Rightarrow> string \<Rightarrow> bool" where
  "startsWithChars s prefix = (take (length prefix) s = prefix)"

lemma startsWithChars_Cons [simp]:
  "startsWithChars s []" "startsWithChars [] (x # xs) = False"
  "startsWithChars (y # ys) (x # xs) \<longleftrightarrow> y = x \<and> startsWithChars ys xs"
  by (auto simp: startsWithChars_def)

end
