(* ===== verification/Utf_Transcoding.thy ===== *)
theory Utf_Transcoding
  imports Prelude
begin

text \<open>
  UTF-8, UTF-16 and UTF-32 transcoding: the first part of \<open>zc/core/encoding.cc\<close>.

  \<open>encodeUtf\<close> is the template the code instantiates for \<open>char16_t\<close> and \<open>char32_t\<close>; its
  parameter \<open>addChar32\<close> is the overload the template resolves. One iteration of the
  \<open>while\<close> loop is \<open>encodeUtf_step\<close>, which returns the text that is left, the output vector
  and the error flag; \<open>fail\<close> is the code after the label \<open>error\<close>. The position \<open>i\<close> of the code
  is the suffix of the text that is still to be read.

  The documented guarantee of the header (\<open>encoding.h\<close>, lines 100 to 109) is WTF-8: UTF-16 of
  any shape survives the trip to UTF-8 and back, and both legs flag exactly the unpaired
  surrogates. It is proved for UTF-16 to UTF-8 to UTF-16, and refuted for the trip through
  UTF-32, whose surrogate test reads a 32-bit output unit with a 16-bit mask.
\<close>

section \<open>Encoding: UTF-8 to wide units\<close>

definition addChar32_16 :: "char16 list \<Rightarrow> char32 \<Rightarrow> char16 list" where
  "addChar32_16 vec u =
     (let u' = u - 0x10000
      in vec @ [ucast (0xd800 OR drop_bit 10 u'), ucast (0xdc00 OR (u' AND 0x3ff))])"

definition addChar32_32 :: "char32 list \<Rightarrow> char32 \<Rightarrow> char32 list" where
  "addChar32_32 vec u = vec @ [u]"

text \<open>The loop after the label \<open>error\<close>: all continuation bytes are skipped.\<close>

fun skipContinuation :: "byte list \<Rightarrow> byte list" where
  "skipContinuation [] = []"
| "skipContinuation (b # bs) =
     (if b AND 0xc0 = 0x80 then skipContinuation bs else b # bs)"

text \<open>One \<open>GOTO_ERROR_IF\<close> with its \<open>++i\<close>: the next byte, if it is a continuation byte.\<close>

fun nextContinuation :: "byte list \<Rightarrow> (byte \<times> byte list) option" where
  "nextContinuation [] = None"
| "nextContinuation (b # bs) = (if b AND 0xc0 \<noteq> 0x80 then None else Some (b, bs))"

definition encodeUtf_fail ::
  "byte list \<Rightarrow> 'w::len word list \<Rightarrow> byte list \<times> 'w word list \<times> bool" where
  "encodeUtf_fail rest result = (skipContinuation rest, result @ [0xfffd], True)"

definition encodeUtf_step ::
  "('w::len word list \<Rightarrow> char32 \<Rightarrow> 'w word list) \<Rightarrow> byte \<Rightarrow> byte list \<Rightarrow> 'w word list \<Rightarrow> bool \<Rightarrow>
     byte list \<times> 'w word list \<times> bool" where
  "encodeUtf_step addChar32 c rest result err =
     (if c < 0x80 then (rest, result @ [ucast c], err)
      else if c < 0xc0 then encodeUtf_fail rest result
      else if c < 0xe0 then
        (case nextContinuation rest of
           None \<Rightarrow> encodeUtf_fail rest result
         | Some (c2, rest2) \<Rightarrow>
             (let u = push_bit 6 (ucast (c AND 0x1f)) OR ucast (c2 AND 0x3f) :: char16
              in if u < 0x80 then encodeUtf_fail rest2 result
                 else (rest2, result @ [ucast u], err)))
      else if c < 0xf0 then
        (case nextContinuation rest of
           None \<Rightarrow> encodeUtf_fail rest result
         | Some (c2, rest2) \<Rightarrow>
        (case nextContinuation rest2 of
           None \<Rightarrow> encodeUtf_fail rest2 result
         | Some (c3, rest3) \<Rightarrow>
             (let u = push_bit 12 (ucast (c AND 0xf)) OR push_bit 6 (ucast (c2 AND 0x3f))
                        OR ucast (c3 AND 0x3f) :: char16
              in if u < 0x800 then encodeUtf_fail rest3 result
                 else if u AND 0xf800 = 0xd800 then
                   (if result \<noteq> [] \<and> u AND 0xfc00 = 0xdc00 \<and> last result AND 0xfc00 = 0xd800
                    then encodeUtf_fail rest3 result
                    else (rest3, result @ [ucast u], True))
                 else (rest3, result @ [ucast u], err))))
      else if c < 0xf8 then
        (case nextContinuation rest of
           None \<Rightarrow> encodeUtf_fail rest result
         | Some (c2, rest2) \<Rightarrow>
        (case nextContinuation rest2 of
           None \<Rightarrow> encodeUtf_fail rest2 result
         | Some (c3, rest3) \<Rightarrow>
        (case nextContinuation rest3 of
           None \<Rightarrow> encodeUtf_fail rest3 result
         | Some (c4, rest4) \<Rightarrow>
             (let u = push_bit 18 (ucast (c AND 0x7)) OR push_bit 12 (ucast (c2 AND 0x3f))
                        OR push_bit 6 (ucast (c3 AND 0x3f)) OR ucast (c4 AND 0x3f) :: char32
              in if u < 0x10000 then encodeUtf_fail rest4 result
                 else if u \<ge> 0x110000 then encodeUtf_fail rest4 result
                 else (rest4, addChar32 result u, err)))))
      else encodeUtf_fail rest result)"

lemma length_skipContinuation: "length (skipContinuation bs) \<le> length bs"
  by (induction bs rule: skipContinuation.induct) auto

lemma nextContinuation_length:
  "nextContinuation bs = Some (b, bs') \<Longrightarrow> length bs = Suc (length bs')"
  by (cases bs) (auto split: if_splits)

lemma encodeUtf_step_length:
  "encodeUtf_step add32 c rest result err = (rest', result', err') \<Longrightarrow> length rest' \<le> length rest"
  unfolding encodeUtf_step_def encodeUtf_fail_def Let_def
  using length_skipContinuation
  by (fastforce split: if_splits option.splits dest!: nextContinuation_length intro: le_trans)

function encodeUtf_loop ::
  "('w::len word list \<Rightarrow> char32 \<Rightarrow> 'w word list) \<Rightarrow> byte list \<Rightarrow> 'w word list \<Rightarrow> bool \<Rightarrow>
     'w word list \<times> bool" where
  "encodeUtf_loop addChar32 [] result err = (result, err)"
| "encodeUtf_loop addChar32 (c # rest) result err =
     (case encodeUtf_step addChar32 c rest result err of
        (rest', result', err') \<Rightarrow> encodeUtf_loop addChar32 rest' result' err')"
  by pat_completeness auto
termination
  by (relation "measure (\<lambda>(_, text, _, _). length text)")
     (auto simp: less_Suc_eq_le dest: encodeUtf_step_length split: prod.splits)

definition encodeUtf ::
  "('w::len word list \<Rightarrow> char32 \<Rightarrow> 'w word list) \<Rightarrow> byte list \<Rightarrow> bool \<Rightarrow>
     'w word list encoding_result" where
  "encodeUtf addChar32 text nulTerminate =
     (case encodeUtf_loop addChar32 text [] False of
        (result, err) \<Rightarrow> encResult (if nulTerminate then result @ [0] else result) err)"

definition encodeUtf16 :: "byte list \<Rightarrow> bool \<Rightarrow> char16 list encoding_result" where
  "encodeUtf16 text nulTerminate = encodeUtf addChar32_16 text nulTerminate"

definition encodeUtf32 :: "byte list \<Rightarrow> bool \<Rightarrow> char32 list encoding_result" where
  "encodeUtf32 text nulTerminate = encodeUtf addChar32_32 text nulTerminate"

section \<open>Decoding: wide units to UTF-8\<close>

text \<open>The two, three and four byte groups the decoders append.\<close>

definition utf8_2 :: "'w::len word \<Rightarrow> byte list" where
  "utf8_2 u = [ucast (drop_bit 6 u OR 0xc0), ucast ((u AND 0x3f) OR 0x80)]"

definition utf8_3 :: "'w::len word \<Rightarrow> byte list" where
  "utf8_3 u = [ucast (drop_bit 12 u OR 0xe0), ucast ((drop_bit 6 u AND 0x3f) OR 0x80),
     ucast ((u AND 0x3f) OR 0x80)]"

definition utf8_4 :: "char32 \<Rightarrow> byte list" where
  "utf8_4 u = [ucast (drop_bit 18 u OR 0xf0), ucast ((drop_bit 12 u AND 0x3f) OR 0x80),
     ucast ((drop_bit 6 u AND 0x3f) OR 0x80), ucast ((u AND 0x3f) OR 0x80)]"

text \<open>
  The decoders only append to their result, so the model returns the bytes of each iteration
  in front of those of the rest. The terminating NUL belongs to \<open>String\<close>, not to its content.
\<close>

fun decodeUtf16_loop :: "char16 list \<Rightarrow> byte list \<times> bool" where
  "decodeUtf16_loop [] = ([], False)"
| "decodeUtf16_loop (u # rest) =
     (if u < 0x80 then (case decodeUtf16_loop rest of (bs, e) \<Rightarrow> (ucast u # bs, e))
      else if u < 0x800 then (case decodeUtf16_loop rest of (bs, e) \<Rightarrow> (utf8_2 u @ bs, e))
      else if u AND 0xf800 = 0xd800 then
        (case rest of
           [] \<Rightarrow> (utf8_3 u, True)
         | u2 # rest2 \<Rightarrow>
             if u AND 0x400 \<noteq> 0 \<or> u2 AND 0xfc00 \<noteq> 0xdc00
             then (case decodeUtf16_loop (u2 # rest2) of (bs, e) \<Rightarrow> (utf8_3 u @ bs, True))
             else (case decodeUtf16_loop rest2 of (bs, e) \<Rightarrow>
                (utf8_4 ((push_bit 10 (ucast (u AND 0x3ff)) OR ucast (u2 AND 0x3ff)) + 0x10000) @ bs,
                 e)))
      else (case decodeUtf16_loop rest of (bs, e) \<Rightarrow> (utf8_3 u @ bs, e)))"

definition decodeUtf16 :: "char16 list \<Rightarrow> byte list encoding_result" where
  "decodeUtf16 utf16 = (case decodeUtf16_loop utf16 of (bs, e) \<Rightarrow> encResult bs e)"

fun decodeUtf32_loop :: "char32 list \<Rightarrow> byte list \<times> bool" where
  "decodeUtf32_loop [] = ([], False)"
| "decodeUtf32_loop (u # rest) =
     (case decodeUtf32_loop rest of (bs, e) \<Rightarrow>
       (if u < 0x80 then (ucast u # bs, e)
        else if u < 0x800 then (utf8_2 u @ bs, e)
        else if u < 0x10000 then (utf8_3 u @ bs, e \<or> u AND 0xfffff800 = 0xd800)
        else if u \<ge> 0x110000 then ([0xef, 0xbf, 0xbd] @ bs, True)
        else (utf8_4 u @ bs, e)))"

definition decodeUtf32 :: "char32 list \<Rightarrow> byte list encoding_result" where
  "decodeUtf32 utf32 = (case decodeUtf32_loop utf32 of (bs, e) \<Rightarrow> encResult bs e)"

section \<open>What the byte groups decode to\<close>

lemma utf8_2_spec:
  fixes u :: "'w::len word"
  assumes "8 \<le> LENGTH('w)" and "unat u < 0x800"
  shows "map unat (utf8_2 u) = [0xc0 + unat u div 64, 0x80 + unat u mod 64]"
proof -
  from assms(2) have "unat u div 64 < 32" by simp
  then show ?thesis
    by (simp add: utf8_2_def bits_to_nat unat_or_lead [OF assms(1)])
qed

lemma utf8_3_spec:
  fixes u :: "'w::len word"
  assumes "8 \<le> LENGTH('w)" and "unat u < 0x10000"
  shows "map unat (utf8_3 u) =
    [0xe0 + unat u div 4096, 0x80 + unat u div 64 mod 64, 0x80 + unat u mod 64]"
proof -
  from assms(2) have "unat u div 4096 < 16" by simp
  then show ?thesis
    by (simp add: utf8_3_def bits_to_nat unat_or_lead [OF assms(1)])
qed

lemma utf8_4_spec:
  assumes "unat u < 0x200000"
  shows "map unat (utf8_4 u) =
    [0xf0 + unat u div 262144, 0x80 + unat u div 4096 mod 64, 0x80 + unat u div 64 mod 64,
     0x80 + unat u mod 64]"
proof -
  from assms have "unat u div 262144 < 8" by simp
  then show ?thesis
    by (simp add: utf8_4_def bits_to_nat unat_or_lead)
qed

lemma continuation_byte: "unat (b :: byte) = 0x80 + q \<Longrightarrow> q < 64 \<Longrightarrow> b AND 0xc0 = 0x80"
  by (simp add: continuation_iff utf8_payload)

lemma encodeUtf_loop_2:
  assumes u: "unat (u :: char16) < 0x800" "0x80 \<le> unat u"
  shows "encodeUtf_loop add32 (utf8_2 u @ rest) result err =
    encodeUtf_loop add32 rest (result @ [ucast u]) err"
proof -
  define q r where "q = unat u div 64" and "r = unat u mod 64"
  have q: "q < 32" and r: "r < 64" and x: "unat u = q * 64 + r"
    using u by (auto simp: q_def r_def)
  obtain a b where ab: "utf8_2 u = [a, b]" by (simp add: utf8_2_def)
  with utf8_2_spec [of u] u(1) have a: "unat a = 0xc0 + q" and b: "unat b = 0x80 + r"
    by (auto simp: q_def r_def)
  have "push_bit 6 (ucast (a AND 0x1f)) OR ucast (b AND 0x3f) = u"
    by (subst word_unat_eq_iff, subst unat_or_add [of 6])
      (use q r in \<open>simp_all add: bits_to_nat a b x utf8_payload\<close>)
  then show ?thesis
    using q r u continuation_byte [OF b]
    by (simp add: ab encodeUtf_step_def word_less_nat_alt a)
qed

lemma encodeUtf_loop_3:
  assumes u: "0x800 \<le> unat (u :: char16)"
  shows "encodeUtf_loop add32 (utf8_3 u @ rest) result err =
    (if unat u div 2048 = 27 then
       (if result \<noteq> [] \<and> unat u div 1024 = 55 \<and> last result AND 0xfc00 = 0xd800
        then encodeUtf_loop add32 (skipContinuation rest) (result @ [0xfffd]) True
        else encodeUtf_loop add32 rest (result @ [ucast u]) True)
     else encodeUtf_loop add32 rest (result @ [ucast u]) err)"
proof -
  define p q r where "p = unat u div 4096" and "q = unat u div 64 mod 64" and "r = unat u mod 64"
  have "unat u div 4096 < 16" using unat_char16 [of u] by linarith
  then have p: "p < 16" and q: "q < 64" and r: "r < 64" by (auto simp: p_def q_def r_def)
  have x: "unat u = p * 4096 + q * 64 + r"
    unfolding p_def q_def r_def by (rule base64_digits)
  obtain a b c where abc: "utf8_3 u = [a, b, c]" by (simp add: utf8_3_def)
  with utf8_3_spec [of u] have a: "unat a = 0xe0 + p" and b: "unat b = 0x80 + q"
    and c: "unat c = 0x80 + r"
    by (auto simp: p_def q_def r_def)
  have 1: "unat (push_bit 6 (ucast (b AND 0x3f)) OR ucast (c AND 0x3f) :: char16) = q * 64 + r"
    by (subst unat_or_add [of 6]) (use q r in \<open>simp_all add: bits_to_nat b c utf8_payload\<close>)
  have u': "push_bit 12 (ucast (a AND 0xf)) OR push_bit 6 (ucast (b AND 0x3f)) OR ucast (c AND 0x3f) = u"
    by (subst word_unat_eq_iff, subst unat_or_add [of 12])
      (use p q r 1 in \<open>simp_all add: bits_to_nat a x utf8_payload\<close>)
  show ?thesis
    using p q r u continuation_byte [OF b] continuation_byte [OF c]
    by (simp add: abc encodeUtf_step_def word_less_nat_alt a u' surrogate_iff high_low_iff
        encodeUtf_fail_def)
qed

lemma encodeUtf_loop_1:
  assumes "unat (u :: char16) < 0x80"
  shows "encodeUtf_loop add32 (ucast u # rest) result err =
    encodeUtf_loop add32 rest (result @ [ucast u]) err"
proof -
  have "ucast (ucast u :: byte) = (ucast u :: 'a word)"
    using assms by (simp add: word_unat_eq_iff bits_to_nat)
  then show ?thesis
    using assms by (simp add: encodeUtf_step_def word_less_nat_alt bits_to_nat)
qed

lemma encodeUtf_loop_4:
  assumes u: "0x10000 \<le> unat (u :: char32)" "unat u < 0x110000"
  shows "encodeUtf_loop add32 (utf8_4 u @ rest) result err =
    encodeUtf_loop add32 rest (add32 result u) err"
proof -
  define o' p q r where "o' = unat u div 262144" and "p = unat u div 4096 mod 64"
    and "q = unat u div 64 mod 64" and "r = unat u mod 64"
  have "unat u div 262144 < 8" using u by linarith
  then have o': "o' < 8" and p: "p < 64" and q: "q < 64" and r: "r < 64"
    by (auto simp: o'_def p_def q_def r_def)
  have x: "unat u = o' * 262144 + p * 4096 + q * 64 + r"
    unfolding o'_def p_def q_def r_def by (rule base64_digits)
  obtain a b c d where abcd: "utf8_4 u = [a, b, c, d]" by (simp add: utf8_4_def)
  with utf8_4_spec [of u] u have a: "unat a = 0xf0 + o'" and b: "unat b = 0x80 + p"
    and c: "unat c = 0x80 + q" and d: "unat d = 0x80 + r"
    by (auto simp: o'_def p_def q_def r_def)
  have 1: "unat (push_bit 6 (ucast (c AND 0x3f)) OR ucast (d AND 0x3f) :: char32) = q * 64 + r"
    by (subst unat_or_add [of 6]) (use q r in \<open>simp_all add: bits_to_nat c d utf8_payload\<close>)
  have 2: "unat (push_bit 12 (ucast (b AND 0x3f)) OR push_bit 6 (ucast (c AND 0x3f)) OR
      ucast (d AND 0x3f) :: char32) = p * 4096 + q * 64 + r"
    by (subst unat_or_add [of 12]) (use p q r 1 in \<open>simp_all add: bits_to_nat b utf8_payload\<close>)
  have u': "push_bit 18 (ucast (a AND 0x7)) OR push_bit 12 (ucast (b AND 0x3f)) OR
      push_bit 6 (ucast (c AND 0x3f)) OR ucast (d AND 0x3f) = u"
    by (subst word_unat_eq_iff, subst unat_or_add [of 18])
      (use o' p q r 2 in \<open>simp_all add: bits_to_nat a x utf8_payload\<close>)
  show ?thesis
    using o' p q r u continuation_byte [OF b] continuation_byte [OF c] continuation_byte [OF d]
    by (simp add: abcd encodeUtf_step_def word_less_nat_alt word_le_nat_alt a u')
qed

declare encodeUtf_loop.simps(2) [simp del]

section \<open>Well-formed UTF-16\<close>

definition isHighSurrogate :: "char16 \<Rightarrow> bool" where
  "isHighSurrogate u \<longleftrightarrow> 0xd800 \<le> u \<and> u < 0xdc00"

definition isLowSurrogate :: "char16 \<Rightarrow> bool" where
  "isLowSurrogate u \<longleftrightarrow> 0xdc00 \<le> u \<and> u < 0xe000"

fun wellFormedUtf16 :: "char16 list \<Rightarrow> bool" where
  "wellFormedUtf16 [] \<longleftrightarrow> True"
| "wellFormedUtf16 (u # rest) \<longleftrightarrow>
     (if isHighSurrogate u then
        (case rest of [] \<Rightarrow> False | u2 # rest2 \<Rightarrow> isLowSurrogate u2 \<and> wellFormedUtf16 rest2)
      else \<not> isLowSurrogate u \<and> wellFormedUtf16 rest)"

lemma surrogate_tests:
  "isHighSurrogate u \<longleftrightarrow> unat u div 1024 = 54"
  "isLowSurrogate u \<longleftrightarrow> unat u div 1024 = 55"
  "u AND 0xf800 = 0xd800 \<longleftrightarrow> isHighSurrogate u \<or> isLowSurrogate u"
  "u AND 0xfc00 = 0xd800 \<longleftrightarrow> isHighSurrogate u"
  "u AND 0xfc00 = 0xdc00 \<longleftrightarrow> isLowSurrogate u"
  "isHighSurrogate u \<Longrightarrow> u AND 0x400 = 0"
  "isLowSurrogate u \<Longrightarrow> u AND 0x400 \<noteq> 0"
proof -
  show h: "isHighSurrogate u \<longleftrightarrow> unat u div 1024 = 54"
    by (simp add: isHighSurrogate_def word_less_nat_alt word_le_nat_alt nat_div_eq_iff)
  show l: "isLowSurrogate u \<longleftrightarrow> unat u div 1024 = 55"
    by (simp add: isLowSurrogate_def word_less_nat_alt word_le_nat_alt nat_div_eq_iff)
  show "u AND 0xf800 = 0xd800 \<longleftrightarrow> isHighSurrogate u \<or> isLowSurrogate u"
    unfolding surrogate_iff h l by (auto simp: nat_div_eq_iff)
  show "u AND 0xfc00 = 0xd800 \<longleftrightarrow> isHighSurrogate u" "u AND 0xfc00 = 0xdc00 \<longleftrightarrow> isLowSurrogate u"
    unfolding high_low_iff h l by (rule refl)+
  show "isHighSurrogate u \<Longrightarrow> u AND 0x400 = 0" "isLowSurrogate u \<Longrightarrow> u AND 0x400 \<noteq> 0"
    by (simp_all add: bit10_iff h l)
qed

section \<open>The WTF-8 guarantee for UTF-16\<close>

text \<open>The code point of a surrogate pair, as the decoder computes it.\<close>

definition surrogatePair :: "char16 \<Rightarrow> char16 \<Rightarrow> char32" where
  "surrogatePair u u2 = (push_bit 10 (ucast (u AND 0x3ff)) OR ucast (u2 AND 0x3ff)) + 0x10000"

lemma unat_surrogatePair:
  assumes "isHighSurrogate u" and "isLowSurrogate u2"
  shows "unat (surrogatePair u u2) = 0x10000 + unat u mod 1024 * 1024 + unat u2 mod 1024"
proof -
  have "unat (push_bit 10 (ucast (u AND 0x3ff)) OR ucast (u2 AND 0x3ff) :: char32) =
      unat u mod 1024 * 1024 + unat u2 mod 1024"
    by (subst unat_or_add [of 10]) (simp_all add: bits_to_nat)
  then show ?thesis
    by (simp add: surrogatePair_def unat_word_ariths)
qed

lemma addChar32_16_pair:
  assumes h: "isHighSurrogate u" and l: "isLowSurrogate u2"
  shows "addChar32_16 acc (surrogatePair u u2) = acc @ [u, u2]"
proof -
  define a b where "a = unat u mod 1024" and "b = unat u2 mod 1024"
  have ab: "a < 1024" "b < 1024" by (simp_all add: a_def b_def)
  let ?x = "surrogatePair u u2 - 0x10000"
  have "unat ?x = a * 1024 + b"
    by (subst unat_sub_if_size) (simp add: word_le_nat_alt unat_surrogatePair [OF h l] a_def b_def)
  then have x: "unat (drop_bit 10 ?x) = a" "unat (?x AND 0x3ff) = b"
    using ab by (simp_all add: bits_to_nat)
  have "unat u = 0xd800 + a" "unat u2 = 0xdc00 + b"
    using h l div_mult_mod_eq [of "unat u" 1024] div_mult_mod_eq [of "unat u2" 1024]
    by (simp_all add: surrogate_tests(1,2) a_def b_def)
  moreover have "unat (0xd800 OR drop_bit 10 ?x) = 0xd800 + a"
    "unat (0xdc00 OR (?x AND 0x3ff)) = 0xdc00 + b"
    using ab by (subst unat_or_add [of 10]; simp add: x)+
  ultimately show ?thesis
    using ab by (simp add: addChar32_16_def Let_def word_unat_eq_iff bits_to_nat)
qed

text \<open>
  A UTF-16 text is read in pairs, lone surrogates and plain units: the three shapes of an
  iteration of the decoder, of the specification and of the induction over both.
\<close>

definition loneSurrogate :: "char16 \<Rightarrow> char16 list \<Rightarrow> bool" where
  "loneSurrogate u rest \<longleftrightarrow> isLowSurrogate u \<or>
     (isHighSurrogate u \<and> (rest = [] \<or> \<not> isLowSurrogate (hd rest)))"

definition utf8_plain :: "char16 \<Rightarrow> byte list" where
  "utf8_plain u = (if u < 0x80 then [ucast u] else if u < 0x800 then utf8_2 u else utf8_3 u)"

lemma high_not_low: "isHighSurrogate u \<Longrightarrow> \<not> isLowSurrogate u"
  by (simp add: surrogate_tests(1,2))

lemma utf16_induct [case_names Nil Pair Lone Plain]:
  assumes "P []"
    and "\<And>u u2 rest. isHighSurrogate u \<Longrightarrow> isLowSurrogate u2 \<Longrightarrow> P rest \<Longrightarrow> P (u # u2 # rest)"
    and "\<And>u rest. loneSurrogate u rest \<Longrightarrow> P rest \<Longrightarrow> P (u # rest)"
    and "\<And>u rest. \<not> isHighSurrogate u \<Longrightarrow> \<not> isLowSurrogate u \<Longrightarrow> P rest \<Longrightarrow> P (u # rest)"
  shows "P us"
proof (induction us rule: length_induct)
  case (1 us)
  show ?case
  proof (cases us)
    case Nil
    with assms(1) show ?thesis by simp
  next
    case (Cons u rest)
    with 1 have IH: "P rest" "rest \<noteq> [] \<Longrightarrow> P (tl rest)" by auto
    show ?thesis
      using assms(2) [of u "hd rest" "tl rest"] assms(3,4) [of u rest] IH Cons
      by (cases "rest = []") (auto simp: loneSurrogate_def)
  qed
qed

lemma decodeUtf16_loop_shapes:
  "isHighSurrogate u \<Longrightarrow> isLowSurrogate u2 \<Longrightarrow> decodeUtf16_loop (u # u2 # rest) =
     (utf8_4 (surrogatePair u u2) @ fst (decodeUtf16_loop rest), snd (decodeUtf16_loop rest))"
  "loneSurrogate u rest \<Longrightarrow> decodeUtf16_loop (u # rest) =
     (utf8_3 u @ fst (decodeUtf16_loop rest), True)"
  "\<not> isHighSurrogate u \<Longrightarrow> \<not> isLowSurrogate u \<Longrightarrow> decodeUtf16_loop (u # rest) =
     (utf8_plain u @ fst (decodeUtf16_loop rest), snd (decodeUtf16_loop rest))"
proof -
  have big: "\<not> u < 0x800" if "isHighSurrogate u \<or> isLowSurrogate u" for u
    using that by (auto simp: isHighSurrogate_def isLowSurrogate_def word_le_nat_alt word_less_nat_alt)
  then have big': "\<not> u < 0x80" if "isHighSurrogate u \<or> isLowSurrogate u" for u
    using that by (force simp: word_less_nat_alt)
  show "decodeUtf16_loop (u # u2 # rest) =
     (utf8_4 (surrogatePair u u2) @ fst (decodeUtf16_loop rest), snd (decodeUtf16_loop rest))"
    if "isHighSurrogate u" "isLowSurrogate u2"
    using that big [of u] big' [of u] surrogate_tests(6) [of u]
    by (simp add: surrogate_tests(3,5) surrogatePair_def split: prod.split)
  show "decodeUtf16_loop (u # rest) = (utf8_3 u @ fst (decodeUtf16_loop rest), True)"
    if "loneSurrogate u rest"
    using that big [of u] big' [of u] surrogate_tests(6,7) [of u]
    by (cases rest) (auto simp: loneSurrogate_def surrogate_tests(3,5) simp del: decodeUtf16_loop.simps(2)
        simp: decodeUtf16_loop.simps(2) [of u] split: prod.split)
  show "decodeUtf16_loop (u # rest) =
     (utf8_plain u @ fst (decodeUtf16_loop rest), snd (decodeUtf16_loop rest))"
    if "\<not> isHighSurrogate u" "\<not> isLowSurrogate u"
    using that by (simp add: surrogate_tests(3) utf8_plain_def split: prod.split)
qed

declare decodeUtf16_loop.simps(2) [simp del]

declare wellFormedUtf16.simps(2) [simp del]

lemma wellFormedUtf16_shapes:
  "isHighSurrogate u \<Longrightarrow> isLowSurrogate u2 \<Longrightarrow> wellFormedUtf16 (u # u2 # rest) = wellFormedUtf16 rest"
  "loneSurrogate u rest \<Longrightarrow> \<not> wellFormedUtf16 (u # rest)"
  "\<not> isHighSurrogate u \<Longrightarrow> \<not> isLowSurrogate u \<Longrightarrow> wellFormedUtf16 (u # rest) = wellFormedUtf16 rest"
  by (simp_all add: wellFormedUtf16.simps(2) [of u])
     (cases rest; auto simp: wellFormedUtf16.simps(2) [of u] loneSurrogate_def dest: high_not_low)

lemma decodeUtf16_flag: "snd (decodeUtf16_loop us) \<longleftrightarrow> \<not> wellFormedUtf16 us"
  by (induction us rule: utf16_induct)
     (simp_all add: decodeUtf16_loop_shapes wellFormedUtf16_shapes)

lemma encodeUtf_loop_plain:
  assumes "\<not> isHighSurrogate u" and "\<not> isLowSurrogate u"
  shows "encodeUtf_loop addChar32_16 (utf8_plain u @ rest) acc err =
    encodeUtf_loop addChar32_16 rest (acc @ [u]) err"
proof -
  have "unat u div 2048 \<noteq> 27"
    using assms surrogate_tests(3) [of u] by (simp add: surrogate_iff)
  then show ?thesis
    by (auto simp: utf8_plain_def word_less_nat_alt encodeUtf_loop_1 encodeUtf_loop_2
        encodeUtf_loop_3)
qed

lemma encodeUtf_loop_surrogate:
  assumes "isHighSurrogate u \<or> isLowSurrogate u"
    and "\<not> (acc \<noteq> [] \<and> isHighSurrogate (last acc) \<and> isLowSurrogate u)"
  shows "encodeUtf_loop addChar32_16 (utf8_3 u @ rest) acc err =
    encodeUtf_loop addChar32_16 rest (acc @ [u]) True"
proof -
  have "unat u div 2048 = 27"
    using assms surrogate_tests(3) [of u] by (simp add: surrogate_iff)
  moreover from this have "0x800 \<le> unat u" by (simp add: nat_div_eq_iff)
  ultimately show ?thesis
    using assms(2) by (auto simp: encodeUtf_loop_3 surrogate_tests(2,4))
qed

lemma encodeUtf_loop_pair:
  assumes "isHighSurrogate u" and "isLowSurrogate u2"
  shows "encodeUtf_loop addChar32_16 (utf8_4 (surrogatePair u u2) @ rest) acc err =
    encodeUtf_loop addChar32_16 rest (acc @ [u, u2]) err"
proof -
  have "unat u mod 1024 < 1024" "unat u2 mod 1024 < 1024" by simp_all
  then show ?thesis
    by (simp add: encodeUtf_loop_4 unat_surrogatePair [OF assms] addChar32_16_pair [OF assms])
qed

lemma decode_then_encode16:
  assumes "\<not> (acc \<noteq> [] \<and> isHighSurrogate (last acc) \<and> us \<noteq> [] \<and> isLowSurrogate (hd us))"
  shows "encodeUtf_loop addChar32_16 (fst (decodeUtf16_loop us)) acc err =
    (acc @ us, err \<or> \<not> wellFormedUtf16 us)"
  using assms
proof (induction us arbitrary: acc err rule: utf16_induct)
  case Nil
  show ?case by simp
next
  case (Pair u u2 rest)
  then show ?case
    by (simp add: decodeUtf16_loop_shapes wellFormedUtf16_shapes encodeUtf_loop_pair high_not_low
        surrogate_tests(1,2))
next
  case (Lone u rest)
  then have "isHighSurrogate u \<or> isLowSurrogate u"
    and "\<not> (acc \<noteq> [] \<and> isHighSurrogate (last acc) \<and> isLowSurrogate u)"
    and "\<not> (acc @ [u] \<noteq> [] \<and> isHighSurrogate (last (acc @ [u])) \<and> rest \<noteq> [] \<and>
      isLowSurrogate (hd rest))"
    using high_not_low by (auto simp: loneSurrogate_def)
  then show ?case
    using Lone.hyps Lone.IH [of "acc @ [u]" True]
    by (simp add: decodeUtf16_loop_shapes wellFormedUtf16_shapes encodeUtf_loop_surrogate)
next
  case (Plain u rest)
  then show ?case
    by (simp add: decodeUtf16_loop_shapes wellFormedUtf16_shapes encodeUtf_loop_plain)
qed

text \<open>
  C16. UTF-16 of any shape, well-formed or not, comes back unit for unit from the trip to UTF-8 and
  back, and both legs raise \<open>hadErrors\<close> exactly when the text has an unpaired surrogate.
\<close>

theorem utf16_roundtrip:
  "value_of (encodeUtf16 (value_of (decodeUtf16 us)) False) = us \<and>
   hadErrors (decodeUtf16 us) = (\<not> wellFormedUtf16 us) \<and>
   hadErrors (encodeUtf16 (value_of (decodeUtf16 us)) False) = (\<not> wellFormedUtf16 us)"
  using decode_then_encode16 [of "[]" us False] decodeUtf16_flag [of us]
  by (simp add: encodeUtf16_def encodeUtf_def decodeUtf16_def case_prod_unfold)

section \<open>UTF-8 that is read without errors\<close>

lemma encodeUtf_step_err: "encodeUtf_step add32 c rest acc True = (rest', acc', err') \<Longrightarrow> err'"
  by (auto simp: encodeUtf_step_def encodeUtf_fail_def Let_def split: if_splits option.splits)

lemma encodeUtf_loop_err: "snd (encodeUtf_loop add32 bs acc True)"
proof (induction bs arbitrary: acc rule: length_induct)
  case (1 bs)
  show ?case
  proof (cases bs)
    case (Cons c rest)
    obtain rest' acc' err' where st: "encodeUtf_step add32 c rest acc True = (rest', acc', err')"
      by (metis prod_cases3)
    then have "err'" and "length rest' < length bs"
      using encodeUtf_step_err encodeUtf_step_length Cons by fastforce+
    with st show ?thesis
      using 1 Cons by (simp add: encodeUtf_loop.simps(2))
  qed simp
qed

lemma nextContinuation_SomeD:
  "nextContinuation bs = Some (b, bs') \<Longrightarrow> bs = b # bs' \<and> unat b div 64 = 2"
  by (cases bs) (auto simp: continuation_iff split: if_splits)

lemma byte_list_eqI: "map unat xs = map unat ys \<Longrightarrow> xs = (ys :: byte list)"
  by (rule inj_map_eq_map [THEN iffD1, rotated]) (auto intro: injI)

lemma lead_payload:
  fixes c :: nat
  shows "0xc0 \<le> c \<Longrightarrow> c < 0xe0 \<Longrightarrow> c = 0xc0 + c mod 32"
    and "0xe0 \<le> c \<Longrightarrow> c < 0xf0 \<Longrightarrow> c = 0xe0 + c mod 16"
    and "0xf0 \<le> c \<Longrightarrow> c < 0xf8 \<Longrightarrow> c = 0xf0 + c mod 8"
    and "c div 64 = 2 \<Longrightarrow> c = 0x80 + c mod 64"
proof -
  have *: "c = q * m + c mod m" if "c div m = q" for q m
    using div_mult_mod_eq [of c m] that by simp
  show "0xc0 \<le> c \<Longrightarrow> c < 0xe0 \<Longrightarrow> c = 0xc0 + c mod 32"
    using * [of 32 6] by (simp add: nat_div_eq_iff)
  show "0xe0 \<le> c \<Longrightarrow> c < 0xf0 \<Longrightarrow> c = 0xe0 + c mod 16"
    using * [of 16 14] by (simp add: nat_div_eq_iff)
  show "0xf0 \<le> c \<Longrightarrow> c < 0xf8 \<Longrightarrow> c = 0xf0 + c mod 8"
    using * [of 8 30] by (simp add: nat_div_eq_iff)
  show "c div 64 = 2 \<Longrightarrow> c = 0x80 + c mod 64"
    using * [of 64 2] by simp
qed

lemma digit_div_mod: "r < 64 \<Longrightarrow> (p * 64 + r) div 64 = (p :: nat) \<and> (p * 64 + r) mod 64 = r"
  by simp

lemma digits_div_mod:
  fixes p q r :: nat
  assumes "q < 64" and "r < 64"
  shows "(p * 4096 + q * 64 + r) div 4096 = p" "(p * 4096 + q * 64 + r) div 64 mod 64 = q"
    "(p * 4096 + q * 64 + r) mod 64 = r"
proof -
  have e: "p * 4096 + q * 64 + r = (p * 64 + q) * 64 + r" by simp
  note d = digit_div_mod [OF assms(1), of p] digit_div_mod [OF assms(2), of "p * 64 + q"]
  show "(p * 4096 + q * 64 + r) div 64 mod 64 = q" "(p * 4096 + q * 64 + r) mod 64 = r"
    by (simp_all only: e d)
  have "(p * 4096 + q * 64 + r) div 4096 = (p * 4096 + q * 64 + r) div 64 div 64"
    by (simp flip: div_mult2_eq)
  also have "\<dots> = p" by (simp only: e d)
  finally show "(p * 4096 + q * 64 + r) div 4096 = p" .
qed

lemma decoded_2:
  assumes "0xc0 \<le> c" "c < 0xe0" "unat c2 div 64 = 2"
    and u: "u = push_bit 6 (ucast (c AND 0x1f)) OR ucast (c2 AND 0x3f)"
  shows "utf8_2 (u :: char16) = [c, c2]" and "unat u < 0x800"
proof -
  have c: "unat c = 0xc0 + unat c mod 32"
    using assms(1,2) by (intro lead_payload) (simp_all add: word_le_nat_alt word_less_nat_alt)
  have x: "unat u = unat c mod 32 * 64 + unat c2 mod 64"
    unfolding u by (subst unat_or_add [of 6]) (simp_all add: bits_to_nat)
  then show "unat u < 0x800"
    using mod_less_divisor [of 32 "unat c"] mod_less_divisor [of 64 "unat c2"] by linarith
  then have "map unat (utf8_2 u) = map unat [c, c2]"
    using lead_payload(4) [OF assms(3)] c by (simp add: utf8_2_spec x digit_div_mod)
  then show "utf8_2 u = [c, c2]" by (rule byte_list_eqI)
qed

lemma decoded_3:
  assumes "0xe0 \<le> c" "c < 0xf0" "unat c2 div 64 = 2" "unat c3 div 64 = 2"
    and u: "u = push_bit 12 (ucast (c AND 0xf)) OR push_bit 6 (ucast (c2 AND 0x3f)) OR
      ucast (c3 AND 0x3f)"
  shows "utf8_3 (u :: char16) = [c, c2, c3]"
proof -
  have c: "unat c = 0xe0 + unat c mod 16"
    using assms(1,2) by (intro lead_payload) (simp_all add: word_le_nat_alt word_less_nat_alt)
  have 1: "unat (push_bit 6 (ucast (c2 AND 0x3f)) OR ucast (c3 AND 0x3f) :: char16) =
      unat c2 mod 64 * 64 + unat c3 mod 64"
    by (subst unat_or_add [of 6]) (simp_all add: bits_to_nat)
  have "unat c2 mod 64 * 64 + unat c3 mod 64 < 4096"
    using mod_less_divisor [of 64 "unat c2"] mod_less_divisor [of 64 "unat c3"] by linarith
  then have x: "unat u = unat c mod 16 * 4096 + unat c2 mod 64 * 64 + unat c3 mod 64"
    unfolding u by (subst unat_or_add [of 12]) (simp_all add: 1 bits_to_nat)
  then have "map unat (utf8_3 u) = map unat [c, c2, c3]"
    using lead_payload(4) [OF assms(3)] lead_payload(4) [OF assms(4)] c
    by (simp add: utf8_3_spec x digits_div_mod)
  then show ?thesis by (rule byte_list_eqI)
qed

lemma digits_div_mod4:
  fixes o' p q r :: nat
  assumes "p < 64" and "q < 64" and "r < 64"
  shows "(o' * 262144 + p * 4096 + q * 64 + r) div 262144 = o'"
    "(o' * 262144 + p * 4096 + q * 64 + r) div 4096 mod 64 = p"
    "(o' * 262144 + p * 4096 + q * 64 + r) div 64 mod 64 = q"
    "(o' * 262144 + p * 4096 + q * 64 + r) mod 64 = r"
proof -
  have e: "o' * 262144 + p * 4096 + q * 64 + r = (o' * 64 + p) * 4096 + q * 64 + r" by simp
  note d = digits_div_mod [OF assms(2,3), of "o' * 64 + p"] digit_div_mod [OF assms(1), of o']
  show "(o' * 262144 + p * 4096 + q * 64 + r) div 4096 mod 64 = p"
    "(o' * 262144 + p * 4096 + q * 64 + r) div 64 mod 64 = q"
    "(o' * 262144 + p * 4096 + q * 64 + r) mod 64 = r"
    by (simp_all only: e d)
  have "(o' * 262144 + p * 4096 + q * 64 + r) div 262144 =
      (o' * 262144 + p * 4096 + q * 64 + r) div 4096 div 64"
    by (simp flip: div_mult2_eq)
  also have "\<dots> = o'" by (simp only: e d)
  finally show "(o' * 262144 + p * 4096 + q * 64 + r) div 262144 = o'" .
qed

lemma decoded_4:
  assumes "0xf0 \<le> c" "c < 0xf8" "unat c2 div 64 = 2" "unat c3 div 64 = 2" "unat c4 div 64 = 2"
    and u: "u = push_bit 18 (ucast (c AND 0x7)) OR push_bit 12 (ucast (c2 AND 0x3f)) OR
      push_bit 6 (ucast (c3 AND 0x3f)) OR ucast (c4 AND 0x3f)"
  shows "utf8_4 u = [c, c2, c3, c4]"
proof -
  have c: "unat c = 0xf0 + unat c mod 8"
    using assms(1,2) by (intro lead_payload) (simp_all add: word_le_nat_alt word_less_nat_alt)
  have 1: "unat (push_bit 6 (ucast (c3 AND 0x3f)) OR ucast (c4 AND 0x3f) :: char32) =
      unat c3 mod 64 * 64 + unat c4 mod 64"
    by (subst unat_or_add [of 6]) (simp_all add: bits_to_nat)
  have b: "unat c mod 8 < 8" "unat c2 mod 64 < 64" "unat c3 mod 64 < 64" "unat c4 mod 64 < 64"
    by simp_all
  then have "unat c3 mod 64 * 64 + unat c4 mod 64 < 4096" by linarith
  then have 2: "unat (push_bit 12 (ucast (c2 AND 0x3f)) OR push_bit 6 (ucast (c3 AND 0x3f)) OR
      ucast (c4 AND 0x3f) :: char32) =
      unat c2 mod 64 * 4096 + unat c3 mod 64 * 64 + unat c4 mod 64"
    by (subst unat_or_add [of 12]) (simp_all add: 1 bits_to_nat)
  have "unat c2 mod 64 * 4096 + unat c3 mod 64 * 64 + unat c4 mod 64 < 262144"
    using b by linarith
  then have x: "unat u = unat c mod 8 * 262144 + unat c2 mod 64 * 4096 + unat c3 mod 64 * 64 +
      unat c4 mod 64"
    unfolding u by (subst unat_or_add [of 18]) (simp_all add: 2 bits_to_nat)
  then have "unat u < 0x200000" using b by linarith
  then have "map unat (utf8_4 u) = map unat [c, c2, c3, c4]"
    using lead_payload(4) [OF assms(3)] lead_payload(4) [OF assms(4)] lead_payload(4) [OF assms(5)] c
    by (simp add: utf8_4_spec x digits_div_mod4)
  then show ?thesis by (rule byte_list_eqI)
qed

lemma addChar32_16_splits:
  assumes "0x10000 \<le> unat (u :: char32)" and "unat u < 0x110000"
  shows "\<exists>hi lo. isHighSurrogate hi \<and> isLowSurrogate lo \<and> surrogatePair hi lo = u \<and>
    (\<forall>acc. addChar32_16 acc u = acc @ [hi, lo])"
proof -
  define v where "v = u - 0x10000"
  have v: "unat v = unat u - 0x10000"
    unfolding v_def using assms by (subst unat_sub_if_size) (simp add: word_le_nat_alt)
  define a b where "a = unat v div 1024" and "b = unat v mod 1024"
  have a: "a < 1024" and b: "b < 1024" using v assms by (auto simp: a_def b_def)
  have x: "unat (drop_bit 10 v) = a" "unat (v AND 0x3ff) = b"
    by (simp_all add: bits_to_nat a_def b_def)
  define hi lo :: char16 where "hi = ucast (0xd800 OR drop_bit 10 v)"
    and "lo = ucast (0xdc00 OR (v AND 0x3ff))"
  have hl: "unat hi = 0xd800 + a" "unat lo = 0xdc00 + b"
    unfolding hi_def lo_def unat_ucast_word
    using a b by (subst unat_or_add [of 10]; simp add: x)+
  then have s: "isHighSurrogate hi" "isLowSurrogate lo"
    using a b by (simp_all add: isHighSurrogate_def isLowSurrogate_def word_le_nat_alt
        word_less_nat_alt)
  have "unat hi mod 1024 = a" "unat lo mod 1024 = b"
    using mod_mult_self3 [of 54 1024 a] mod_mult_self3 [of 55 1024 b] a b by (simp_all add: hl)
  then have "unat (surrogatePair hi lo) = unat u"
    using unat_surrogatePair [OF s] v assms(1) by (simp add: a_def b_def)
  then have "surrogatePair hi lo = u" by (simp add: word_unat_eq_iff)
  moreover have "addChar32_16 acc u = acc @ [hi, lo]" for acc
    by (simp add: addChar32_16_def Let_def hi_def lo_def v_def)
  ultimately show ?thesis using s by blast
qed

lemma encodeUtf_step_ok:
  assumes "encodeUtf_step addChar32_16 c rest acc False = (rest', acc', False)"
  shows "(\<exists>u. \<not> isHighSurrogate u \<and> \<not> isLowSurrogate u \<and> acc' = acc @ [u] \<and>
            c # rest = utf8_plain u @ rest') \<or>
    (\<exists>hi lo. isHighSurrogate hi \<and> isLowSurrogate lo \<and> acc' = acc @ [hi, lo] \<and>
            c # rest = utf8_4 (surrogatePair hi lo) @ rest')"
    (is "?plain \<or> ?pair")
proof -
  have plainI: ?plain if "\<not> isHighSurrogate u" "\<not> isLowSurrogate u" "acc' = acc @ [u]"
    "c # rest = utf8_plain u @ rest'" for u
    using that by blast
  consider (one) "c < 0x80" | (bad) "0x80 \<le> c" "c < 0xc0 \<or> 0xf8 \<le> c"
    | (two) "0xc0 \<le> c" "c < 0xe0" | (three) "0xe0 \<le> c" "c < 0xf0" | (four) "0xf0 \<le> c" "c < 0xf8"
    by fastforce
  then show ?thesis
  proof cases
    case one
    with assms have "acc' = acc @ [ucast c]" "rest' = rest"
      by (auto simp: encodeUtf_step_def)
    moreover from one have "(ucast (ucast c :: char16) :: byte) = c" "(ucast c :: char16) < 0x80"
      by (simp_all add: word_unat_eq_iff word_less_nat_alt bits_to_nat)
    ultimately have ?plain using one
      by (intro plainI [of "ucast c"])
        (auto simp: utf8_plain_def isHighSurrogate_def isLowSurrogate_def word_le_nat_alt word_less_nat_alt)
    then show ?thesis ..
  next
    case bad
    then show ?thesis using assms
      by (auto simp: encodeUtf_step_def encodeUtf_fail_def word_le_nat_alt word_less_nat_alt)
  next
    case two
    with assms obtain c2 where
      c2: "unat c2 div 64 = 2" "rest = c2 # rest'" and
      u: "u = push_bit 6 (ucast (c AND 0x1f)) OR ucast (c2 AND 0x3f) \<Longrightarrow>
        \<not> u < 0x80 \<and> acc' = acc @ [u]" for u
      by (auto simp: encodeUtf_step_def encodeUtf_fail_def Let_def word_le_nat_alt word_less_nat_alt
          split: if_splits option.splits dest!: nextContinuation_SomeD)
    define u where "u = push_bit 6 (ucast (c AND 0x1f)) OR (ucast (c2 AND 0x3f) :: char16)"
    note d = decoded_2 [OF two c2(1) u_def] u [OF u_def]
    have ?plain using d c2(2)
      by (intro plainI [of u])
        (auto simp: utf8_plain_def isHighSurrogate_def isLowSurrogate_def word_le_nat_alt word_less_nat_alt)
    then show ?thesis ..
  next
    case three
    with assms obtain c2 c3 where
      c23: "unat c2 div 64 = 2" "unat c3 div 64 = 2" "rest = c2 # c3 # rest'" and
      u: "u = push_bit 12 (ucast (c AND 0xf)) OR push_bit 6 (ucast (c2 AND 0x3f)) OR
          ucast (c3 AND 0x3f) \<Longrightarrow>
        \<not> u < 0x800 \<and> u AND 0xf800 \<noteq> 0xd800 \<and> acc' = acc @ [u]" for u
      by (auto simp: encodeUtf_step_def encodeUtf_fail_def Let_def word_le_nat_alt word_less_nat_alt
          split: if_splits option.splits dest!: nextContinuation_SomeD)
    define u where "u = push_bit 12 (ucast (c AND 0xf)) OR push_bit 6 (ucast (c2 AND 0x3f)) OR
        (ucast (c3 AND 0x3f) :: char16)"
    note d = decoded_3 [OF three c23(1,2) u_def] u [OF u_def]
    have ?plain using d c23(3) surrogate_tests(3) [of u]
      by (intro plainI [of u]) (auto simp: utf8_plain_def word_less_nat_alt)
    then show ?thesis ..
  next
    case four
    with assms obtain c2 c3 c4 where
      c234: "unat c2 div 64 = 2" "unat c3 div 64 = 2" "unat c4 div 64 = 2"
        "rest = c2 # c3 # c4 # rest'" and
      u: "u = push_bit 18 (ucast (c AND 0x7)) OR push_bit 12 (ucast (c2 AND 0x3f)) OR
          push_bit 6 (ucast (c3 AND 0x3f)) OR ucast (c4 AND 0x3f) \<Longrightarrow>
        \<not> u < 0x10000 \<and> \<not> u \<ge> 0x110000 \<and> acc' = addChar32_16 acc u" for u
      by (auto simp: encodeUtf_step_def encodeUtf_fail_def Let_def word_le_nat_alt word_less_nat_alt
          split: if_splits option.splits dest!: nextContinuation_SomeD)
    define u where "u = push_bit 18 (ucast (c AND 0x7)) OR push_bit 12 (ucast (c2 AND 0x3f)) OR
        push_bit 6 (ucast (c3 AND 0x3f)) OR (ucast (c4 AND 0x3f) :: char32)"
    note d = decoded_4 [OF four c234(1-3) u_def] u [OF u_def]
    then obtain hi lo where "isHighSurrogate hi" "isLowSurrogate lo" "surrogatePair hi lo = u"
      "acc' = acc @ [hi, lo]"
      using addChar32_16_splits [of u] by (auto simp: word_le_nat_alt word_less_nat_alt)
    then have ?pair using d c234(4) by auto
    then show ?thesis ..
  qed
qed

lemma encodeUtf_loop_ok:
  assumes "encodeUtf_loop addChar32_16 bs acc False = (out, False)"
  shows "\<exists>us. out = acc @ us \<and> wellFormedUtf16 us \<and> fst (decodeUtf16_loop us) = bs"
  using assms
proof (induction bs arbitrary: acc rule: length_induct)
  case (1 bs)
  show ?case
  proof (cases bs)
    case Nil
    with 1 show ?thesis by simp
  next
    case (Cons c rest)
    obtain rest' acc' err' where st: "encodeUtf_step addChar32_16 c rest acc False = (rest', acc', err')"
      by (metis prod_cases3)
    with 1(2) Cons have l: "encodeUtf_loop addChar32_16 rest' acc' err' = (out, False)"
      by (simp add: encodeUtf_loop.simps(2))
    then have e: "\<not> err'" using encodeUtf_loop_err [of addChar32_16 rest' acc'] by auto
    have "length rest' < length bs" using encodeUtf_step_length [OF st] Cons by simp
    moreover from l e have "encodeUtf_loop addChar32_16 rest' acc' False = (out, False)" by simp
    ultimately obtain us where
      us: "out = acc' @ us" "wellFormedUtf16 us" "fst (decodeUtf16_loop us) = rest'"
      using 1(1) by blast
    from st e have "encodeUtf_step addChar32_16 c rest acc False = (rest', acc', False)" by simp
    then show ?thesis
    proof (cases rule: encodeUtf_step_ok [THEN disjE, consumes 1, case_names plain pair])
      case plain
      then obtain u where u: "\<not> isHighSurrogate u" "\<not> isLowSurrogate u" "acc' = acc @ [u]"
        "c # rest = utf8_plain u @ rest'" by blast
      with us Cons show ?thesis
        by (intro exI [of _ "u # us"]) (simp add: decodeUtf16_loop_shapes wellFormedUtf16_shapes)
    next
      case pair
      then obtain hi lo where u: "isHighSurrogate hi" "isLowSurrogate lo" "acc' = acc @ [hi, lo]"
        "c # rest = utf8_4 (surrogatePair hi lo) @ rest'" by blast
      with us Cons show ?thesis
        by (intro exI [of _ "hi # lo # us"])
          (simp add: decodeUtf16_loop_shapes wellFormedUtf16_shapes)
    qed
  qed
qed

text \<open>
  C17. UTF-8 that is read without errors gives well-formed UTF-16, and decoding that UTF-16 gives the
  bytes back, again without errors: the reader accepts only the one shortest form of a code point.
\<close>

theorem utf8_roundtrip:
  assumes "\<not> hadErrors (encodeUtf16 bs False)"
  shows "wellFormedUtf16 (value_of (encodeUtf16 bs False)) \<and>
    decodeUtf16 (value_of (encodeUtf16 bs False)) = encResult bs False"
proof -
  obtain us where "encodeUtf_loop addChar32_16 bs [] False = (us, False)"
    using assms by (cases "encodeUtf_loop addChar32_16 bs [] False")
      (simp add: encodeUtf16_def encodeUtf_def)
  with encodeUtf_loop_ok [of bs "[]" us] decodeUtf16_flag [of us] show ?thesis
    by (simp add: encodeUtf16_def encodeUtf_def decodeUtf16_def case_prod_unfold)
qed

theorem utf8_roundtrip_witness:
  "\<not> hadErrors (encodeUtf16 [0x68, 0xc3, 0xa9, 0xf0, 0x9f, 0x98, 0x80] False) \<and>
   decodeUtf16 (value_of (encodeUtf16 [0x68, 0xc3, 0xa9, 0xf0, 0x9f, 0x98, 0x80] False)) =
     encResult [0x68, 0xc3, 0xa9, 0xf0, 0x9f, 0x98, 0x80] False"
proof -
  have h: "\<not> hadErrors (encodeUtf16 [0x68, 0xc3, 0xa9, 0xf0, 0x9f, 0x98, 0x80] False)"
    by (simp add: encodeUtf16_def encodeUtf_def encodeUtf_loop.simps(2) encodeUtf_step_def
        addChar32_16_def Let_def)
  with utf8_roundtrip [OF h] show ?thesis by simp
qed

section \<open>UTF-32\<close>

definition isScalarValue :: "char32 \<Rightarrow> bool" where
  "isScalarValue v \<longleftrightarrow> v < 0x110000 \<and> \<not> (0xd800 \<le> v \<and> v < 0xe000)"

definition utf8_of32 :: "char32 \<Rightarrow> byte list" where
  "utf8_of32 v = (if v < 0x80 then [ucast v] else if v < 0x800 then utf8_2 v
     else if v < 0x10000 then utf8_3 v else utf8_4 v)"

lemma utf8_narrow:
  fixes v :: char32
  assumes "unat v < 0x10000"
  shows "utf8_3 v = utf8_3 (ucast v :: char16)"
    and "unat v < 0x800 \<Longrightarrow> utf8_2 v = utf8_2 (ucast v :: char16)"
  using assms by (auto intro!: byte_list_eqI simp: utf8_2_spec utf8_3_spec bits_to_nat)

lemma decodeUtf32_loop_scalar:
  assumes "isScalarValue v"
  shows "decodeUtf32_loop (v # rest) =
    (utf8_of32 v @ fst (decodeUtf32_loop rest), snd (decodeUtf32_loop rest))"
proof -
  have "v AND 0xfffff800 \<noteq> 0xd800" if "unat v < 0x10000"
  proof -
    have m: "NOT (mask 11) = (0xfffff800 :: char32)" by (simp add: mask_eq_exp_minus_1)
    have "unat (v AND 0xfffff800) = unat v div 2048 * 2048"
      using unat_and_not_mask [of v 11] by (simp only: m) simp
    then show ?thesis
      using assms by (auto simp: isScalarValue_def word_unat_eq_iff word_le_nat_alt
          word_less_nat_alt nat_div_eq_iff)
  qed
  then show ?thesis
    using assms by (auto simp: utf8_of32_def isScalarValue_def word_le_nat_alt word_less_nat_alt
        split: prod.split)
qed

lemma encodeUtf_loop_scalar:
  assumes "isScalarValue v"
  shows "encodeUtf_loop addChar32_32 (utf8_of32 v @ rest) acc err =
    encodeUtf_loop addChar32_32 rest (acc @ [v]) err"
proof (cases "unat v < 0x10000")
  case True
  define u where "u = (ucast v :: char16)"
  have u: "unat u = unat v" using True by (simp add: u_def bits_to_nat)
  with True have v: "ucast u = v" by (simp add: word_unat_eq_iff bits_to_nat)
  have "unat u div 2048 \<noteq> 27"
    using assms by (auto simp: u isScalarValue_def nat_div_eq_iff word_le_nat_alt word_less_nat_alt)
  moreover have "utf8_of32 v = utf8_plain u"
  proof -
    have "utf8_of32 v = (if u < 0x80 then [ucast v] else if u < 0x800 then utf8_2 v else utf8_3 v)"
      using True by (simp add: utf8_of32_def word_less_nat_alt u)
    moreover have "(ucast v :: byte) = ucast u"
      by (simp add: word_unat_eq_iff bits_to_nat u)
    moreover have "u < 0x800 \<Longrightarrow> utf8_2 v = utf8_2 u" "utf8_3 v = utf8_3 u"
      using utf8_narrow [OF True] by (simp_all add: u_def [symmetric] word_less_nat_alt u)
    ultimately show ?thesis by (simp add: utf8_plain_def)
  qed
  ultimately show ?thesis
    by (auto simp: utf8_plain_def word_less_nat_alt encodeUtf_loop_1 encodeUtf_loop_2
        encodeUtf_loop_3 v)
next
  case False
  then have "utf8_of32 v = utf8_4 v" "unat v < 0x110000"
    using assms by (auto simp: utf8_of32_def isScalarValue_def word_less_nat_alt)
  with False show ?thesis by (simp add: encodeUtf_loop_4 addChar32_32_def)
qed

lemma decode_then_encode32:
  "\<forall>v \<in> set vs. isScalarValue v \<Longrightarrow>
   snd (decodeUtf32_loop vs) = False \<and>
   encodeUtf_loop addChar32_32 (fst (decodeUtf32_loop vs)) acc err = (acc @ vs, err)"
  by (induction vs arbitrary: acc)
     (simp_all add: decodeUtf32_loop_scalar encodeUtf_loop_scalar del: decodeUtf32_loop.simps(2))

text \<open>
  A list of Unicode scalar values survives the trip from UTF-32 to UTF-8 and back, with no
  error on either leg.
\<close>

theorem utf32_roundtrip:
  assumes "\<forall>v \<in> set vs. isScalarValue v"
  shows "hadErrors (decodeUtf32 vs) = False \<and>
    encodeUtf32 (value_of (decodeUtf32 vs)) False = encResult vs False"
  using decode_then_encode32 [OF assms, of "[]" False]
  by (simp add: encodeUtf32_def encodeUtf_def decodeUtf32_def case_prod_unfold)

theorem utf32_roundtrip_witness:
  "encodeUtf32 (value_of (decodeUtf32 [0x41, 0x20ac, 0x1f600])) False =
     encResult [0x41, 0x20ac, 0x1f600] False"
  using utf32_roundtrip [of "[0x41, 0x20ac, 0x1f600]"] by (simp add: isScalarValue_def)

text \<open>
  The documented guarantee of the trip through UTF-32 fails. The test for a preceding high
  surrogate masks the last output unit with \<open>0xfc00\<close>, and a 32-bit unit such as \<open>U+1D800\<close> passes
  it: the unpaired low surrogate that follows is then replaced by \<open>U+FFFD\<close>, so this UTF-16 text
  does not come back from UTF-8, UTF-32 and UTF-8.
\<close>

theorem utf32_surrogate_lost:
  "\<exists>us. encodeUtf32 (value_of (decodeUtf16 us)) False = encResult [0x1d800, 0xfffd] True \<and>
    value_of (encodeUtf16 (value_of (decodeUtf16 us)) False) = us \<and>
    value_of (encodeUtf16 (value_of (decodeUtf32 (value_of
      (encodeUtf32 (value_of (decodeUtf16 us)) False)))) False) \<noteq> us"
proof (intro exI conjI)
  let ?us = "[0xd836, 0xdc00, 0xdc00] :: char16 list"
  have d: "value_of (decodeUtf16 ?us) = [0xf0, 0x9d, 0xa0, 0x80, 0xed, 0xb0, 0x80]"
    by (simp add: decodeUtf16_def decodeUtf16_loop.simps utf8_4_def utf8_3_def)
  show e: "encodeUtf32 (value_of (decodeUtf16 ?us)) False = encResult [0x1d800, 0xfffd] True"
    by (simp add: d encodeUtf32_def encodeUtf_def encodeUtf_loop.simps(2) encodeUtf_step_def
        encodeUtf_fail_def addChar32_32_def Let_def)
  show "value_of (encodeUtf16 (value_of (decodeUtf16 ?us)) False) = ?us"
    by (simp add: d encodeUtf16_def encodeUtf_def encodeUtf_loop.simps(2) encodeUtf_step_def
        encodeUtf_fail_def addChar32_16_def Let_def)
  show "value_of (encodeUtf16 (value_of (decodeUtf32 (value_of
      (encodeUtf32 (value_of (decodeUtf16 ?us)) False)))) False) \<noteq> ?us"
    by (simp add: e decodeUtf32_def utf8_4_def utf8_3_def encodeUtf16_def encodeUtf_def
        encodeUtf_loop.simps(2) encodeUtf_step_def encodeUtf_fail_def addChar32_16_def Let_def)
qed

end
