(* ===== verification/Text_Encoding.thy ===== *)
theory Text_Encoding
  imports Utf_Transcoding
begin

text \<open>
  Hexadecimal, percent and C-escape encodings: the middle part of \<open>zc/core/encoding.cc\<close>.

  The five percent encoders differ in the set of bytes they keep (and in what the form encoder
  does with a space); the interface \<open>percent_encoder\<close> states what a set must satisfy for
  \<open>decodeBinaryUriComponent\<close> to invert the encoder, and each encoder interprets it.
  Byte comparisons against character literals are comparisons with \<open>byteOfChar\<close>.
\<close>

section \<open>Digits\<close>

definition HEX_DIGITS :: string where
  "HEX_DIGITS = ''0123456789abcdef''"

definition HEX_DIGITS_URI :: string where
  "HEX_DIGITS_URI = ''0123456789ABCDEF''"

definition tryFromHexDigit :: "char \<Rightarrow> uint32 option" where
  "tryFromHexDigit c =
     (if CHR ''0'' \<le> c \<and> c \<le> CHR ''9'' then Some (of_char c - of_char CHR ''0'')
      else if CHR ''a'' \<le> c \<and> c \<le> CHR ''f'' then Some (of_char c - (of_char CHR ''a'' - 10))
      else if CHR ''A'' \<le> c \<and> c \<le> CHR ''F'' then Some (of_char c - (of_char CHR ''A'' - 10))
      else None)"

definition tryFromOctDigit :: "char \<Rightarrow> uint32 option" where
  "tryFromOctDigit c =
     (if CHR ''0'' \<le> c \<and> c \<le> CHR ''7'' then Some (of_char c - of_char CHR ''0'') else None)"

section \<open>Hexadecimal\<close>

definition encodeHex :: "byte list \<Rightarrow> string" where
  "encodeHex input =
     concat (map (\<lambda>b. [HEX_DIGITS ! (unat b div 16), HEX_DIGITS ! (unat b mod 16)]) input)"

text \<open>The loop over the output reads the text in pairs; an odd last digit is only flagged.\<close>

fun decodeHex_loop :: "string \<Rightarrow> byte list \<times> bool" where
  "decodeHex_loop (c1 # c2 # rest) =
     (let b1 = (case tryFromHexDigit c1 of Some d1 \<Rightarrow> ucast (push_bit 4 d1) | None \<Rightarrow> 0);
          b = (case tryFromHexDigit c2 of Some d2 \<Rightarrow> b1 OR ucast d2 | None \<Rightarrow> b1);
          (bs, e) = decodeHex_loop rest
      in (b # bs, tryFromHexDigit c1 = None \<or> tryFromHexDigit c2 = None \<or> e))"
| "decodeHex_loop _ = ([], False)"

definition decodeHex :: "string \<Rightarrow> byte list encoding_result" where
  "decodeHex text' =
     (let (bs, e) = decodeHex_loop text' in encResult bs (length text' mod 2 \<noteq> 0 \<or> e))"

section \<open>Percent encoding\<close>

definition percentEscape :: "byte \<Rightarrow> string" where
  "percentEscape b =
     [CHR ''%'', HEX_DIGITS_URI ! (unat b div 16), HEX_DIGITS_URI ! (unat b mod 16)]"

definition between :: "char \<Rightarrow> byte \<Rightarrow> char \<Rightarrow> bool" where
  "between lo b hi \<longleftrightarrow> byteOfChar lo \<le> b \<and> b \<le> byteOfChar hi"

definition keepUriComponent :: "byte \<Rightarrow> bool" where
  "keepUriComponent b \<longleftrightarrow>
     between CHR ''A'' b CHR ''Z'' \<or> between CHR ''a'' b CHR ''z'' \<or> between CHR ''0'' b CHR ''9'' \<or>
     b = byteOfChar CHR ''-'' \<or> b = byteOfChar CHR ''_'' \<or> b = byteOfChar CHR ''.'' \<or>
     b = byteOfChar CHR ''!'' \<or> b = byteOfChar CHR ''~'' \<or> b = byteOfChar CHR ''*'' \<or>
     b = byteOfChar CHR 0x27 \<or> b = byteOfChar CHR ''('' \<or> b = byteOfChar CHR '')''"

definition keepUriFragment :: "byte \<Rightarrow> bool" where
  "keepUriFragment b \<longleftrightarrow>
     between CHR ''?'' b CHR ''_'' \<or> between CHR ''a'' b CHR ''~'' \<or> between CHR ''&'' b CHR '';'' \<or>
     b = byteOfChar CHR ''!'' \<or> b = byteOfChar CHR ''='' \<or> b = byteOfChar CHR ''#'' \<or>
     b = byteOfChar CHR ''$''"

definition keepUriPath :: "byte \<Rightarrow> bool" where
  "keepUriPath b \<longleftrightarrow>
     between CHR ''@'' b CHR ''['' \<or> between CHR ''a'' b CHR ''z'' \<or> between CHR ''0'' b CHR '';'' \<or>
     between CHR ''&'' b CHR ''.'' \<or> b = byteOfChar CHR ''_'' \<or> b = byteOfChar CHR ''!'' \<or>
     b = byteOfChar CHR ''='' \<or> b = byteOfChar CHR '']'' \<or> b = byteOfChar CHR ''^'' \<or>
     b = byteOfChar CHR ''|'' \<or> b = byteOfChar CHR ''~'' \<or> b = byteOfChar CHR ''$''"

definition keepUriUserInfo :: "byte \<Rightarrow> bool" where
  "keepUriUserInfo b \<longleftrightarrow>
     between CHR ''A'' b CHR ''Z'' \<or> between CHR ''a'' b CHR ''z'' \<or> between CHR ''0'' b CHR ''9'' \<or>
     between CHR ''&'' b CHR ''.'' \<or> b = byteOfChar CHR ''_'' \<or> b = byteOfChar CHR ''!'' \<or>
     b = byteOfChar CHR ''~'' \<or> b = byteOfChar CHR ''$''"

definition keepWwwForm :: "byte \<Rightarrow> bool" where
  "keepWwwForm b \<longleftrightarrow>
     between CHR ''A'' b CHR ''Z'' \<or> between CHR ''a'' b CHR ''z'' \<or> between CHR ''0'' b CHR ''9'' \<or>
     b = byteOfChar CHR ''-'' \<or> b = byteOfChar CHR ''_'' \<or> b = byteOfChar CHR ''.'' \<or>
     b = byteOfChar CHR ''*''"

fun encodeUriComponent :: "byte list \<Rightarrow> string" where
  "encodeUriComponent [] = []"
| "encodeUriComponent (b # bs) =
     (if keepUriComponent b then [charOfByte b] else percentEscape b) @ encodeUriComponent bs"

fun encodeUriFragment :: "byte list \<Rightarrow> string" where
  "encodeUriFragment [] = []"
| "encodeUriFragment (b # bs) =
     (if keepUriFragment b then [charOfByte b] else percentEscape b) @ encodeUriFragment bs"

fun encodeUriPath :: "byte list \<Rightarrow> string" where
  "encodeUriPath [] = []"
| "encodeUriPath (b # bs) =
     (if keepUriPath b then [charOfByte b] else percentEscape b) @ encodeUriPath bs"

fun encodeUriUserInfo :: "byte list \<Rightarrow> string" where
  "encodeUriUserInfo [] = []"
| "encodeUriUserInfo (b # bs) =
     (if keepUriUserInfo b then [charOfByte b] else percentEscape b) @ encodeUriUserInfo bs"

fun encodeWwwForm :: "byte list \<Rightarrow> string" where
  "encodeWwwForm [] = []"
| "encodeWwwForm (b # bs) =
     (if keepWwwForm b then [charOfByte b]
      else if b = byteOfChar CHR '' '' then ''+''
      else percentEscape b) @ encodeWwwForm bs"

record decode_uri_options =
  nulTerminate :: bool
  plusToSpace :: bool

text \<open>
  A failed digit is not consumed: it is read again as an ordinary character. A first digit
  without a second one still emits its half byte.
\<close>

fun decodeUri_loop :: "bool \<Rightarrow> string \<Rightarrow> byte list \<times> bool" where
  "decodeUri_loop pts [] = ([], False)"
| "decodeUri_loop pts (c # cs) =
     (if c = CHR ''%'' then
        (case cs of
           [] \<Rightarrow> ([], True)
         | c1 # cs1 \<Rightarrow>
             (case tryFromHexDigit c1 of
                None \<Rightarrow> (let (bs, e) = decodeUri_loop pts (c1 # cs1) in (bs, True))
              | Some d1 \<Rightarrow>
                  (case cs1 of
                     [] \<Rightarrow> ([ucast d1], True)
                   | c2 # cs2 \<Rightarrow>
                       (case tryFromHexDigit c2 of
                          Some d2 \<Rightarrow>
                            (let (bs, e) = decodeUri_loop pts cs2
                             in ((push_bit 4 (ucast d1) OR ucast d2) # bs, e))
                        | None \<Rightarrow>
                            (let (bs, e) = decodeUri_loop pts (c2 # cs2)
                             in (ucast d1 # bs, True))))))
      else if pts \<and> c = CHR ''+'' then
        (let (bs, e) = decodeUri_loop pts cs in (byteOfChar CHR '' '' # bs, e))
      else (let (bs, e) = decodeUri_loop pts cs in (byteOfChar c # bs, e)))"

definition decodeBinaryUriComponent ::
  "string \<Rightarrow> decode_uri_options \<Rightarrow> byte list encoding_result" where
  "decodeBinaryUriComponent text' options =
     (let (bs, e) = decodeUri_loop (plusToSpace options) text'
      in encResult (if nulTerminate options then bs @ [0] else bs) e)"

text \<open>The string overloads: the NUL they ask for is the terminator \<open>String\<close> hides.\<close>

definition decodeUriComponent :: "string \<Rightarrow> string encoding_result" where
  "decodeUriComponent text' =
     (let r = decodeBinaryUriComponent text' \<lparr>nulTerminate = True, plusToSpace = False\<rparr>
      in encResult (asChars (butlast (value_of r))) (hadErrors r))"

definition decodeWwwForm :: "string \<Rightarrow> string encoding_result" where
  "decodeWwwForm text' =
     (let r = decodeBinaryUriComponent text' \<lparr>nulTerminate = True, plusToSpace = True\<rparr>
      in encResult (asChars (butlast (value_of r))) (hadErrors r))"

section \<open>Facts about digits\<close>

lemma hex_digit_roundtrip:
  assumes "n < 16"
  shows "tryFromHexDigit (HEX_DIGITS ! n) = Some (word_of_nat n)"
    and "tryFromHexDigit (HEX_DIGITS_URI ! n) = Some (word_of_nat n)"
proof -
  have "map tryFromHexDigit HEX_DIGITS = map (\<lambda>n. Some (word_of_nat n)) [0..<16]"
    "map tryFromHexDigit HEX_DIGITS_URI = map (\<lambda>n. Some (word_of_nat n)) [0..<16]"
    by (simp_all add: HEX_DIGITS_def HEX_DIGITS_URI_def tryFromHexDigit_def less_eq_char_def
        upt_rec)
  then have "map tryFromHexDigit HEX_DIGITS ! n = Some (word_of_nat n)"
    "map tryFromHexDigit HEX_DIGITS_URI ! n = Some (word_of_nat n)"
    using assms by simp_all
  moreover have "length HEX_DIGITS = 16" "length HEX_DIGITS_URI = 16"
    by (simp_all add: HEX_DIGITS_def HEX_DIGITS_URI_def)
  ultimately show "tryFromHexDigit (HEX_DIGITS ! n) = Some (word_of_nat n)"
    and "tryFromHexDigit (HEX_DIGITS_URI ! n) = Some (word_of_nat n)"
    using assms by simp_all
qed

lemma nibbles:
  "(push_bit 4 (ucast (word_of_nat (unat b div 16) :: uint32)) OR
     ucast (word_of_nat (unat b mod 16) :: uint32) :: byte) = b"
proof -
  have 1: "unat b div 16 < 16" using unat_byte [of b] by linarith
  have "unat (ucast (word_of_nat (unat b div 16) :: uint32) :: byte) = unat b div 16"
    "unat (ucast (word_of_nat (unat b mod 16) :: uint32) :: byte) = unat b mod 16"
    using 1 by (simp_all add: bits_to_nat unat_of_nat)
  then show ?thesis
    by (subst word_unat_eq_iff, subst unat_or_add [of 4])
      (use 1 in \<open>simp_all add: bits_to_nat\<close>)
qed

lemma nibbles_hex:
  "(ucast (push_bit 4 (word_of_nat (unat b div 16) :: uint32)) OR
     ucast (word_of_nat (unat b mod 16) :: uint32) :: byte) = b"
proof -
  have 1: "unat b div 16 < 16" using unat_byte [of b] by linarith
  have "unat (ucast (push_bit 4 (word_of_nat (unat b div 16) :: uint32)) :: byte) = unat b div 16 * 16"
    "unat (ucast (word_of_nat (unat b mod 16) :: uint32) :: byte) = unat b mod 16"
    using 1 by (simp_all add: bits_to_nat unat_of_nat)
  then show ?thesis
    by (subst word_unat_eq_iff, subst unat_or_add [of 4])
      (use 1 in \<open>simp_all add: bits_to_nat\<close>)
qed

lemma decodeHex_loop_encodeHex: "decodeHex_loop (encodeHex bs) = (bs, False)"
proof (induction bs)
  case (Cons b bs)
  have "unat b div 16 < 16" "unat b mod 16 < 16" using unat_byte [of b] by linarith+
  with Cons show ?case
    by (simp add: encodeHex_def hex_digit_roundtrip nibbles_hex)
qed (simp add: encodeHex_def)

text \<open>
  Hexadecimal text round-trips: every byte string comes back from its encoding, without errors.
\<close>

theorem hex_roundtrip: "decodeHex (encodeHex bs) = encResult bs False"
proof -
  have "length (encodeHex bs) = 2 * length bs"
    by (induction bs) (simp_all add: encodeHex_def)
  then show ?thesis by (simp add: decodeHex_def decodeHex_loop_encodeHex)
qed

lemma percentEscape_decode:
  "decodeUri_loop pts (percentEscape b @ rest) =
    (b # fst (decodeUri_loop pts rest), snd (decodeUri_loop pts rest))"
proof -
  have "unat b div 16 < 16" "unat b mod 16 < 16" using unat_byte [of b] by linarith+
  then show ?thesis
    by (simp add: percentEscape_def hex_digit_roundtrip nibbles split: prod.split)
qed

text \<open>
  What a percent encoder promises: it keeps the bytes of a set that has neither the percent sign
  nor, when the decoder reads plus signs as spaces, the plus sign.
\<close>

locale percent_encoder =
  fixes encode :: "byte list \<Rightarrow> string" and keep :: "byte \<Rightarrow> bool" and pts :: bool
  assumes encode_Nil: "encode [] = []"
    and encode_Cons: "encode (b # bs) =
      (if keep b then [charOfByte b]
       else if pts \<and> b = byteOfChar CHR '' '' then ''+''
       else percentEscape b) @ encode bs"
    and keep_percent: "\<not> keep (byteOfChar CHR ''%'')"
    and keep_plus: "pts \<Longrightarrow> \<not> keep (byteOfChar CHR ''+'')"
begin

lemma decode_encode: "decodeUri_loop pts (encode bs) = (bs, False)"
proof (induction bs)
  case Nil
  show ?case by (simp add: encode_Nil)
next
  case (Cons b bs)
  have "keep b \<Longrightarrow> b \<noteq> byteOfChar CHR ''%''" "pts \<Longrightarrow> keep b \<Longrightarrow> b \<noteq> byteOfChar CHR ''+''"
    using keep_percent keep_plus by auto
  with Cons show ?case
    by (auto simp: encode_Cons percentEscape_decode charOfByte_eq_iff)
qed

lemma decodeBinary_encode:
  "decodeBinaryUriComponent (encode bs) \<lparr>nulTerminate = n, plusToSpace = pts\<rparr> =
     encResult (if n then bs @ [0] else bs) False"
  by (simp add: decodeBinaryUriComponent_def decode_encode)

end

lemmas keep_defs = keepUriComponent_def keepUriFragment_def keepUriPath_def keepUriUserInfo_def
  keepWwwForm_def between_def byteOfChar_def

interpretation uriComponent: percent_encoder encodeUriComponent keepUriComponent False
  by unfold_locales (simp_all add: keep_defs)

interpretation uriFragment: percent_encoder encodeUriFragment keepUriFragment False
  by unfold_locales (simp_all add: keep_defs)

interpretation uriPath: percent_encoder encodeUriPath keepUriPath False
  by unfold_locales (simp_all add: keep_defs)

interpretation uriUserInfo: percent_encoder encodeUriUserInfo keepUriUserInfo False
  by unfold_locales (simp_all add: keep_defs)

interpretation wwwForm: percent_encoder encodeWwwForm keepWwwForm True
  by unfold_locales (simp_all add: keep_defs)

definition escapeChars :: "char set" where
  "escapeChars = set ''%0123456789ABCDEF+''"

lemma percentEscape_chars: "set (percentEscape b) \<subseteq> escapeChars"
proof -
  have "set HEX_DIGITS_URI \<subseteq> escapeChars" by (simp add: HEX_DIGITS_URI_def escapeChars_def)
  moreover have "length HEX_DIGITS_URI = 16" by (simp add: HEX_DIGITS_URI_def)
  moreover have "unat b div 16 < 16" "unat b mod 16 < 16" using unat_byte [of b] by linarith+
  ultimately have "HEX_DIGITS_URI ! (unat b div 16) \<in> escapeChars"
    "HEX_DIGITS_URI ! (unat b mod 16) \<in> escapeChars"
    by (metis nth_mem subsetD)+
  moreover have "CHR ''%'' \<in> escapeChars" by (simp add: escapeChars_def)
  ultimately show ?thesis by (simp add: percentEscape_def)
qed

context percent_encoder
begin

lemma encode_chars: "c \<in> set (encode bs) \<Longrightarrow> keep (byteOfChar c) \<or> c \<in> escapeChars"
proof (induction bs)
  case (Cons b bs)
  moreover have "CHR ''+'' \<in> escapeChars" by (simp add: escapeChars_def)
  ultimately show ?case
    using percentEscape_chars [of b] by (auto simp: encode_Cons split: if_splits)
qed (simp add: encode_Nil)

lemma encode_avoids:
  assumes "\<forall>c \<in> C. \<not> keep (byteOfChar c)" and "C \<inter> escapeChars = {}"
  shows "set (encode bs) \<inter> C = {}"
  using encode_chars assms by blast

lemma decodeUri_encode:
  "\<not> pts \<Longrightarrow> decodeUriComponent (encode (asBytes s)) = encResult s False"
  "pts \<Longrightarrow> decodeWwwForm (encode (asBytes s)) = encResult s False"
  using decodeBinary_encode [of "asBytes s" True]
  by (simp_all add: decodeUriComponent_def decodeWwwForm_def comp_def)

end

text \<open>
  C21. Each of the five percent encoders is inverted by the matching decoder, without errors: the
  component, fragment, path and user-info encoders by \<open>decodeUriComponent\<close>, the form encoder by
  \<open>decodeWwwForm\<close>.
\<close>

theorem uri_roundtrip:
  "decodeUriComponent (encodeUriComponent (asBytes s)) = encResult s False \<and>
   decodeUriComponent (encodeUriFragment (asBytes s)) = encResult s False \<and>
   decodeUriComponent (encodeUriPath (asBytes s)) = encResult s False \<and>
   decodeUriComponent (encodeUriUserInfo (asBytes s)) = encResult s False \<and>
   decodeWwwForm (encodeWwwForm (asBytes s)) = encResult s False"
  by (simp add: uriComponent.decodeUri_encode uriFragment.decodeUri_encode uriPath.decodeUri_encode
      uriUserInfo.decodeUri_encode wwwForm.decodeUri_encode)

text \<open>
  Encoded text cannot break out of its place in a URL: a path component has no slash, question
  mark or hash, user information no colon, at sign, slash, question mark or hash, and a form value
  no ampersand, equals sign or hash, whatever the bytes.
\<close>

theorem uri_delimiters_escaped:
  "set (encodeUriPath bs) \<inter> set ''/?#'' = {} \<and>
   set (encodeUriUserInfo bs) \<inter> set '':@/?#'' = {} \<and>
   set (encodeWwwForm bs) \<inter> set ''&=#'' = {}"
  by (intro conjI uriPath.encode_avoids uriUserInfo.encode_avoids wwwForm.encode_avoids)
     (simp_all add: keep_defs escapeChars_def)

section \<open>C escapes\<close>

definition escapeByte :: "bool \<Rightarrow> byte \<Rightarrow> string" where
  "escapeByte isBinary b =
     (if b = 0x07 then [CHR 0x5c, CHR ''a'']
      else if b = 0x08 then [CHR 0x5c, CHR ''b'']
      else if b = 0x0c then [CHR 0x5c, CHR ''f'']
      else if b = 0x0a then [CHR 0x5c, CHR ''n'']
      else if b = 0x0d then [CHR 0x5c, CHR ''r'']
      else if b = 0x09 then [CHR 0x5c, CHR ''t'']
      else if b = 0x0b then [CHR 0x5c, CHR ''v'']
      else if b = byteOfChar CHR 0x27 then [CHR 0x5c, CHR 0x27]
      else if b = byteOfChar CHR 0x22 then [CHR 0x5c, CHR 0x22]
      else if b = byteOfChar CHR 0x5c then [CHR 0x5c, CHR 0x5c]
      else if b < 0x20 \<or> b = 0x7f \<or> (isBinary \<and> b > 0x7f) then
        [CHR 0x5c, HEX_DIGITS ! (unat b div 64), HEX_DIGITS ! (unat b div 8 mod 8),
         HEX_DIGITS ! (unat b mod 8)]
      else [charOfByte b])"

definition encodeCEscapeImpl :: "byte list \<Rightarrow> bool \<Rightarrow> string" where
  "encodeCEscapeImpl bytes isBinary = concat (map (escapeByte isBinary) bytes)"

text \<open>
  The digit loops of the decoder: up to two more octal digits, any number of hexadecimal digits,
  and exactly four or eight of them. They return the value, the rest of the text and, for the
  last, whether a digit was missing. The value keeps its width, so long digit strings wrap.
\<close>

fun takeOctDigits :: "nat \<Rightarrow> uint32 \<Rightarrow> string \<Rightarrow> uint32 \<times> string" where
  "takeOctDigits (Suc j) value (c # cs) =
     (case tryFromOctDigit c of
        Some d \<Rightarrow> takeOctDigits j (push_bit 3 value OR d) cs
      | None \<Rightarrow> (value, c # cs))"
| "takeOctDigits _ value cs = (value, cs)"

fun takeHexDigits :: "uint32 \<Rightarrow> string \<Rightarrow> uint32 \<times> string" where
  "takeHexDigits value [] = (value, [])"
| "takeHexDigits value (c # cs) =
     (case tryFromHexDigit c of
        Some d \<Rightarrow> takeHexDigits (push_bit 4 value OR d) cs
      | None \<Rightarrow> (value, c # cs))"

fun takeHexExactly :: "nat \<Rightarrow> 'w::len word \<Rightarrow> string \<Rightarrow> 'w word \<times> string \<times> bool" where
  "takeHexExactly 0 value cs = (value, cs, False)"
| "takeHexExactly (Suc j) value [] = (value, [], True)"
| "takeHexExactly (Suc j) value (c # cs) =
     (case tryFromHexDigit c of
        Some d \<Rightarrow> takeHexExactly j (push_bit 4 value OR ucast d) cs
      | None \<Rightarrow> (value, c # cs, True))"

text \<open>One escape after its backslash: the bytes it stands for, the rest, and an error.\<close>

definition decodeEscape :: "char \<Rightarrow> string \<Rightarrow> byte list \<times> string \<times> bool" where
  "decodeEscape c2 rest =
     (if c2 = CHR ''a'' then ([0x07], rest, False)
      else if c2 = CHR ''b'' then ([0x08], rest, False)
      else if c2 = CHR ''f'' then ([0x0c], rest, False)
      else if c2 = CHR ''n'' then ([0x0a], rest, False)
      else if c2 = CHR ''r'' then ([0x0d], rest, False)
      else if c2 = CHR ''t'' then ([0x09], rest, False)
      else if c2 = CHR ''v'' then ([0x0b], rest, False)
      else if c2 \<in> {CHR 0x27, CHR 0x22, CHR 0x5c} then ([byteOfChar c2], rest, False)
      else if CHR ''0'' \<le> c2 \<and> c2 \<le> CHR ''7'' then
        (case takeOctDigits 2 (of_char c2 - of_char CHR ''0'') rest of
           (value, rest') \<Rightarrow> ([ucast value], rest', value \<ge> 0x100))
      else if c2 = CHR ''x'' then
        (case takeHexDigits 0 rest of
           (value, rest') \<Rightarrow> ([ucast value], rest', value \<ge> 0x100))
      else if c2 = CHR ''u'' then
        (case takeHexExactly 4 (0 :: char16) rest of
           (value, rest', missing) \<Rightarrow>
             (let utf = decodeUtf16 [value] in (value_of utf, rest', missing \<or> hadErrors utf)))
      else if c2 = CHR ''U'' then
        (case takeHexExactly 8 (0 :: char32) rest of
           (value, rest', missing) \<Rightarrow>
             (let utf = decodeUtf32 [value] in (value_of utf, rest', missing \<or> hadErrors utf)))
      else ([byteOfChar c2], rest, False))"

lemma takeOctDigits_length: "length (snd (takeOctDigits j v cs)) \<le> length cs"
  by (induction j v cs rule: takeOctDigits.induct) (auto split: option.split)

lemma takeHexDigits_length: "length (snd (takeHexDigits v cs)) \<le> length cs"
  by (induction v cs rule: takeHexDigits.induct) (auto split: option.split)

lemma takeHexExactly_length: "length (fst (snd (takeHexExactly j v cs))) \<le> length cs"
  by (induction j v cs rule: takeHexExactly.induct) (auto split: option.split)

lemma decodeEscape_length:
  "decodeEscape c2 rest = (bs, rest', e) \<Longrightarrow> length rest' \<le> length rest"
  using takeOctDigits_length [of 2 "of_char c2 - of_char CHR ''0''" rest]
    takeHexDigits_length [of 0 rest] takeHexExactly_length [of 4 "0 :: char16" rest]
    takeHexExactly_length [of 8 "0 :: char32" rest]
  by (auto simp: decodeEscape_def Let_def split: if_splits prod.splits)

function decodeCEscape_loop :: "string \<Rightarrow> byte list \<times> bool" where
  "decodeCEscape_loop [] = ([], False)"
| "decodeCEscape_loop (c # cs) =
     (if c = CHR 0x5c then
        (case cs of
           [] \<Rightarrow> ([], True)
         | c2 # rest \<Rightarrow>
             (case decodeEscape c2 rest of
                (bs, rest', e) \<Rightarrow>
                  (case decodeCEscape_loop rest' of (bs', e') \<Rightarrow> (bs @ bs', e \<or> e'))))
      else (case decodeCEscape_loop cs of (bs', e') \<Rightarrow> (byteOfChar c # bs', e')))"
  by pat_completeness auto
termination
  by (relation "measure length")
    (auto simp: less_Suc_eq_le dest!: decodeEscape_length [OF sym] intro: le_SucI)

definition decodeBinaryCEscape :: "string \<Rightarrow> bool \<Rightarrow> byte list encoding_result" where
  "decodeBinaryCEscape text' nul =
     (case decodeCEscape_loop text' of (bs, e) \<Rightarrow> encResult (if nul then bs @ [0] else bs) e)"

definition encodeCEscape :: "string \<Rightarrow> string" where
  "encodeCEscape text' = encodeCEscapeImpl (asBytes text') False"

definition encodeCEscapeBytes :: "byte list \<Rightarrow> string" where
  "encodeCEscapeBytes bytes = encodeCEscapeImpl bytes True"

definition decodeCEscape :: "string \<Rightarrow> string encoding_result" where
  "decodeCEscape text' =
     (let r = decodeBinaryCEscape text' True
      in encResult (asChars (butlast (value_of r))) (hadErrors r))"

lemma oct_digit_roundtrip:
  assumes "n < 8"
  shows "tryFromOctDigit (HEX_DIGITS ! n) = Some (word_of_nat n)"
    and "HEX_DIGITS ! n \<in> set ''01234567''"
proof -
  have "take 8 HEX_DIGITS = ''01234567''" by (simp add: HEX_DIGITS_def)
  with assms have h: "HEX_DIGITS ! n = ''01234567'' ! n"
    using nth_take [of n 8 HEX_DIGITS] by simp
  have "map tryFromOctDigit ''01234567'' = map (\<lambda>n. Some (word_of_nat n)) [0..<8]"
    by (simp add: tryFromOctDigit_def less_eq_char_def upt_rec)
  then have "map tryFromOctDigit ''01234567'' ! n = map (\<lambda>n. Some (word_of_nat n)) [0..<8] ! n"
    by (rule arg_cong)
  then show "tryFromOctDigit (HEX_DIGITS ! n) = Some (word_of_nat n)"
    using assms by (subst (asm) (1 2) nth_map) (simp_all add: h)
  show "HEX_DIGITS ! n \<in> set ''01234567''"
    unfolding h using assms by (intro nth_mem) simp
qed

lemma octal_value:
  fixes b :: byte
  assumes v: "v = push_bit 3 w OR word_of_nat (unat b mod 8)"
    and w: "w = push_bit 3 (word_of_nat (unat b div 64)) OR (word_of_nat (unat b div 8 mod 8) :: uint32)"
  shows "ucast v = b" and "\<not> 0x100 \<le> v"
proof -
  have b: "unat b div 64 < 4" "unat b div 8 < 32" using unat_byte [of b] by linarith+
  have u: "unat (word_of_nat (unat b div 64) :: uint32) = unat b div 64"
    "unat (word_of_nat (unat b div 8 mod 8) :: uint32) = unat b div 8 mod 8"
    "unat (word_of_nat (unat b mod 8) :: uint32) = unat b mod 8"
    using b by (simp_all add: unat_of_nat)
  have d: "unat b div 64 * 8 + unat b div 8 mod 8 = unat b div 8"
    using div_mult_mod_eq [of "unat b div 8" 8] div_mult2_eq [of "unat b" 8 8] by simp
  have 1: "unat w = unat b div 8"
    unfolding w by (subst unat_or_add [of 3]) (use b in \<open>simp_all add: bits_to_nat u d\<close>)
  have 2: "unat v = unat b"
    unfolding v by (subst unat_or_add [of 3]) (use b in \<open>simp_all add: bits_to_nat u 1\<close>)
  then show "ucast v = b" by (simp add: word_unat_eq_iff bits_to_nat)
  from 2 show "\<not> 0x100 \<le> v" by (simp add: word_le_nat_alt not_le)
qed

lemma takeOctDigits_2:
  assumes "tryFromOctDigit c1 = Some d1" and "tryFromOctDigit c2 = Some d2"
  shows "takeOctDigits 2 v (c1 # c2 # rest) = (push_bit 3 (push_bit 3 v OR d1) OR d2, rest)"
  by (simp only: numeral_2_eq_2 takeOctDigits.simps assms option.case)

lemma octal_escape_decodes:
  "decodeEscape (HEX_DIGITS ! (unat b div 64))
     (HEX_DIGITS ! (unat b div 8 mod 8) # HEX_DIGITS ! (unat b mod 8) # rest) = ([b], rest, False)"
proof -
  have k: "unat b div 64 < 8" using unat_byte [of b] by linarith
  define c where "c = HEX_DIGITS ! (unat b div 64)"
  have t: "tryFromOctDigit c = Some (word_of_nat (unat b div 64))"
    unfolding c_def by (rule oct_digit_roundtrip(1) [OF k])
  then have r: "CHR ''0'' \<le> c \<and> c \<le> CHR ''7''"
    and v: "of_char c - of_char CHR ''0'' = (word_of_nat (unat b div 64) :: uint32)"
    by (auto simp: tryFromOctDigit_def split: if_splits)
  have e: "decodeEscape c xs = (case takeOctDigits 2 (of_char c - of_char CHR ''0'') xs of
           (value, rest') \<Rightarrow> ([ucast value], rest', value \<ge> 0x100))" for xs
    using oct_digit_roundtrip(2) [OF k] r by (auto simp: decodeEscape_def c_def)
  have d: "tryFromOctDigit (HEX_DIGITS ! (unat b div 8 mod 8)) = Some (word_of_nat (unat b div 8 mod 8))"
    "tryFromOctDigit (HEX_DIGITS ! (unat b mod 8)) = Some (word_of_nat (unat b mod 8))"
    by (simp_all add: oct_digit_roundtrip(1))
  show ?thesis
    unfolding c_def [symmetric] e v takeOctDigits_2 [OF d] prod.case
      octal_value(1) [OF refl refl] using octal_value(2) [OF refl refl, of b] by blast
qed

lemma decodeEscape_named:
  "decodeEscape CHR ''a'' rest = ([0x07], rest, False)"
  "decodeEscape CHR ''b'' rest = ([0x08], rest, False)"
  "decodeEscape CHR ''f'' rest = ([0x0c], rest, False)"
  "decodeEscape CHR ''n'' rest = ([0x0a], rest, False)"
  "decodeEscape CHR ''r'' rest = ([0x0d], rest, False)"
  "decodeEscape CHR ''t'' rest = ([0x09], rest, False)"
  "decodeEscape CHR ''v'' rest = ([0x0b], rest, False)"
  "c2 \<in> {CHR 0x27, CHR 0x22, CHR 0x5c} \<Longrightarrow> decodeEscape c2 rest = ([byteOfChar c2], rest, False)"
  by (auto simp: decodeEscape_def)

lemma byteOfChar_quotes:
  "byteOfChar CHR 0x27 = 0x27" "byteOfChar CHR 0x22 = 0x22" "byteOfChar CHR 0x5c = 0x5c"
  by (simp_all add: byteOfChar_def)

lemma escapeByte_quote:
  assumes "c \<in> {CHR 0x27, CHR 0x22, CHR 0x5c}"
  shows "escapeByte isBinary (byteOfChar c) = [CHR 0x5c, c]"
  using assms by (elim insertE emptyE) (simp_all add: escapeByte_def byteOfChar_quotes)

lemma escapeByte_cases:
  obtains c2 cs where "escapeByte isBinary b = CHR 0x5c # c2 # cs"
      and "\<And>rest. decodeEscape c2 (cs @ rest) = ([b], rest, False)"
  | "escapeByte isBinary b = [charOfByte b]" "b \<noteq> byteOfChar CHR 0x5c"
proof -
  consider (named) "b \<in> {0x07, 0x08, 0x0c, 0x0a, 0x0d, 0x09, 0x0b}"
    | (quote) "b \<in> {byteOfChar CHR 0x27, byteOfChar CHR 0x22, byteOfChar CHR 0x5c}"
    | (octal) "escapeByte isBinary b = [CHR 0x5c, HEX_DIGITS ! (unat b div 64),
         HEX_DIGITS ! (unat b div 8 mod 8), HEX_DIGITS ! (unat b mod 8)]"
    | (plain) "escapeByte isBinary b = [charOfByte b]" "b \<noteq> byteOfChar CHR 0x5c"
  proof (cases "b \<in> {0x07, 0x08, 0x0c, 0x0a, 0x0d, 0x09, 0x0b} \<union>
      {byteOfChar CHR 0x27, byteOfChar CHR 0x22, byteOfChar CHR 0x5c}")
    case True
    then show ?thesis by (rule UnE) (erule that(1), erule that(2))
  next
    case False
    then have e: "escapeByte isBinary b =
        (if b < 0x20 \<or> b = 0x7f \<or> (isBinary \<and> b > 0x7f) then
           [CHR 0x5c, HEX_DIGITS ! (unat b div 64), HEX_DIGITS ! (unat b div 8 mod 8),
            HEX_DIGITS ! (unat b mod 8)]
         else [charOfByte b])" and n: "b \<noteq> byteOfChar CHR 0x5c"
      by (simp_all only: escapeByte_def Un_iff insert_iff empty_iff de_Morgan_disj simp_thms if_False)
    show ?thesis
      by (cases "b < 0x20 \<or> b = 0x7f \<or> (isBinary \<and> b > 0x7f)")
         (rule that(3) [OF e [THEN trans, OF if_P]], assumption,
          rule that(4) [OF e [THEN trans, OF if_not_P] n], assumption)
  qed
  then show thesis
  proof cases
    case named
    then have "\<exists>c2. escapeByte isBinary b = [CHR 0x5c, c2] \<and>
        (\<forall>rest. decodeEscape c2 rest = ([b], rest, False))"
      by (elim insertE emptyE) (simp_all add: escapeByte_def decodeEscape_named)
    then show thesis using that(1) [of _ "[]"] by auto
  next
    case quote
    then obtain c where c: "c \<in> {CHR 0x27, CHR 0x22, CHR 0x5c}" and b: "b = byteOfChar c" by blast
    then show thesis
      using that(1) [of c "[]"] escapeByte_quote [OF c] decodeEscape_named(8) [OF c] by simp
  next
    case octal
    then show thesis using that(1) octal_escape_decodes by simp
  next
    case plain
    then show thesis by (rule that(2))
  qed
qed

declare decodeCEscape_loop.simps(2) [simp del]

lemma decode_escapeByte:
  "decodeCEscape_loop (escapeByte isBinary b @ rest) =
    (b # fst (decodeCEscape_loop rest), snd (decodeCEscape_loop rest))"
  by (cases rule: escapeByte_cases [of isBinary b])
     (simp_all add: decodeCEscape_loop.simps(2) case_prod_unfold charOfByte_eq_iff)

text \<open>
  C22. C escaping round-trips, in its text and in its binary form: whatever the bytes, and whatever
  digits follow an octal escape, decoding the escaped text gives the bytes back without errors.
\<close>

theorem cescape_roundtrip:
  "decodeBinaryCEscape (encodeCEscapeImpl bytes isBinary) nul =
     encResult (if nul then bytes @ [0] else bytes) False"
proof -
  have "decodeCEscape_loop (encodeCEscapeImpl bytes isBinary) = (bytes, False)"
    by (induction bytes) (simp_all add: encodeCEscapeImpl_def decode_escapeByte)
  then show ?thesis by (simp add: decodeBinaryCEscape_def)
qed

text \<open>
  A hexadecimal escape whose value does not fit in a byte is meant to raise \<open>hadErrors\<close>, but the
  value is kept in 32 bits: nine digits wrap, and this text decodes to one byte without an error.
\<close>

theorem cescape_hex_overflow:
  "decodeBinaryCEscape ([CHR 0x5c, CHR ''x''] @ ''100000041'') False = encResult [0x41] False \<and>
   hadErrors (decodeBinaryCEscape ([CHR 0x5c, CHR ''x''] @ ''141'') False)"
  by (simp add: decodeBinaryCEscape_def decodeCEscape_loop.simps decodeEscape_def tryFromHexDigit_def less_eq_char_def
      push_bit_eq_mult)

end
