(* ===== verification/Base64.thy ===== *)
theory Base64
  imports Prelude
begin

text \<open>
  Base64, the last part of \<open>zc/core/encoding.cc\<close> (derived there from libb64): the encoder's and the
  decoder's resumable state machines, the line breaking, the output buffer and the URL variant.

  The encoder appends to its output, whose length the code compares with the length it computed
  beforehand (\<open>ZC_ASSERT\<close>, here the \<open>None\<close> of \<open>encodeBase64\<close>). The decoder writes through a pointer
  into a buffer of \<open>(6 * n + 7) / 8\<close> bytes; each write is bounds-checked in the model and an access
  outside the buffer is \<open>None\<close>, so that a decoder that returns has been memory safe.
  \<open>sextets\<close> and \<open>pack\<close> specify what the decoder computes.
\<close>

section \<open>Encoder\<close>

datatype base64_encodestep = step_A | step_B | step_C

record base64_encodestate =
  enc_step :: base64_encodestep
  enc_result :: byte
  stepcount :: nat

definition CHARS_PER_LINE :: nat where
  "CHARS_PER_LINE = 72"

definition base64_init_encodestate :: base64_encodestate where
  "base64_init_encodestate = \<lparr>enc_step = step_A, enc_result = 0, stepcount = 0\<rparr>"

definition base64_alphabet :: string where
  "base64_alphabet = ''ABCDEFGHIJKLMNOPQRSTUVWXYZabcdefghijklmnopqrstuvwxyz0123456789+/''"

definition base64_encode_value :: "byte \<Rightarrow> char" where
  "base64_encode_value value_in =
     (if 63 < value_in then CHR ''='' else base64_alphabet ! unat value_in)"

text \<open>One byte of \<open>base64_encode_block\<close>: the characters it emits and the state it leaves.\<close>

definition base64_encode_byte ::
    "bool \<Rightarrow> byte \<Rightarrow> base64_encodestate \<Rightarrow> string \<times> base64_encodestate" where
  "base64_encode_byte breakLines fragment s =
     (case enc_step s of
        step_A \<Rightarrow>
          ([base64_encode_value (drop_bit 2 (fragment AND 0xfc))],
           s\<lparr>enc_step := step_B, enc_result := push_bit 4 (fragment AND 0x03)\<rparr>)
      | step_B \<Rightarrow>
          ([base64_encode_value (enc_result s OR drop_bit 4 (fragment AND 0xf0))],
           s\<lparr>enc_step := step_C, enc_result := push_bit 2 (fragment AND 0x0f)\<rparr>)
      | step_C \<Rightarrow>
          (let out = [base64_encode_value (enc_result s OR drop_bit 6 (fragment AND 0xc0)),
                      base64_encode_value (fragment AND 0x3f)];
               s' = s\<lparr>enc_step := step_A, enc_result := fragment AND 0x3f,
                       stepcount := stepcount s + 1\<rparr>
           in if breakLines \<and> stepcount s' = CHARS_PER_LINE div 4
              then (out @ [CHR 0x0a], s'\<lparr>stepcount := 0\<rparr>)
              else (out, s')))"

primrec base64_encode_block ::
    "byte list \<Rightarrow> base64_encodestate \<Rightarrow> bool \<Rightarrow> string \<times> base64_encodestate" where
  "base64_encode_block [] s breakLines = ([], s)"
| "base64_encode_block (fragment # rest) s breakLines =
     (let (out, s1) = base64_encode_byte breakLines fragment s;
          (outs, s2) = base64_encode_block rest s1 breakLines
      in (out @ outs, s2))"

definition base64_encode_blockend :: "base64_encodestate \<Rightarrow> bool \<Rightarrow> string" where
  "base64_encode_blockend s breakLines =
     (let (out, count) =
        (case enc_step s of
           step_B \<Rightarrow> ([base64_encode_value (enc_result s), CHR ''='', CHR ''=''], stepcount s + 1)
         | step_C \<Rightarrow> ([base64_encode_value (enc_result s), CHR ''=''], stepcount s + 1)
         | step_A \<Rightarrow> ([], stepcount s))
      in out @ (if breakLines \<and> count > 0 then [CHR 0x0a] else []))"

definition encodedSize :: "nat \<Rightarrow> bool \<Rightarrow> nat" where
  "encodedSize inputSize breakLines =
     (let numChars = (inputSize + 2) div 3 * 4
      in if breakLines then
           (let lineCount = numChars div CHARS_PER_LINE;
                lineCount = (if numChars mod CHARS_PER_LINE > 0 then lineCount + 1 else lineCount)
            in numChars + lineCount)
         else numChars)"

definition encodeBase64 :: "byte list \<Rightarrow> bool \<Rightarrow> string option" where
  "encodeBase64 input breakLines =
     (let (body, s) = base64_encode_block input base64_init_encodestate breakLines;
          c = body @ base64_encode_blockend s breakLines
      in if length c = encodedSize (length input) breakLines then Some c else None)"

definition urlChar :: "char \<Rightarrow> char" where
  "urlChar c = (if c = CHR ''+'' then CHR ''-'' else if c = CHR ''/'' then CHR ''_'' else c)"

text \<open>The loop that drops the trailing \<open>=\<close> signs works from the end of the slice.\<close>

fun dropPadding :: "string \<Rightarrow> string" where
  "dropPadding chars =
     (if chars \<noteq> [] \<and> last chars = CHR ''='' then dropPadding (butlast chars) else chars)"

declare dropPadding.simps [simp del]

definition encodeBase64Url :: "byte list \<Rightarrow> string option" where
  "encodeBase64Url bytes = map_option (\<lambda>base64. dropPadding (map urlChar base64)) (encodeBase64 bytes False)"

section \<open>Decoder\<close>

datatype base64_decodestep = step_a | step_b | step_c | step_d

record base64_decodestate =
  dec_hadErrors :: bool
  nPaddingBytesSeen :: nat
  dec_step :: base64_decodestep
  dec_plainchar :: byte

definition base64_init_decodestate :: base64_decodestate where
  "base64_init_decodestate =
     \<lparr>dec_hadErrors = False, nPaddingBytesSeen = 0, dec_step = step_a, dec_plainchar = 0\<rparr>"

text \<open>The decoding table: a fragment, -1 for white space, -2 for padding, -3 for invalid input.\<close>

definition base64_decoding :: "int list" where
  "base64_decoding =
     [-3, -3, -3, -3, -3, -3, -3, -3, -3, -1, -1, -3, -1, -1, -3, -3, -3, -3, -3, -3, -3, -3,
      -3, -3, -3, -3, -3, -3, -3, -3, -3, -3, -1, -3, -3, -3, -3, -3, -3, -3, -3, -3, -3, 62,
      -3, -3, -3, 63, 52, 53, 54, 55, 56, 57, 58, 59, 60, 61, -3, -3, -3, -2, -3, -3, -3, 0,
      1,  2,  3,  4,  5,  6,  7,  8,  9,  10, 11, 12, 13, 14, 15, 16, 17, 18, 19, 20, 21, 22,
      23, 24, 25, -3, -3, -3, -3, -3, -3, 26, 27, 28, 29, 30, 31, 32, 33, 34, 35, 36, 37, 38,
      39, 40, 41, 42, 43, 44, 45, 46, 47, 48, 49, 50, 51, -3, -3, -3, -3, -3] @ replicate 128 (-3)"

definition base64_decode_value :: "char \<Rightarrow> int" where
  "base64_decode_value value_in = base64_decoding ! unat (byteOfChar value_in)"

text \<open>
  \<open>ERROR_IF\<close> short-circuits: once there is an error the predicate, and with it the increment of
  \<open>nPaddingBytesSeen\<close>, is not evaluated. \<open>padding_error\<close> is the predicate of steps C and D.
\<close>

definition error_if :: "bool \<Rightarrow> base64_decodestate \<Rightarrow> base64_decodestate" where
  "error_if p s = s\<lparr>dec_hadErrors := dec_hadErrors s \<or> p\<rparr>"

definition padding_error :: "int \<Rightarrow> nat \<Rightarrow> base64_decodestate \<Rightarrow> base64_decodestate" where
  "padding_error fragment limit s =
     (if dec_hadErrors s then s
      else if fragment < -2 then s\<lparr>dec_hadErrors := True\<rparr>
      else if fragment = -2 then
        (let n = nPaddingBytesSeen s + 1
         in s\<lparr>nPaddingBytesSeen := n, dec_hadErrors := limit < n\<rparr>)
      else s)"

text \<open>Access to the output buffer through \<open>plainchar\<close>, an index; out of bounds is \<open>None\<close>.\<close>

definition storeAt :: "nat \<Rightarrow> byte \<Rightarrow> byte list \<Rightarrow> byte list option" where
  "storeAt i v buf = (if i < length buf then Some (buf[i := v]) else None)"

definition orAt :: "nat \<Rightarrow> byte \<Rightarrow> byte list \<Rightarrow> byte list option" where
  "orAt i v buf = (if i < length buf then Some (buf[i := buf ! i OR v]) else None)"

type_synonym decoder = "base64_decodestate \<times> byte list \<times> nat"

text \<open>One character of \<open>base64_decode_block\<close>, in the step the machine is in.\<close>

definition base64_decode_char :: "char \<Rightarrow> decoder \<Rightarrow> decoder option" where
  "base64_decode_char c d =
     (case d of (s, buf, p) \<Rightarrow>
      let fragment = base64_decode_value c; f = word_of_int fragment :: byte
      in case dec_step s of
        step_a \<Rightarrow>
          (let s1 = error_if (fragment < -1) s
           in if fragment < 0 then Some (s1, buf, p)
              else Option.bind (storeAt p (push_bit 2 (f AND 0x3f)) buf) (\<lambda>buf.
                   Some (s1\<lparr>dec_step := step_b\<rparr>, buf, p)))
      | step_b \<Rightarrow>
          (let s1 = error_if (fragment < -1) s
           in if fragment < 0 then Some (s1, buf, p)
              else Option.bind (orAt p (drop_bit 4 (f AND 0x30)) buf) (\<lambda>buf.
                   Option.bind (storeAt (p + 1) (push_bit 4 (f AND 0x0f)) buf) (\<lambda>buf.
                   Some (s1\<lparr>dec_step := step_c\<rparr>, buf, p + 1))))
      | step_c \<Rightarrow>
          (let s1 = padding_error fragment 2 s
           in if fragment < 0 then Some (s1, buf, p)
              else let s2 = error_if (nPaddingBytesSeen s1 > 0) s1
                   in Option.bind (orAt p (drop_bit 2 (f AND 0x3c)) buf) (\<lambda>buf.
                      Option.bind (storeAt (p + 1) (push_bit 6 (f AND 0x03)) buf) (\<lambda>buf.
                      Some (s2\<lparr>dec_step := step_d\<rparr>, buf, p + 1))))
      | step_d \<Rightarrow>
          (let s1 = padding_error fragment 1 s
           in if fragment < 0 then Some (s1, buf, p)
              else let s2 = error_if (nPaddingBytesSeen s1 > 0) s1
                   in Option.bind (orAt p (f AND 0x3f) buf) (\<lambda>buf.
                      Some (s2\<lparr>dec_step := step_a\<rparr>, buf, p + 1))))"

primrec base64_decode_chars :: "string \<Rightarrow> decoder \<Rightarrow> decoder option" where
  "base64_decode_chars [] d = Some d"
| "base64_decode_chars (c # cs) d = Option.bind (base64_decode_char c d) (base64_decode_chars cs)"

text \<open>What the code does when the input ends in each of the steps.\<close>

definition base64_decode_end :: "decoder \<Rightarrow> decoder option" where
  "base64_decode_end d =
     (case d of (s, buf, p) \<Rightarrow>
      (case dec_step s of
         step_a \<Rightarrow> Some (s\<lparr>dec_plainchar := 0\<rparr>, buf, p)
       | step_b \<Rightarrow> if p < length buf then Some (s\<lparr>dec_plainchar := buf ! p, dec_hadErrors := True\<rparr>, buf, p) else None
       | step_c \<Rightarrow> if p < length buf
            then Some (error_if (nPaddingBytesSeen s = 1) (s\<lparr>dec_plainchar := buf ! p\<rparr>), buf, p) else None
       | step_d \<Rightarrow> if p < length buf then Some (s\<lparr>dec_plainchar := buf ! p\<rparr>, buf, p) else None))"

definition base64_decode_block :: "string \<Rightarrow> byte list \<Rightarrow> base64_decodestate \<Rightarrow> decoder option" where
  "base64_decode_block code_in buf s =
     Option.bind (if dec_step s \<noteq> step_a then storeAt 0 (dec_plainchar s) buf else Some buf) (\<lambda>buf.
     Option.bind (base64_decode_chars code_in (s, buf, 0)) base64_decode_end)"

definition decodeBase64 :: "string \<Rightarrow> byte list encoding_result option" where
  "decodeBase64 input =
     (let output = replicate ((length input * 6 + 7) div 8) 0
      in map_option (\<lambda>(s, buf, n). encResult (take n buf) (dec_hadErrors s))
           (base64_decode_block input output base64_init_decodestate))"

section \<open>What the decoder computes\<close>

text \<open>The six-bit values of the valid characters, and the bytes that a list of them packs into.\<close>

definition sextets :: "string \<Rightarrow> byte list" where
  "sextets input = map (\<lambda>c. word_of_int (base64_decode_value c)) (filter (\<lambda>c. 0 \<le> base64_decode_value c) input)"

fun pack :: "byte list \<Rightarrow> byte list" where
  "pack (a # b # rest) =
     (push_bit 2 (a AND 0x3f) OR drop_bit 4 (b AND 0x30)) #
     (case rest of [] \<Rightarrow> []
      | c # rest \<Rightarrow>
          (push_bit 4 (b AND 0x0f) OR drop_bit 2 (c AND 0x3c)) #
          (case rest of [] \<Rightarrow> []
           | d # rest \<Rightarrow> (push_bit 6 (c AND 0x03) OR (d AND 0x3f)) # pack rest))"
| "pack short = []"

text \<open>The same, from the middle of a group: \<open>cur\<close> is the byte that \<open>plainchar\<close> points to.\<close>

fun emit :: "base64_decodestep \<Rightarrow> byte \<Rightarrow> byte list \<Rightarrow> byte list" where
  "emit step cur [] = []"
| "emit step_a cur (v # vs) = emit step_b (push_bit 2 (v AND 0x3f)) vs"
| "emit step_b cur (v # vs) = (cur OR drop_bit 4 (v AND 0x30)) # emit step_c (push_bit 4 (v AND 0x0f)) vs"
| "emit step_c cur (v # vs) = (cur OR drop_bit 2 (v AND 0x3c)) # emit step_d (push_bit 6 (v AND 0x03)) vs"
| "emit step_d cur (v # vs) = (cur OR (v AND 0x3f)) # emit step_a 0 vs"

lemma emit_pack: "emit step_a cur vs = pack vs"
  by (induction vs arbitrary: cur rule: pack.induct) (simp_all split: list.split)

text \<open>The control part of a step depends on the fragment alone.\<close>

definition control :: "int \<Rightarrow> base64_decodestate \<Rightarrow> base64_decodestate" where
  "control fragment s =
     (case dec_step s of
        step_a \<Rightarrow> (let s1 = error_if (fragment < -1) s
                   in if fragment < 0 then s1 else s1\<lparr>dec_step := step_b\<rparr>)
      | step_b \<Rightarrow> (let s1 = error_if (fragment < -1) s
                   in if fragment < 0 then s1 else s1\<lparr>dec_step := step_c\<rparr>)
      | step_c \<Rightarrow> (let s1 = padding_error fragment 2 s
                   in if fragment < 0 then s1
                      else (error_if (nPaddingBytesSeen s1 > 0) s1)\<lparr>dec_step := step_d\<rparr>)
      | step_d \<Rightarrow> (let s1 = padding_error fragment 1 s
                   in if fragment < 0 then s1
                      else (error_if (nPaddingBytesSeen s1 > 0) s1)\<lparr>dec_step := step_a\<rparr>))"

fun pendingBits :: "base64_decodestep \<Rightarrow> nat" where
  "pendingBits step_a = 0" | "pendingBits step_b = 6" | "pendingBits step_c = 4" | "pendingBits step_d = 2"

lemma dec_step_error [simp]: "dec_step (error_if p s) = dec_step s" "dec_step (padding_error f n s) = dec_step s"
  by (simp_all add: error_if_def padding_error_def Let_def)

lemma emit_step_a: "NO_MATCH 0 cur \<Longrightarrow> emit step_a cur vs = emit step_a 0 vs"
  by (simp add: emit_pack)

lemma sextets_Cons:
  "sextets (c # cs) = (if 0 \<le> base64_decode_value c then word_of_int (base64_decode_value c) # sextets cs else sextets cs)"
  by (simp add: sextets_def)

definition room :: "nat \<Rightarrow> decoder \<Rightarrow> bool" where
  "room r d = (case d of (s, buf, p) \<Rightarrow> 6 * r + 8 * p + pendingBits (dec_step s) \<le> 8 * length buf)"

definition written :: "decoder \<Rightarrow> byte list \<Rightarrow> byte list" where
  "written d vs = (case d of (s, buf, p) \<Rightarrow> take p buf @ emit (dec_step s) (buf ! p) vs)"

lemma decode_char_result:
  assumes "room (Suc r) (s, buf, p)"
  shows "\<exists>buf' p'. base64_decode_char c (s, buf, p) = Some (control (base64_decode_value c) s, buf', p') \<and>
    room r (control (base64_decode_value c) s, buf', p') \<and> length buf' = length buf \<and>
    (\<forall>vs. written (s, buf, p) (if 0 \<le> base64_decode_value c then word_of_int (base64_decode_value c) # vs else vs) =
       written (control (base64_decode_value c) s, buf', p') vs)"
proof (cases "base64_decode_value c < 0")
  case True
  with assms show ?thesis
    by (cases "dec_step s") (simp_all add: base64_decode_char_def control_def Let_def room_def written_def)
next
  case False
  then show ?thesis using assms
    by (cases "dec_step s")
       (simp_all add: base64_decode_char_def control_def Let_def storeAt_def orAt_def room_def written_def
          emit_step_a take_Suc_conv_app_nth)
qed

lemma decode_chars_result:
  assumes "room (length cs) (s, buf, p)"
  shows "\<exists>buf' p'. base64_decode_chars cs (s, buf, p) =
      Some (fold (\<lambda>c. control (base64_decode_value c)) cs s, buf', p') \<and>
    room 0 (fold (\<lambda>c. control (base64_decode_value c)) cs s, buf', p') \<and>
    take p' buf' = written (s, buf, p) (sextets cs)"
  using assms
proof (induction cs arbitrary: s buf p)
  case Nil
  then show ?case by (simp add: written_def sextets_def)
next
  case (Cons c cs)
  from Cons.prems have "room (Suc (length cs)) (s, buf, p)" by simp
  from decode_char_result [OF this, of c] obtain buf' p'
    where c: "base64_decode_char c (s, buf, p) = Some (control (base64_decode_value c) s, buf', p')"
      and r: "room (length cs) (control (base64_decode_value c) s, buf', p')"
      and w: "\<And>vs. written (s, buf, p) (if 0 \<le> base64_decode_value c then word_of_int (base64_decode_value c) # vs else vs) =
       written (control (base64_decode_value c) s, buf', p') vs" by blast
  show ?case using Cons.IH [OF r] by (simp only: base64_decode_chars.simps c bind.simps fold_simps o_apply sextets_Cons w)
qed

definition finalErrors :: "base64_decodestate \<Rightarrow> bool" where
  "finalErrors s = (dec_hadErrors s \<or> dec_step s = step_b \<or> (dec_step s = step_c \<and> nPaddingBytesSeen s = 1))"

definition decodeErrors :: "string \<Rightarrow> bool" where
  "decodeErrors input = finalErrors (fold (\<lambda>c. control (base64_decode_value c)) input base64_init_decodestate)"

lemma decodeBase64_result:
  "decodeBase64 input = Some (encResult (pack (sextets input)) (decodeErrors input))"
proof -
  define buf where "buf = replicate ((length input * 6 + 7) div 8) (0 :: byte)"
  define s where "s = fold (\<lambda>c. control (base64_decode_value c)) input base64_init_decodestate"
  have "room (length input) (base64_init_decodestate, buf, 0)"
    by (simp add: room_def base64_init_decodestate_def buf_def)
  from decode_chars_result [OF this] obtain buf' p'
    where c: "base64_decode_chars input (base64_init_decodestate, buf, 0) = Some (s, buf', p')"
      and r: "room 0 (s, buf', p')" and t: "take p' buf' = pack (sextets input)"
    by (auto simp: s_def written_def base64_init_decodestate_def emit_pack)
  from r have "\<exists>pc. base64_decode_end (s, buf', p') = Some (s\<lparr>dec_plainchar := pc, dec_hadErrors := finalErrors s\<rparr>, buf', p')"
    by (cases "dec_step s") (auto simp: base64_decode_end_def room_def error_if_def finalErrors_def intro!: exI base64_decodestate.equality)
  then show ?thesis using c t
    by (auto simp: decodeBase64_def base64_decode_block_def decodeErrors_def
        simp flip: buf_def s_def) (simp_all add: base64_init_decodestate_def)
qed

lemma byte_masks:
  "(0xfc :: byte) = NOT (mask 2)" "(0xf0 :: byte) = NOT (mask 4)" "(0xc0 :: byte) = NOT (mask 6)"
  "(0x03 :: byte) = mask 2" "(0x0f :: byte) = mask 4" "(0x3f :: byte) = mask 6"
  "(0x30 :: byte) = push_bit 4 (mask 2)" "(0x3c :: byte) = push_bit 2 (mask 4)"
  by (simp_all add: mask_eq_exp_minus_1)

lemma Suc_Suc_minus_2: "2 \<le> n \<Longrightarrow> Suc (Suc (n - 2)) = n"
  by simp

lemma sextet_inverse:
  fixes x y z :: byte
  shows "push_bit 2 (drop_bit 2 (x AND 0xfc) AND 0x3f) OR
      drop_bit 4 ((push_bit 4 (x AND 0x03) OR drop_bit 4 (y AND 0xf0)) AND 0x30) = x"
    and "push_bit 4 ((push_bit 4 (x AND 0x03) OR drop_bit 4 (y AND 0xf0)) AND 0x0f) OR
      drop_bit 2 ((push_bit 2 (y AND 0x0f) OR drop_bit 6 (z AND 0xc0)) AND 0x3c) = y"
    and "push_bit 6 ((push_bit 2 (y AND 0x0f) OR drop_bit 6 (z AND 0xc0)) AND 0x03) OR
      ((z AND 0x3f) AND 0x3f) = z"
  unfolding byte_masks
  subgoal by (rule bit_word_eqI; rename_tac n; case_tac "2 \<le> n") (auto simp: bit_simps Suc_Suc_minus_2)
  subgoal by (rule bit_word_eqI; rename_tac n; case_tac "4 \<le> n") (auto simp: bit_simps)
  subgoal by (rule bit_word_eqI; rename_tac n; case_tac "6 \<le> n") (auto simp: bit_simps)
  done

lemma encode_value_decode:
  assumes "unat v < 64"
  shows "base64_decode_value (base64_encode_value v) = int (unat v)"
proof -
  have "\<forall>n \<in> set [0..<64]. base64_decode_value (base64_alphabet ! n) = int n"
    by (simp add: upt_rec base64_alphabet_def base64_decode_value_def base64_decoding_def byteOfChar_def)
  moreover have "base64_encode_value v = base64_alphabet ! unat v"
    using assms by (simp add: base64_encode_value_def word_less_nat_alt)
  ultimately show ?thesis using assms by simp
qed

text \<open>The six-bit values of a group of three bytes, and of a whole input.\<close>

definition sextet1 :: "byte \<Rightarrow> byte" where "sextet1 x = drop_bit 2 (x AND 0xfc)"
definition sextet2 :: "byte \<Rightarrow> byte \<Rightarrow> byte" where "sextet2 x y = push_bit 4 (x AND 0x03) OR drop_bit 4 (y AND 0xf0)"
definition sextet3 :: "byte \<Rightarrow> byte \<Rightarrow> byte" where "sextet3 y z = push_bit 2 (y AND 0x0f) OR drop_bit 6 (z AND 0xc0)"
definition sextet4 :: "byte \<Rightarrow> byte" where "sextet4 z = z AND 0x3f"

fun unpack :: "byte list \<Rightarrow> byte list" where
  "unpack (x # y # z # rest) = sextet1 x # sextet2 x y # sextet3 y z # sextet4 z # unpack rest"
| "unpack [x, y] = [sextet1 x, sextet2 x y, sextet3 y 0]"
| "unpack [x] = [sextet1 x, sextet2 x 0]"
| "unpack [] = []"

lemma pack_unpack [simp]: "pack (unpack bytes) = bytes"
  by (induction bytes rule: unpack.induct)
     (simp_all add: sextet1_def sextet2_def sextet3_def sextet4_def sextet_inverse [simplified])

lemma below_64: "v AND 0x3f = v \<Longrightarrow> unat (v :: byte) < 64"
  by (metis mod_less_divisor unat_and_low(6) zero_less_numeral)

lemma sextet_bounds [simp]:
  "unat (sextet1 x) < 64" "unat (sextet2 x y) < 64" "unat (sextet3 x y) < 64" "unat (sextet4 x) < 64"
  unfolding sextet1_def sextet2_def sextet3_def sextet4_def byte_masks
  by (rule below_64, unfold byte_masks, rule bit_word_eqI, auto simp: bit_simps)+

text \<open>The encoder as a function of its input, the groups already on the line and the bytes left.\<close>

abbreviation sextetChar :: "byte \<Rightarrow> char" where "sextetChar \<equiv> base64_encode_value"

fun encodedText :: "bool \<Rightarrow> nat \<Rightarrow> byte list \<Rightarrow> string" where
  "encodedText brk k (x # y # z # rest) =
     map sextetChar [sextet1 x, sextet2 x y, sextet3 y z, sextet4 z] @
     (if brk \<and> k + 1 = 18 then CHR 0x0a # encodedText brk 0 rest else encodedText brk (k + 1) rest)"
| "encodedText brk k [x, y] =
     map sextetChar [sextet1 x, sextet2 x y, sextet3 y 0] @ [CHR ''=''] @ (if brk then [CHR 0x0a] else [])"
| "encodedText brk k [x] =
     map sextetChar [sextet1 x, sextet2 x 0] @ ''=='' @ (if brk then [CHR 0x0a] else [])"
| "encodedText brk k [] = (if brk \<and> k > 0 then [CHR 0x0a] else [])"

lemma encode_block_text:
  "enc_step s = step_A \<Longrightarrow>
   fst (base64_encode_block bytes s brk) @ base64_encode_blockend (snd (base64_encode_block bytes s brk)) brk =
   encodedText brk (stepcount s) bytes"
  by (induction bytes arbitrary: s rule: unpack.induct)
     (simp_all add: base64_encode_byte_def base64_encode_blockend_def Let_def case_prod_unfold
        sextet1_def sextet2_def sextet3_def sextet4_def CHARS_PER_LINE_def)

lemma length_encodedText:
  "brk \<longrightarrow> k < 18 \<Longrightarrow> length (encodedText brk k bytes) =
     (length bytes + 2) div 3 * 4 + (if brk then (k + (length bytes + 2) div 3 + 17) div 18 else 0)"
proof (induction bytes arbitrary: k rule: unpack.induct)
  case (1 x y z rest)
  define g where "g = (length rest + 2) div 3"
  have l: "(length (x # y # z # rest) + 2) div 3 = Suc g"
    using div_add_self2 [of 3 "length rest + 2"] by (simp add: g_def)
  have n: "(Suc g + 34) div 18 = Suc ((g + 17) div 18)"
    using div_add_self2 [of 18 "g + 17"] by simp
  note IH = "1.IH" [folded g_def]
  show ?case unfolding l
    using IH [of 0] IH [of "k + 1"] "1.prems" n by (cases "brk \<and> k = 17") auto
qed (auto simp: div_nat_eqI)

lemma encodedSize_lines:
  "encodedSize n brk = (n + 2) div 3 * 4 + (if brk then ((n + 2) div 3 + 17) div 18 else 0)"
proof -
  define g where "g = (n + 2) div 3"
  have "g * 4 div 72 = g div 18" by simp
  moreover have "g * 4 mod 72 = g mod 18 * 4" using mult_mod_left [of g 18 4] by simp
  moreover have "(g + 17) div 18 = (if g mod 18 > 0 then g div 18 + 1 else g div 18)"
  proof -
    have g: "g = 18 * (g div 18) + g mod 18" "g mod 18 < 18" by simp_all
    show ?thesis
    proof (cases "g mod 18 > 0")
      case True
      then show ?thesis using g by (auto intro!: div_nat_eqI simp only: if_P)
    next
      case False
      then show ?thesis using g by (auto intro!: div_nat_eqI)
    qed
  qed
  ultimately show ?thesis unfolding encodedSize_def g_def [symmetric] CHARS_PER_LINE_def Let_def by simp
qed

lemma encodeBase64_text: "encodeBase64 input brk = Some (encodedText brk 0 input)"
proof -
  let ?b = "base64_encode_block input base64_init_encodestate brk"
  have e: "fst ?b @ base64_encode_blockend (snd ?b) brk = encodedText brk 0 input"
    using encode_block_text [of base64_init_encodestate] by (simp add: base64_init_encodestate_def)
  have "length (encodedText brk 0 input) = encodedSize (length input) brk"
    by (subst length_encodedText) (simp_all add: encodedSize_lines)
  then show ?thesis unfolding encodeBase64_def Let_def case_prod_unfold e by simp
qed

section \<open>Which inputs decode without errors\<close>

text \<open>The control part on a list of fragments. White space changes nothing.\<close>

abbreviation controls :: "int list \<Rightarrow> base64_decodestate \<Rightarrow> base64_decodestate" where
  "controls \<equiv> fold control"

lemma control_space [simp]: "control (-1) s = s"
  by (cases "dec_step s") (simp_all add: control_def error_if_def padding_error_def)

lemma controls_spaces: "controls fs s = controls (filter (\<lambda>f. f \<noteq> -1) fs) s"
  by (induction fs arbitrary: s) auto

definition clean :: "nat \<Rightarrow> nat \<Rightarrow> base64_decodestate \<Rightarrow> bool" where
  "clean n k s \<longleftrightarrow> \<not> dec_hadErrors s \<and> nPaddingBytesSeen s = k \<and>
     dec_step s = [step_a, step_b, step_c, step_d] ! (n mod 4)"

text \<open>A body of fragments, then padding that its length allows.\<close>

definition paddingAllowed :: "nat \<Rightarrow> nat \<Rightarrow> bool" where
  "paddingAllowed n k \<longleftrightarrow> k = 0 \<or> (n mod 4 = 2 \<and> k \<le> 2) \<or> (n mod 4 = 3 \<and> k = 1)"

lemma mod4_cases:
  obtains "n mod 4 = 0" "Suc n mod 4 = 1" | "n mod 4 = Suc 0" "Suc n mod 4 = 2"
    | "n mod 4 = 2" "Suc n mod 4 = 3" | "n mod 4 = 3" "Suc n mod 4 = (0 :: nat)"
proof -
  have "n mod 4 < 4" by simp
  then consider "n mod 4 = 0" | "n mod 4 = 1" | "n mod 4 = 2" | "n mod 4 = 3" by linarith
  then show thesis using that by cases (simp_all add: mod_Suc)
qed

lemma control_fragment:
  "0 \<le> f \<Longrightarrow> clean n 0 s \<Longrightarrow> clean (Suc n) 0 (control f s)"
  by (cases rule: mod4_cases [of n])
     (simp_all add: clean_def control_def error_if_def padding_error_def Let_def)

lemma control_padding:
  "clean n k s \<Longrightarrow> paddingAllowed n (Suc k) \<Longrightarrow> clean n (Suc k) (control (-2) s)"
  by (cases rule: mod4_cases [of n])
     (auto simp: clean_def control_def error_if_def padding_error_def Let_def paddingAllowed_def)

lemma control_error:
  assumes "dec_hadErrors s"
  shows "dec_hadErrors (control f s)"
  using assms by (cases "dec_step s") (auto simp: control_def error_if_def padding_error_def Let_def)

lemma control_rejects:
  assumes "clean n k s" and "paddingAllowed n k" and "f \<noteq> -1" and "f < -2 \<or> (f = -2 \<and> \<not> paddingAllowed n (Suc k)) \<or> (0 \<le> f \<and> 0 < k)"
    and "-3 \<le> f"
  shows "dec_hadErrors (control f s)"
  using assms by (cases rule: mod4_cases [of n])
     (auto simp: clean_def control_def error_if_def padding_error_def Let_def paddingAllowed_def)

lemma controls_body:
  "(\<forall>f \<in> set body. 0 \<le> f) \<Longrightarrow> clean n 0 s \<Longrightarrow> clean (n + length body) 0 (controls body s)"
proof (induction body arbitrary: n s)
  case (Cons f body)
  then show ?case using control_fragment [of f n s] Cons.IH [of "Suc n"] by simp
qed simp

lemma controls_replicate:
  "clean n 0 s \<Longrightarrow> paddingAllowed n k \<Longrightarrow> clean n k (controls (replicate k (-2)) s)"
proof (induction k)
  case (Suc k)
  from Suc.prems(2) have "paddingAllowed n k" by (auto simp: paddingAllowed_def)
  then show ?case
    using Suc control_padding [of n k] by (simp add: fold_append flip: replicate_append_same del: fold_replicate)
qed simp

lemma controls_errors: "dec_hadErrors s \<Longrightarrow> dec_hadErrors (controls fs s)"
  by (induction fs arbitrary: s) (simp_all add: control_error)

lemma controls_acceptable:
  assumes "\<forall>f \<in> set fs. -3 \<le> f \<and> f \<noteq> -1" and "clean 0 0 s"
  shows "(\<not> dec_hadErrors (controls fs s) \<longrightarrow> (\<exists>body k. fs = body @ replicate k (-2) \<and> (\<forall>f \<in> set body. 0 \<le> f) \<and>
      paddingAllowed (length body) k \<and> clean (length body) k (controls fs s)))"
  using assms
proof (induction fs rule: rev_induct)
  case Nil
  then show ?case by (intro impI exI [of _ "[]"] exI [of _ 0]) (simp add: paddingAllowed_def)
next
  case (snoc f fs)
  show ?case
  proof
    assume e: "\<not> dec_hadErrors (controls (fs @ [f]) s)"
    then have "\<not> dec_hadErrors (controls fs s)" using control_error by auto
    with snoc obtain body k where fs: "fs = body @ replicate k (-2)" "\<forall>f \<in> set body. 0 \<le> f"
      and a: "paddingAllowed (length body) k" and c: "clean (length body) k (controls fs s)" by auto
    have "-3 \<le> f" "f \<noteq> -1" using snoc.prems by simp_all
    with control_rejects [OF c a] e
    consider "f = -2" "paddingAllowed (length body) (Suc k)" | "0 \<le> f" "k = 0" by force
    then show "\<exists>body k. fs @ [f] = body @ replicate k (-2) \<and> (\<forall>f \<in> set body. 0 \<le> f) \<and>
      paddingAllowed (length body) k \<and> clean (length body) k (controls (fs @ [f]) s)"
    proof cases
      case 1
      then show ?thesis using fs control_padding [OF c]
        by (intro exI [of _ body] exI [of _ "Suc k"]) (simp add: replicate_append_same funpow_swap1)
    next
      case 2
      then show ?thesis using fs control_fragment [of f _ "controls fs s"] c
        by (intro exI [of _ "body @ [f]"] exI [of _ 0]) (auto simp: paddingAllowed_def)
    qed
  qed
qed

definition fragments :: "string \<Rightarrow> int list" where
  "fragments input = filter (\<lambda>f. f \<noteq> -1) (map base64_decode_value input)"

text \<open>
  The language the decoder accepts: up to white space, valid characters followed by padding, where
  the last group is complete, or has two characters and no or two padding signs, or three
  characters and at most one padding sign.
\<close>

definition wellFormedBase64 :: "string \<Rightarrow> bool" where
  "wellFormedBase64 input \<longleftrightarrow>
     (let body = takeWhile (\<lambda>f. 0 \<le> f) (fragments input); padding = dropWhile (\<lambda>f. 0 \<le> f) (fragments input)
      in (\<forall>f \<in> set padding. f = -2) \<and>
         (length body mod 4, length padding) \<in> {(0, 0), (2, 0), (2, 2), (3, 0), (3, 1)})"

lemma fragment_bound: "-3 \<le> base64_decode_value c"
proof -
  have "\<forall>f \<in> set base64_decoding. -3 \<le> f" by (simp add: base64_decoding_def)
  moreover have "base64_decode_value c \<in> set base64_decoding"
    unfolding base64_decode_value_def by (rule nth_mem) (simp add: base64_decoding_def)
  ultimately show ?thesis by blast
qed

lemma wellFormedBase64_iff:
  assumes "fragments input = body @ replicate k (-2)" and "\<forall>f \<in> set body. 0 \<le> f"
  shows "wellFormedBase64 input \<longleftrightarrow> (length body mod 4, k) \<in> {(0, 0), (2, 0), (2, 2), (3, 0), (3, 1)}"
proof -
  have "takeWhile (\<lambda>f. 0 \<le> f) (fragments input) = body" "dropWhile (\<lambda>f. 0 \<le> f) (fragments input) = replicate k (-2)"
    using assms by (simp_all add: takeWhile_append2 dropWhile_append2 takeWhile_replicate dropWhile_replicate)
  then show ?thesis by (simp add: wellFormedBase64_def)
qed

lemma control_fragments:
  "fold (\<lambda>c. control (base64_decode_value c)) input s = controls (fragments input) s"
  unfolding fragments_def by (simp add: fold_map comp_def flip: controls_spaces)

lemma clean_init: "clean 0 0 base64_init_decodestate"
  by (simp add: clean_def base64_init_decodestate_def)

lemma finalErrors_clean:
  assumes "clean n k s" and "paddingAllowed n k"
  shows "finalErrors s \<longleftrightarrow> (n mod 4, k) \<notin> {(0, 0), (2, 0), (2, 2), (3, 0), (3, 1)}"
  using assms by (cases rule: mod4_cases [of n])
    (auto simp: clean_def finalErrors_def paddingAllowed_def)

lemma decodeErrors_iff: "decodeErrors input \<longleftrightarrow> \<not> wellFormedBase64 input"
proof (cases "\<exists>body k. fragments input = body @ replicate k (-2) \<and> (\<forall>f \<in> set body. 0 \<le> f) \<and> paddingAllowed (length body) k")
  case True
  then obtain body k where f: "fragments input = body @ replicate k (-2)" "\<forall>f \<in> set body. 0 \<le> f"
    and a: "paddingAllowed (length body) k" by blast
  have "clean (length body) k (controls (fragments input) base64_init_decodestate)"
    using controls_replicate [OF controls_body [OF f(2) clean_init, simplified] a] by (simp add: f(1) del: fold_replicate)
  from finalErrors_clean [OF this a] show ?thesis
    unfolding decodeErrors_def control_fragments wellFormedBase64_iff [OF f] .
next
  case False
  have "\<forall>f \<in> set (fragments input). -3 \<le> f \<and> f \<noteq> -1"
    by (auto simp: fragments_def fragment_bound)
  from controls_acceptable [OF this clean_init] False
  have "dec_hadErrors (controls (fragments input) base64_init_decodestate)" by blast
  moreover have "\<not> wellFormedBase64 input"
  proof
    assume w: "wellFormedBase64 input"
    let ?b = "takeWhile (\<lambda>f. 0 \<le> f) (fragments input)" and ?p = "dropWhile (\<lambda>f. 0 \<le> f) (fragments input)"
    have "?p = replicate (length ?p) (-2)"
      using w by (simp add: wellFormedBase64_def Let_def replicate_length_same)
    moreover have "paddingAllowed (length ?b) (length ?p)"
      using w by (auto simp: wellFormedBase64_def Let_def paddingAllowed_def)
    ultimately show False using False takeWhile_dropWhile_id [of "\<lambda>f. 0 \<le> f" "fragments input"]
      by (metis set_takeWhileD)
  qed
  ultimately show ?thesis by (simp add: decodeErrors_def control_fragments finalErrors_def)
qed

text \<open>What the decoder sees of an encoded text: the values and the padding, never the line breaks.\<close>

definition paddingOf :: "byte list \<Rightarrow> nat" where
  "paddingOf bytes = (if length bytes mod 3 = 0 then 0 else 3 - length bytes mod 3)"

lemma decode_value_signs [simp]:
  "base64_decode_value CHR 0x0a = -1" "base64_decode_value CHR ''='' = -2"
  by (simp_all add: base64_decode_value_def base64_decoding_def byteOfChar_def)

lemma fragments_append [simp]: "fragments (xs @ ys) = fragments xs @ fragments ys"
  by (simp add: fragments_def)

lemma fragments_Cons:
  "fragments (c # cs) = (if base64_decode_value c = -1 then fragments cs else base64_decode_value c # fragments cs)"
  by (simp add: fragments_def)

lemma fragments_Nil [simp]: "fragments [] = []"
  by (simp add: fragments_def)

lemma length_mod3: "Suc (Suc (Suc n)) mod 3 = n mod 3"
  
proof -
  have "Suc (Suc (Suc n)) = n + 3" by simp
  then show ?thesis by (simp only: mod_add_self2)
qed

lemma uint_not_minus [simp]: "uint w \<noteq> -1" "0 \<le> uint w"
  by (simp_all add: order.strict_implies_not_eq [THEN not_sym] order.strict_trans2 [of "-1" 0])

lemma Suc4_mod4: "Suc (Suc (Suc (Suc n))) mod 4 = n mod 4"
proof -
  have "Suc (Suc (Suc (Suc n))) = n + 4" by simp
  then show ?thesis by (simp only: mod_add_self2)
qed

lemma fragments_encodedText:
  "fragments (encodedText brk k bytes) = map uint (unpack bytes) @ replicate (paddingOf bytes) (-2)"
  by (induction brk k bytes rule: encodedText.induct)
     (simp_all add: fragments_Cons encode_value_decode paddingOf_def length_mod3 numeral_2_eq_2)

lemma sextets_fragments: "sextets input = map word_of_int (filter (\<lambda>f. 0 \<le> f) (fragments input))"
  by (induction input) (auto simp: sextets_def fragments_Cons)

lemma sextets_encodedText: "sextets (encodedText brk k bytes) = unpack bytes"
  by (simp add: sextets_fragments fragments_encodedText comp_def)

lemma length_unpack:
  "length (unpack bytes) mod 4 = (if length bytes mod 3 = 0 then 0 else length bytes mod 3 + 1)"
proof (induction bytes rule: unpack.induct)
  case (1 x y z rest)
  have "length (unpack (x # y # z # rest)) mod 4 = length (unpack rest) mod 4"
    by (simp add: Suc4_mod4)
  then show ?case using 1 by (simp add: length_mod3)
qed simp_all

lemma wellFormed_padding:
  assumes "fragments input = map uint (unpack bytes) @ replicate k (-2)" and "k = 0 \<or> k = paddingOf bytes"
  shows "wellFormedBase64 input"
proof -
  have "length bytes mod 3 < 3" by simp
  then consider "length bytes mod 3 = 0" | "length bytes mod 3 = 1" | "length bytes mod 3 = 2" by linarith
  then have "(length (map uint (unpack bytes)) mod 4, k) \<in> {(0, 0), (2, 0), (2, 2), (3, 0), (3, 1)}"
    using assms(2) by cases (auto simp: length_unpack paddingOf_def)
  then show ?thesis by (subst wellFormedBase64_iff [OF assms(1)]) auto
qed

text \<open>The URL variant: what its translation of characters and its trimming keep.\<close>

definition urlCharInverse :: "char \<Rightarrow> char" where
  "urlCharInverse c = (if c = CHR ''-'' then CHR ''+'' else if c = CHR ''_'' then CHR ''/'' else c)"

lemma dropPadding_snoc [simp]:
  "dropPadding (cs @ [c]) = (if c = CHR ''='' then dropPadding cs else cs @ [c])"
  by (subst dropPadding.simps) simp

lemma dropPadding_replicate:
  "CHR ''='' \<notin> set cs \<Longrightarrow> dropPadding (cs @ replicate k CHR ''='') = cs"
proof (induction k)
  case 0
  then show ?case by (cases cs rule: rev_cases) (auto simp: dropPadding.simps [of "[]"])
next
  case (Suc k)
  then show ?case
    using dropPadding_snoc [of "cs @ replicate k CHR ''=''" "CHR ''=''"] by (simp add: replicate_append_same)
qed

lemma encodedText_plain:
  "encodedText False k bytes = map sextetChar (unpack bytes) @ replicate (paddingOf bytes) CHR ''=''"
  by (induction "False" k bytes rule: encodedText.induct)
     (simp_all add: paddingOf_def length_mod3 numeral_2_eq_2)

lemma unpack_bound: "v \<in> set (unpack bytes) \<Longrightarrow> unat v < 64"
  by (induction bytes rule: unpack.induct) auto

lemma sextetChar_alphabet: "unat v < 64 \<Longrightarrow> sextetChar v \<in> set base64_alphabet"
  by (simp add: base64_encode_value_def word_less_nat_alt base64_alphabet_def del: list.set)

lemma urlChar_facts:
  "c \<in> set base64_alphabet \<Longrightarrow> urlCharInverse (urlChar c) = c"
  "c \<in> set base64_alphabet \<Longrightarrow> urlChar c \<notin> set ''+/=''"
  by (auto simp: base64_alphabet_def urlChar_def urlCharInverse_def)

lemma encodeBase64Url_text:
  "encodeBase64Url bytes = Some (map (\<lambda>v. urlChar (sextetChar v)) (unpack bytes))"
proof -
  have "CHR ''='' \<notin> set (map (\<lambda>v. urlChar (sextetChar v)) (unpack bytes))"
    using urlChar_facts(2) [OF sextetChar_alphabet [OF unpack_bound]] by fastforce
  from dropPadding_replicate [OF this] show ?thesis
    by (simp add: encodeBase64Url_def encodeBase64_text encodedText_plain comp_def) (simp add: urlChar_def)
qed

lemma fragments_values:
  "fragments (map sextetChar (unpack bytes)) = map uint (unpack bytes)"
  by (induction bytes rule: unpack.induct) (simp_all add: fragments_Cons encode_value_decode)

section \<open>Properties\<close>



text \<open>
  The URL variant of base64 uses only characters that are safe in a URL, and mapping its two
  substituted characters back gives a text that \<open>decodeBase64\<close> accepts without the padding.
\<close>

theorem base64url_roundtrip:
  "\<exists>url. encodeBase64Url bytes = Some url \<and> set url \<inter> set ''+/='' = {} \<and>
     decodeBase64 (map urlCharInverse url) = Some (encResult bytes False)"
proof -
  let ?url = "map (\<lambda>v. urlChar (sextetChar v)) (unpack bytes)"
  have a: "sextetChar v \<in> set base64_alphabet" if "v \<in> set (unpack bytes)" for v
    using sextetChar_alphabet [OF unpack_bound [OF that]] .
  then have "map urlCharInverse ?url = map sextetChar (unpack bytes)"
    by (simp add: urlChar_facts)
  moreover have "wellFormedBase64 (map sextetChar (unpack bytes))"
    using wellFormed_padding [of _ bytes 0] fragments_values by simp
  moreover have "sextets (map sextetChar (unpack bytes)) = unpack bytes"
    by (simp add: sextets_fragments fragments_values comp_def)
  moreover have "set ?url \<inter> set ''+/='' = {}"
    using urlChar_facts(2) [OF a] by fastforce
  ultimately show ?thesis
    by (intro exI [of _ ?url]) (simp only: encodeBase64Url_text decodeBase64_result decodeErrors_iff pack_unpack simp_thms)
qed

end
