(* ===== verification/Number_Text.thy ===== *)
theory Number_Text
  imports Prelude
begin

text \<open>
  Integers and their text: \<open>StringPtr::parseAs\<close>, \<open>tryParseAs\<close>, \<open>hex\<close> and \<open>zc::str\<close> of an integer, the first
  part of \<open>zc/core/string.cc\<close>.

  An integer type is its width and signedness. The code parses with \<open>strtoll\<close> and \<open>strtoull\<close> of the C
  library, modelled after the C standard: white space, a sign, the prefix of base 16, digits up to
  the first other character, and the out-of-range result that sets \<open>errno\<close>. The formatters fill
  arrays of a fixed size; more digits than fit is \<open>None\<close>.
\<close>

section \<open>Integer types\<close>

record int_type =
  bytes_of :: nat
  is_signed :: bool

definition bits_of :: "int_type \<Rightarrow> nat" where
  "bits_of T = 8 * bytes_of T"

definition minValue :: "int_type \<Rightarrow> int" where
  "minValue T = (if is_signed T then - (2 ^ (bits_of T - 1)) else 0)"

definition maxValue :: "int_type \<Rightarrow> int" where
  "maxValue T = (if is_signed T then 2 ^ (bits_of T - 1) - 1 else 2 ^ bits_of T - 1)"

definition inType :: "int_type \<Rightarrow> int \<Rightarrow> bool" where
  "inType T i \<longleftrightarrow> minValue T \<le> i \<and> i \<le> maxValue T"

text \<open>The instantiations in the source: 1, 2, 4 and 8 bytes.\<close>

definition supported :: "int_type \<Rightarrow> bool" where
  "supported T \<longleftrightarrow> bytes_of T \<in> {1, 2, 4, 8}"

section \<open>The C library\<close>

definition isSpace :: "char \<Rightarrow> bool" where
  "isSpace c \<longleftrightarrow> c = CHR '' '' \<or> (CHR 0x09 \<le> c \<and> c \<le> CHR 0x0d)"

definition digitValue :: "char \<Rightarrow> nat" where
  "digitValue c =
     (if CHR ''0'' \<le> c \<and> c \<le> CHR ''9'' then of_char c - 48
      else if CHR ''a'' \<le> c \<and> c \<le> CHR ''z'' then of_char c - 87
      else if CHR ''A'' \<le> c \<and> c \<le> CHR ''Z'' then of_char c - 55
      else 36)"

definition isDigit :: "nat \<Rightarrow> char \<Rightarrow> bool" where
  "isDigit base c \<longleftrightarrow> digitValue c < base"

text \<open>The subject sequence of \<open>strtol\<close>: sign, magnitude and the text after it, if there are digits.\<close>

definition skipBasePrefix :: "nat \<Rightarrow> string \<Rightarrow> string" where
  "skipBasePrefix base s =
     (case s of z # x # d # rest \<Rightarrow>
        if base = 16 \<and> z = CHR ''0'' \<and> (x = CHR ''x'' \<or> x = CHR ''X'') \<and> isDigit 16 d
        then d # rest else s
      | _ \<Rightarrow> s)"

definition strtoSubject :: "nat \<Rightarrow> string \<Rightarrow> (bool \<times> nat \<times> string) option" where
  "strtoSubject base s =
     (let s = dropWhile isSpace s;
          negative = (s \<noteq> [] \<and> hd s = CHR ''-'');
          s = (if s \<noteq> [] \<and> hd s \<in> {CHR ''-'', CHR ''+''} then tl s else s);
          s = skipBasePrefix base s;
          digits = takeWhile (isDigit base) s
      in if digits = [] then None
         else Some (negative, foldl (\<lambda>n c. n * base + digitValue c) 0 digits,
                    dropWhile (isDigit base) s))"

text \<open>The results: value, whether \<open>errno\<close> is \<open>ERANGE\<close>, and the text from \<open>endPtr\<close> on.\<close>

definition strtoll :: "nat \<Rightarrow> string \<Rightarrow> int \<times> bool \<times> string" where
  "strtoll base s =
     (case strtoSubject base s of
        None \<Rightarrow> (0, False, s)
      | Some (negative, n, rest) \<Rightarrow>
          (let v = (if negative then - int n else int n)
           in if v < - (2 ^ 63) then (- (2 ^ 63), True, rest)
              else if v > 2 ^ 63 - 1 then (2 ^ 63 - 1, True, rest)
              else (v, False, rest)))"

definition strtoull :: "nat \<Rightarrow> string \<Rightarrow> int \<times> bool \<times> string" where
  "strtoull base s =
     (case strtoSubject base s of
        None \<Rightarrow> (0, False, s)
      | Some (negative, n, rest) \<Rightarrow>
          (if int n > 2 ^ 64 - 1 then (2 ^ 64 - 1, True, rest)
           else ((if negative then - int n else int n) mod 2 ^ 64, False, rest)))"

section \<open>Parsing\<close>

datatype parse_error = NotANumber | OutOfRange

definition isHex :: "string \<Rightarrow> bool" where
  "isHex s =
     (let s = (if s \<noteq> [] \<and> hd s = CHR ''-'' then tl s else s)
      in case s of z # x # rest \<Rightarrow> z = CHR ''0'' \<and> (x = CHR ''x'' \<or> x = CHR ''X'') | _ \<Rightarrow> False)"

definition baseOfText :: "string \<Rightarrow> nat" where
  "baseOfText s = (if isHex s then 16 else 10)"

definition parseSigned :: "string \<Rightarrow> int \<Rightarrow> int \<Rightarrow> parse_error + int" where
  "parseSigned s lo hi =
     (if s = [] then Inl NotANumber
      else let (v, erange, rest) = strtoll (baseOfText s) s
           in if rest \<noteq> [] then Inl NotANumber
              else if erange then Inl OutOfRange
              else if lo \<le> v \<and> v \<le> hi then Inr v else Inl OutOfRange)"

definition tryParseSigned :: "string \<Rightarrow> int \<Rightarrow> int \<Rightarrow> int option" where
  "tryParseSigned s lo hi =
     (if s = [] then None
      else let (v, erange, rest) = strtoll (baseOfText s) s
           in if rest \<noteq> [] \<or> erange \<or> v < lo \<or> hi < v then None else Some v)"

definition parseUnsigned :: "string \<Rightarrow> int \<Rightarrow> parse_error + int" where
  "parseUnsigned s hi =
     (if s = [] then Inl NotANumber
      else let (v, erange, rest) = strtoull (baseOfText s) s
           in if rest \<noteq> [] then Inl NotANumber
              else if erange then Inl OutOfRange
              else if \<not> v \<le> hi then Inl OutOfRange
              else if hd s = CHR ''-'' then Inl OutOfRange
              else Inr v)"

definition tryParseUnsigned :: "string \<Rightarrow> int \<Rightarrow> int option" where
  "tryParseUnsigned s hi =
     (if s = [] then None
      else let (v, erange, rest) = strtoull (baseOfText s) s
           in if rest \<noteq> [] \<or> erange \<or> hi < v \<or> hd s = CHR ''-'' then None else Some v)"

definition parseInteger :: "int_type \<Rightarrow> string \<Rightarrow> parse_error + int" where
  "parseInteger T s =
     (if minValue T < 0 then parseSigned s (minValue T) (maxValue T) else parseUnsigned s (maxValue T))"

definition tryParseInteger :: "int_type \<Rightarrow> string \<Rightarrow> int option" where
  "tryParseInteger T s =
     (if minValue T < 0 then tryParseSigned s (minValue T) (maxValue T)
      else tryParseUnsigned s (maxValue T))"

section \<open>Formatting\<close>

text \<open>The digits in the order the loops produce them, the least significant one first.\<close>

fun reverseDigits :: "nat \<Rightarrow> nat \<Rightarrow> nat list" where
  "reverseDigits base u =
     (if base < 2 \<or> u = 0 then [] else u mod base # reverseDigits base (u div base))"

declare reverseDigits.simps [simp del]

definition digitLoop :: "nat \<Rightarrow> nat \<Rightarrow> nat list" where
  "digitLoop base u = (if u = 0 then [0] else reverseDigits base u)"

definition hexImpl :: "int_type \<Rightarrow> nat \<Rightarrow> string option" where
  "hexImpl T i =
     (let digits = digitLoop 16 i;
          result = map (\<lambda>d. ''0123456789abcdef'' ! d) (rev digits)
      in if length digits \<le> bytes_of T * 2 \<and> length result \<le> bytes_of T * 2 + 1
         then Some result else None)"

text \<open>\<open>unsignedBits\<close> is the width of the template parameter \<open>Unsigned\<close>.\<close>

definition stringifyImpl :: "int_type \<Rightarrow> nat \<Rightarrow> int \<Rightarrow> string option" where
  "stringifyImpl T unsignedBits i =
     (let negative = i < 0;
          u = i mod 2 ^ unsignedBits;
          u = (if negative then (- u) mod 2 ^ unsignedBits else u);
          digits = digitLoop 10 (nat u);
          result = (if negative then ''-'' else []) @ map (\<lambda>d. char_of (48 + d)) (rev digits)
      in if length digits \<le> bytes_of T * 3 + 1 \<and> length result \<le> bytes_of T * 3 + 2
         then Some result else None)"

definition unsignedFor :: "int_type \<Rightarrow> nat" where
  "unsignedFor T = (if bytes_of T \<le> 4 then 32 else 64)"

definition stringify :: "int_type \<Rightarrow> int \<Rightarrow> string option" where
  "stringify T i = stringifyImpl T (unsignedFor T) i"

section \<open>Digits\<close>

lemma reverseDigits_less: "d \<in> set (reverseDigits base u) \<Longrightarrow> d < base"
  by (induction base u rule: reverseDigits.induct) (subst (asm) (2) reverseDigits.simps, auto split: if_splits)

lemma reverseDigits_value:
  "2 \<le> base \<Longrightarrow> foldr (\<lambda>d n. n * base + d) (reverseDigits base u) 0 = u"
  by (induction base u rule: reverseDigits.induct) (subst reverseDigits.simps, auto)

lemma length_reverseDigits: "u < base ^ k \<Longrightarrow> length (reverseDigits base u) \<le> k"
proof (induction k arbitrary: u)
  case 0
  then show ?case by (simp add: reverseDigits.simps)
next
  case (Suc k)
  then have "u div base < base ^ k"
    by (cases "base = 0") (simp_all add: less_mult_imp_div_less mult.commute)
  with Suc.IH show ?case by (subst reverseDigits.simps) simp
qed

lemma digitLoop_facts:
  assumes "2 \<le> base"
  shows "foldl (\<lambda>n d. n * base + d) 0 (rev (digitLoop base u)) = u"
    and "\<forall>d \<in> set (digitLoop base u). d < base" and "digitLoop base u \<noteq> []"
    and "u < base ^ k \<Longrightarrow> 0 < k \<Longrightarrow> length (digitLoop base u) \<le> k"
proof -
  show "foldl (\<lambda>n d. n * base + d) 0 (rev (digitLoop base u)) = u"
    using reverseDigits_value [OF assms, of u] by (simp add: digitLoop_def foldl_conv_foldr)
  show "\<forall>d \<in> set (digitLoop base u). d < base"
    using assms by (auto simp: digitLoop_def dest: reverseDigits_less)
  show "digitLoop base u \<noteq> []"
    using assms by (subst digitLoop_def) (subst reverseDigits.simps, simp)
  show "length (digitLoop base u) \<le> k" if "u < base ^ k" "0 < k"
    using that by (simp add: digitLoop_def length_reverseDigits)
qed

definition decimalChar :: "nat \<Rightarrow> char" where "decimalChar d = char_of (48 + d)"
definition hexChar :: "nat \<Rightarrow> char" where "hexChar d = ''0123456789abcdef'' ! d"

lemma ball_upt: "\<forall>d \<in> set [0..<n]. P d \<Longrightarrow> d < n \<Longrightarrow> P d"
  by simp

lemma decimalChar_facts:
  assumes "d < 10"
  shows "digitValue (decimalChar d) = d" and "\<not> isSpace (decimalChar d)"
    and "decimalChar d \<notin> {CHR ''-'', CHR ''+'', CHR ''x'', CHR ''X''}"
proof -
  have "\<forall>d \<in> set [0..<10]. digitValue (decimalChar d) = d \<and> \<not> isSpace (decimalChar d) \<and>
      decimalChar d \<notin> {CHR ''-'', CHR ''+'', CHR ''x'', CHR ''X''}"
    by (simp add: upt_rec decimalChar_def digitValue_def isSpace_def char_of_def less_eq_char_def bit_0)
  from ball_upt [OF this assms] show "digitValue (decimalChar d) = d" and "\<not> isSpace (decimalChar d)"
    and "decimalChar d \<notin> {CHR ''-'', CHR ''+'', CHR ''x'', CHR ''X''}" by simp_all
qed

lemma hexChar_facts:
  assumes "d < 16"
  shows "digitValue (hexChar d) = d"
proof -
  have "\<forall>d \<in> set [0..<16]. digitValue (hexChar d) = d"
    by (simp add: upt_rec hexChar_def digitValue_def less_eq_char_def)
  from ball_upt [OF this assms] show ?thesis .
qed

text \<open>What \<open>strtol\<close> makes of a run of digits.\<close>

lemma foldl_digits:
  "(\<And>d. d \<in> set ds \<Longrightarrow> digitValue (f d) = d) \<Longrightarrow>
   foldl (\<lambda>n c. n * base + digitValue c) a (map f ds) = foldl (\<lambda>n d. n * base + d) a ds"
  by (induction ds arbitrary: a) simp_all

lemma subject_decimal:
  assumes "ds \<noteq> []" and "\<forall>d \<in> set ds. d < 10"
  shows "strtoSubject 10 (map decimalChar ds) = Some (False, foldl (\<lambda>n d. n * 10 + d) 0 ds, [])"
    and "strtoSubject 10 (CHR ''-'' # map decimalChar ds) = Some (True, foldl (\<lambda>n d. n * 10 + d) 0 ds, [])"
proof -
  from assms obtain e es where ds: "ds = e # es" "e < 10" by (cases ds) auto
  let ?s = "map decimalChar ds"
  have d: "\<forall>c \<in> set ?s. isDigit 10 c" using assms(2) by (auto simp: isDigit_def decimalChar_facts)
  then have t: "takeWhile (isDigit 10) ?s = ?s" "dropWhile (isDigit 10) ?s = []"
    by (simp_all add: takeWhile_eq_all_conv [THEN iffD2])
  have "skipBasePrefix 10 ?s = ?s"
    by (simp add: skipBasePrefix_def split: list.split)
  moreover have "foldl (\<lambda>n c. n * 10 + digitValue c) 0 ?s = foldl (\<lambda>n d. n * 10 + d) 0 ds"
    using assms(2) by (intro foldl_digits) (auto simp: decimalChar_facts)
  moreover have "dropWhile isSpace ?s = ?s" "hd ?s \<notin> {CHR ''-'', CHR ''+''}"
    using ds decimalChar_facts [OF ds(2)] by simp_all
  moreover have "dropWhile isSpace (CHR ''-'' # ?s) = CHR ''-'' # ?s"
    by (simp add: isSpace_def less_eq_char_def)
  ultimately show "strtoSubject 10 ?s = Some (False, foldl (\<lambda>n d. n * 10 + d) 0 ds, [])"
    and "strtoSubject 10 (CHR ''-'' # ?s) = Some (True, foldl (\<lambda>n d. n * 10 + d) 0 ds, [])"
    using assms(1) by (simp_all add: strtoSubject_def Let_def t del: dropWhile.simps)
qed

lemma not_isHex_decimal:
  assumes "\<forall>d \<in> set ds. d < 10"
  shows "\<not> isHex (map decimalChar ds)" "\<not> isHex (CHR ''-'' # map decimalChar ds)"
proof -
  have "case map decimalChar ds of z # x # rest \<Rightarrow> x \<notin> {CHR ''x'', CHR ''X''} | _ \<Rightarrow> True"
    using assms decimalChar_facts(3) by (cases ds rule: remdups_adj.cases) auto
  then show "\<not> isHex (CHR ''-'' # map decimalChar ds)"
    by (auto simp: isHex_def split: list.splits)
  show "\<not> isHex (map decimalChar ds)"
    using assms decimalChar_facts(3) by (cases ds rule: remdups_adj.cases) (auto simp: isHex_def)
qed

lemma strtoll_decimal:
  assumes "ds \<noteq> []" "\<forall>d \<in> set ds. d < 10" "int (foldl (\<lambda>n d. n * 10 + d) 0 ds) = \<bar>i\<bar>" "- (2 ^ 63) \<le> i" "i < 2 ^ 63"
  shows "strtoll 10 ((if i < 0 then ''-'' else []) @ map decimalChar ds) = (i, False, [])"
  using assms(3-5) subject_decimal [OF assms(1,2)] by (auto simp: strtoll_def)

lemma strtoull_decimal:
  assumes "ds \<noteq> []" "\<forall>d \<in> set ds. d < 10" "int (foldl (\<lambda>n d. n * 10 + d) 0 ds) = i" "i < 2 ^ 64"
  shows "strtoull 10 (map decimalChar ds) = (i, False, [])"
  using assms(3-4) subject_decimal [OF assms(1,2)] by (auto simp: strtoull_def)

lemma subject_hex:
  assumes "ds \<noteq> []" and "\<forall>d \<in> set ds. d < 16"
  shows "strtoSubject 16 (''0x'' @ map hexChar ds) = Some (False, foldl (\<lambda>n d. n * 16 + d) 0 ds, [])"
proof -
  from assms obtain e es where ds: "ds = e # es" "e < 16" by (cases ds) auto
  let ?s = "map hexChar ds"
  have d: "\<forall>c \<in> set ?s. isDigit 16 c" using assms(2) by (auto simp: isDigit_def hexChar_facts)
  then have t: "takeWhile (isDigit 16) ?s = ?s" "dropWhile (isDigit 16) ?s = []"
    by (simp_all add: takeWhile_eq_all_conv [THEN iffD2])
  have "skipBasePrefix 16 (''0x'' @ ?s) = ?s"
    using d ds by (simp add: skipBasePrefix_def)
  moreover have "foldl (\<lambda>n c. n * 16 + digitValue c) 0 ?s = foldl (\<lambda>n d. n * 16 + d) 0 ds"
    using assms(2) by (intro foldl_digits) (auto simp: hexChar_facts)
  ultimately show ?thesis
    using assms(1) by (simp add: strtoSubject_def Let_def t isSpace_def less_eq_char_def)
qed

text \<open>The digits of a value that fits in \<open>n\<close> bytes fit in the arrays.\<close>

lemma bytes_digits:
  assumes "u < 2 ^ (8 * n)" and "0 < n"
  shows "length (digitLoop 16 u) \<le> n * 2" and "length (digitLoop 10 u) \<le> n * 3"
proof -
  have "(2 :: nat) ^ (8 * n) = 16 ^ (n * 2)"
    by (simp add: power_mult mult.commute [of n])
  with assms show "length (digitLoop 16 u) \<le> n * 2" by (intro digitLoop_facts(4)) simp_all
  have "(2 :: nat) ^ (8 * n) = 256 ^ n" by (simp add: power_mult)
  also have "\<dots> \<le> 1000 ^ n" by (rule power_mono) simp_all
  also have "\<dots> = 10 ^ (n * 3)" by (simp add: power_mult mult.commute [of n])
  finally show "length (digitLoop 10 u) \<le> n * 3" using assms by (intro digitLoop_facts(4)) simp_all
qed

lemma supported_range:
  assumes "supported T" and "inType T i"
  shows "nat \<bar>i\<bar> < 2 ^ bits_of T" and "- (2 ^ 63) \<le> i" and "i < 2 ^ 64" and "is_signed T \<Longrightarrow> i < 2 ^ 63"
    and "bits_of T \<le> unsignedFor T" and "0 < bytes_of T" and "minValue T < 0 \<longleftrightarrow> is_signed T"
  using assms
  by (auto simp: supported_def inType_def minValue_def maxValue_def bits_of_def unsignedFor_def split: if_splits)

lemma magnitude_bits:
  assumes "nat \<bar>i\<bar> < 2 ^ m" and "m \<le> n"
  shows "nat (if i < 0 then (- (i mod 2 ^ n)) mod 2 ^ n else i mod 2 ^ n) = nat \<bar>i\<bar>"
proof -
  have "(2 :: nat) ^ m \<le> 2 ^ n" using assms(2) by (rule power_increasing) simp
  then have "nat \<bar>i\<bar> < 2 ^ n" using assms(1) by (rule order.strict_trans2 [rotated])
  then have "\<bar>i\<bar> < 2 ^ n" by (simp add: nat_less_iff)
  then show ?thesis by (simp add: mod_minus_eq)
qed

lemma stringify_digits:
  assumes "supported T" and "inType T i"
  shows "stringify T i =
    Some ((if i < 0 then ''-'' else []) @ map decimalChar (rev (digitLoop 10 (nat \<bar>i\<bar>))))"
proof -
  note r = supported_range [OF assms]
  define ds where "ds = digitLoop 10 (nat \<bar>i\<bar>)"
  have "length ds \<le> bytes_of T * 3"
    using r(1,6) unfolding bits_of_def ds_def by (rule bytes_digits(2))
  then show ?thesis
    unfolding stringify_def stringifyImpl_def Let_def magnitude_bits [OF r(1) r(5)] ds_def [symmetric]
    by (simp add: decimalChar_def)
qed

lemma parseInteger_try:
  "tryParseInteger T s = (case parseInteger T s of Inl e \<Rightarrow> None | Inr v \<Rightarrow> Some v)"
  by (simp add: tryParseInteger_def parseInteger_def tryParseSigned_def parseSigned_def tryParseUnsigned_def
      parseUnsigned_def Let_def case_prod_unfold)

section \<open>Properties\<close>

text \<open>
  C23. Integers round-trip through \<open>zc::str\<close>: for every integer type the source instantiates and every
  value of it, including the most negative one, the digits fit in the formatter's arrays and both
  parsers read the value back.
\<close>

theorem integer_roundtrip:
  assumes "supported T" and "inType T i"
  shows "\<exists>s. stringify T i = Some s \<and> parseInteger T s = Inr i \<and> tryParseInteger T s = Some i"
proof -
  note r = supported_range [OF assms]
  define ds where "ds = rev (digitLoop 10 (nat \<bar>i\<bar>))"
  have ds: "ds \<noteq> []" "\<forall>d \<in> set ds. d < 10" "int (foldl (\<lambda>n d. n * 10 + d) 0 ds) = \<bar>i\<bar>"
    using digitLoop_facts [of 10 "nat \<bar>i\<bar>"] by (simp_all add: ds_def)
  let ?s = "(if i < 0 then ''-'' else []) @ map decimalChar ds"
  have "parseInteger T ?s = Inr i"
  proof (cases "is_signed T")
    case True
    then show ?thesis
      using r(2,4,7) assms(2) strtoll_decimal [OF ds] not_isHex_decimal [OF ds(2)] ds(1)
      by (simp add: parseInteger_def parseSigned_def baseOfText_def inType_def)
  next
    case False
    then have i: "0 \<le> i" using assms(2) by (simp add: inType_def minValue_def)
    have "hd (map decimalChar ds) \<noteq> CHR ''-''"
      using ds(1,2) decimalChar_facts(3) by (cases ds) auto
    with i False show ?thesis
      using r(3,7) assms(2) strtoull_decimal [OF ds(1,2), of i] ds(3) not_isHex_decimal(1) [OF ds(2)] ds(1)
      by (simp add: parseInteger_def parseUnsigned_def baseOfText_def inType_def)
  qed
  then show ?thesis using stringify_digits [OF assms] by (simp add: parseInteger_try ds_def)
qed

theorem integer_roundtrip_witness:
  "\<exists>s. stringify \<lparr>bytes_of = 1, is_signed = True\<rparr> (- 128) = Some s \<and>
     parseInteger \<lparr>bytes_of = 1, is_signed = True\<rparr> s = Inr (- 128) \<and>
     tryParseInteger \<lparr>bytes_of = 1, is_signed = True\<rparr> s = Some (- 128)"
  by (rule integer_roundtrip) (simp_all add: supported_def inType_def minValue_def maxValue_def bits_of_def)

text \<open>
  C24. The throwing and the \<open>Maybe\<close>-returning parsers agree, and a value either returns is in the range
  of the type.
\<close>

theorem parse_agree_in_range:
  "tryParseInteger T s = (case parseInteger T s of Inl e \<Rightarrow> None | Inr v \<Rightarrow> Some v) \<and>
   (tryParseInteger T s = Some v \<longrightarrow> inType T v)"
proof
  show "tryParseInteger T s = (case parseInteger T s of Inl e \<Rightarrow> None | Inr v \<Rightarrow> Some v)"
    by (rule parseInteger_try)
  have "minValue T < 0 \<or> minValue T = 0" by (simp add: minValue_def)
  moreover have "0 \<le> fst (strtoull (baseOfText s) s)"
    by (auto simp: strtoull_def case_prod_unfold split: option.split)
  ultimately show "tryParseInteger T s = Some v \<longrightarrow> inType T v"
    by (auto simp: tryParseInteger_def tryParseSigned_def tryParseUnsigned_def Let_def case_prod_unfold
        inType_def split: if_splits)
qed

theorem parse_agree_in_range_witness:
  "tryParseInteger \<lparr>bytes_of = 1, is_signed = False\<rparr> ''7'' = Some 7 \<and>
   inType \<lparr>bytes_of = 1, is_signed = False\<rparr> 7"
proof -
  have "tryParseInteger \<lparr>bytes_of = 1, is_signed = False\<rparr> ''7'' = Some 7"
    by (simp add: tryParseInteger_def minValue_def tryParseUnsigned_def baseOfText_def isHex_def strtoull_def
        strtoSubject_def skipBasePrefix_def isSpace_def less_eq_char_def isDigit_def digitValue_def
        maxValue_def bits_of_def)
  then show ?thesis
    using parse_agree_in_range [of "\<lparr>bytes_of = 1, is_signed = False\<rparr>" "''7''" 7] by simp
qed

text \<open>
  \<open>hex\<close> round-trips: its digits fit in the array, and with the prefix \<open>0x\<close> they parse to the value.
\<close>

theorem hex_integer_roundtrip:
  assumes "supported T" and "\<not> is_signed T" and "n < 2 ^ bits_of T"
  shows "\<exists>s. hexImpl T n = Some s \<and> tryParseInteger T (''0x'' @ s) = Some (int n)"
proof -
  define ds where "ds = rev (digitLoop 16 n)"
  have ds: "ds \<noteq> []" "\<forall>d \<in> set ds. d < 16" "foldl (\<lambda>n d. n * 16 + d) 0 ds = n"
    using digitLoop_facts [of 16 n] by (simp_all add: ds_def)
  have t: "inType T (int n)" using assms(2,3) by (simp add: inType_def minValue_def maxValue_def zle_diff1_eq)
  note r = supported_range [OF assms(1) t]
  have "length (digitLoop 16 n) \<le> bytes_of T * 2"
    using assms(3) r(6) unfolding bits_of_def by (rule bytes_digits(1))
  then have "hexImpl T n = Some (map hexChar ds)"
    by (simp add: hexImpl_def Let_def ds_def hexChar_def)
  moreover have "strtoull 16 (''0x'' @ map hexChar ds) = (int n, False, [])"
    using r(3) by (simp only: strtoull_def subject_hex [OF ds(1,2)] ds(3)) simp
  then have "tryParseInteger T (''0x'' @ map hexChar ds) = Some (int n)"
    using r(7) assms(2) t
    by (simp add: tryParseInteger_def tryParseUnsigned_def baseOfText_def isHex_def inType_def)
  ultimately show ?thesis by blast
qed

theorem hex_integer_roundtrip_witness:
  "\<exists>s. hexImpl \<lparr>bytes_of = 4, is_signed = False\<rparr> 48879 = Some s \<and>
     tryParseInteger \<lparr>bytes_of = 4, is_signed = False\<rparr> (''0x'' @ s) = Some (int 48879)"
  by (rule hex_integer_roundtrip) (simp_all add: supported_def bits_of_def)

text \<open>
  The guard against negative input of the unsigned parsers looks at the first character only, while
  \<open>strtoull\<close> skips white space first: with a leading space, \<open>-1\<close> is the largest 64-bit value.
\<close>

theorem unsigned_accepts_negative:
  "tryParseInteger \<lparr>bytes_of = 8, is_signed = False\<rparr> ''-1'' = None \<and>
   tryParseInteger \<lparr>bytes_of = 8, is_signed = False\<rparr> '' -1'' = Some (2 ^ 64 - 1)"
  by (simp add: tryParseInteger_def minValue_def tryParseUnsigned_def baseOfText_def isHex_def strtoull_def
      strtoSubject_def skipBasePrefix_def isSpace_def less_eq_char_def isDigit_def digitValue_def
      maxValue_def bits_of_def)

end
