(* ===== verification/Source_Location.thy ===== *)
theory Source_Location
  imports Number_Text
begin

text \<open>
  Source locations and ranges of the compiler (\<open>compiler/source/location.h\<close>) and the state of
  \<open>SourceManager\<close> (\<open>compiler/source/manager.cc\<close>), of which the repository implements the virtual files.

  A location is an opaque 32-bit value that is printed as a file id (upper 8 bits) and an offset
  (lower 24 bits); 0 is the invalid location. The checks of \<open>ZC_IREQUIRE\<close> are made in debug builds:
  a violated one is \<open>None\<close>.
\<close>

section \<open>Locations\<close>

datatype SourceLoc = SourceLoc (getOpaqueValue: uint32)

definition SourceLoc_lessEq :: "SourceLoc \<Rightarrow> SourceLoc \<Rightarrow> bool" where
  "SourceLoc_lessEq a b \<longleftrightarrow> getOpaqueValue a \<le> getOpaqueValue b"

definition SourceLoc_less :: "SourceLoc \<Rightarrow> SourceLoc \<Rightarrow> bool" where
  "SourceLoc_less a b \<longleftrightarrow> getOpaqueValue a < getOpaqueValue b"

text \<open>The comparison operators make locations a linear order.\<close>

instantiation SourceLoc :: linorder
begin

definition less_eq_SourceLoc :: "SourceLoc \<Rightarrow> SourceLoc \<Rightarrow> bool" where
  "less_eq_SourceLoc = SourceLoc_lessEq"

definition less_SourceLoc :: "SourceLoc \<Rightarrow> SourceLoc \<Rightarrow> bool" where
  "less_SourceLoc = SourceLoc_less"

instance
  by standard (auto simp: less_eq_SourceLoc_def less_SourceLoc_def SourceLoc_lessEq_def SourceLoc_less_def SourceLoc.expand)

end

definition SourceLoc_invalid :: SourceLoc where
  "SourceLoc_invalid = SourceLoc 0"

definition SourceLoc_isValid :: "SourceLoc \<Rightarrow> bool" where
  "SourceLoc_isValid loc \<longleftrightarrow> getOpaqueValue loc \<noteq> 0"

definition getAdvancedLoc :: "SourceLoc \<Rightarrow> uint32 \<Rightarrow> SourceLoc" where
  "getAdvancedLoc loc offset = SourceLoc (getOpaqueValue loc + offset)"

abbreviation unsignedInt :: int_type where
  "unsignedInt \<equiv> \<lparr>bytes_of = 4, is_signed = False\<rparr>"

definition strUnsigned :: "uint32 \<Rightarrow> string option" where
  "strUnsigned v = stringify unsignedInt (uint v)"

definition SourceLoc_toString :: "SourceLoc \<Rightarrow> string option" where
  "SourceLoc_toString loc =
     (if SourceLoc_isValid loc then
        Option.bind (strUnsigned (drop_bit 24 (getOpaqueValue loc))) (\<lambda>fileId.
        Option.bind (strUnsigned (getOpaqueValue loc AND 0xFFFFFF)) (\<lambda>offset.
        Some (''SourceLoc(file_id='' @ fileId @ '' offset='' @ offset @ '')'')))
      else Some ''SourceLoc(invalid)'')"

section \<open>Ranges\<close>

record SourceRange =
  range_start :: SourceLoc
  range_end :: SourceLoc

definition SourceRange_isValid :: "SourceRange \<Rightarrow> bool" where
  "SourceRange_isValid r \<longleftrightarrow> SourceLoc_isValid (range_start r) \<and> SourceLoc_isValid (range_end r)"

definition SourceRange_contains :: "SourceRange \<Rightarrow> SourceLoc \<Rightarrow> bool" where
  "SourceRange_contains r loc \<longleftrightarrow> range_start r \<le> loc \<and> loc \<le> range_end r"

definition SourceRange_overlaps :: "SourceRange \<Rightarrow> SourceRange \<Rightarrow> bool" where
  "SourceRange_overlaps r other \<longleftrightarrow>
     SourceRange_contains r (range_start other) \<or> SourceRange_contains other (range_start r)"

definition SourceRange_widen :: "SourceRange \<Rightarrow> SourceRange \<Rightarrow> SourceRange" where
  "SourceRange_widen r other =
     (let r = (if range_start other < range_start r then r\<lparr>range_start := range_start other\<rparr> else r)
      in if range_end other > range_end r then r\<lparr>range_end := range_end other\<rparr> else r)"

definition SourceRange_toString :: "SourceRange \<Rightarrow> string option" where
  "SourceRange_toString r =
     Option.bind (SourceLoc_toString (range_start r)) (\<lambda>s.
     Option.bind (SourceLoc_toString (range_end r)) (\<lambda>e.
     Some (''SourceRange('' @ s @ '', '' @ e @ '')'')))"

record CharSourceRange =
  char_start :: SourceLoc
  char_end :: SourceLoc
  isTokenRange :: bool

definition CharSourceRange_default :: CharSourceRange where
  "CharSourceRange_default =
     \<lparr>char_start = SourceLoc_invalid, char_end = SourceLoc_invalid, isTokenRange = False\<rparr>"

definition CharSourceRange_make :: "SourceLoc \<Rightarrow> SourceLoc \<Rightarrow> bool \<Rightarrow> CharSourceRange option" where
  "CharSourceRange_make start finish isToken =
     (if start \<le> finish
      then Some \<lparr>char_start = start, char_end = finish, isTokenRange = isToken\<rparr> else None)"

definition computeEnd :: "SourceLoc \<Rightarrow> uint32 \<Rightarrow> SourceLoc option" where
  "computeEnd start len =
     (if \<not> SourceLoc_isValid start then None
      else if \<not> len > 0 then None
      else let startvalue = getOpaqueValue start; endvalue = startvalue + len
           in if \<not> endvalue \<ge> startvalue then None
              else if \<not> endvalue \<le> 0xFFFFFF then None
              else Some (SourceLoc endvalue))"

definition CharSourceRange_ofLength :: "SourceLoc \<Rightarrow> uint32 \<Rightarrow> bool \<Rightarrow> CharSourceRange option" where
  "CharSourceRange_ofLength start len isToken =
     map_option (\<lambda>finish. \<lparr>char_start = start, char_end = finish, isTokenRange = isToken\<rparr>) (computeEnd start len)"

definition getTokenRange :: "SourceLoc \<Rightarrow> SourceLoc \<Rightarrow> CharSourceRange option" where
  "getTokenRange start finish = CharSourceRange_make start finish True"

definition getCharRange :: "SourceLoc \<Rightarrow> SourceLoc \<Rightarrow> CharSourceRange option" where
  "getCharRange start finish = CharSourceRange_make start finish False"

definition CharSourceRange_contains :: "CharSourceRange \<Rightarrow> SourceLoc \<Rightarrow> bool" where
  "CharSourceRange_contains r loc \<longleftrightarrow> char_start r \<le> loc \<and> loc < char_end r"

definition CharSourceRange_length :: "CharSourceRange \<Rightarrow> uint32" where
  "CharSourceRange_length r =
     (if \<not> SourceLoc_isValid (char_start r) \<or> \<not> SourceLoc_isValid (char_end r) then 0
      else getOpaqueValue (char_end r) - getOpaqueValue (char_start r))"

definition getAsRange :: "CharSourceRange \<Rightarrow> SourceRange" where
  "getAsRange r = \<lparr>range_start = char_start r, range_end = char_end r\<rparr>"

definition CharSourceRange_toString :: "CharSourceRange \<Rightarrow> string option" where
  "CharSourceRange_toString r =
     Option.bind (SourceLoc_toString (char_start r)) (\<lambda>s.
     Option.bind (SourceLoc_toString (char_end r)) (\<lambda>e.
     Some (''CharSourceRange('' @ s @ '', '' @ e @ '', '' @ (if isTokenRange r then ''token'' else ''char'') @ '')'')))"

section \<open>Source manager\<close>

record VirtualFile =
  vf_range :: CharSourceRange
  vf_name :: string
  vf_lineOffset :: int

record SourceManager =
  virtualFiles :: "VirtualFile list"
  regexLiteralStartLocs :: "SourceLoc list"

definition SourceManager_new :: SourceManager where
  "SourceManager_new = \<lparr>virtualFiles = [], regexLiteralStartLocs = []\<rparr>"

definition createVirtualFile ::
    "SourceManager \<Rightarrow> SourceLoc \<Rightarrow> string \<Rightarrow> int \<Rightarrow> uint32 \<Rightarrow> SourceManager option" where
  "createVirtualFile sm loc name lineOffset len =
     Option.bind (CharSourceRange_ofLength loc len True) (\<lambda>range.
       let vf = \<lparr>vf_range = range, vf_name = name, vf_lineOffset = lineOffset\<rparr>
       in Some (sm\<lparr>virtualFiles := virtualFiles sm @ [vf]\<rparr>))"

section \<open>Lemmas\<close>

lemma le_getOpaqueValue: "a \<le> b \<longleftrightarrow> getOpaqueValue a \<le> getOpaqueValue b"
  by (simp add: less_eq_SourceLoc_def SourceLoc_lessEq_def)

lemma less_getOpaqueValue: "a < b \<longleftrightarrow> getOpaqueValue a < getOpaqueValue b"
  by (simp add: less_SourceLoc_def SourceLoc_less_def)

lemma computeEnd_iff:
  "computeEnd start len = Some finish \<longleftrightarrow>
     SourceLoc_isValid start \<and> 0 < unat len \<and> unat (getOpaqueValue start) + unat len \<le> 0xFFFFFF \<and>
     finish = SourceLoc (getOpaqueValue start + len)"
proof -
  let ?v = "getOpaqueValue start"
  have b: "unat ?v < 2 ^ 32" "unat len < 2 ^ 32"
    using unat_bound [of ?v] unat_bound [of len] by simp_all
  have s: "unat (?v + len) = (unat ?v + unat len) mod 2 ^ 32"
    by (simp add: unat_word_ariths)
  have "(?v \<le> ?v + len \<and> ?v + len \<le> 0xFFFFFF) \<longleftrightarrow> unat ?v + unat len \<le> 0xFFFFFF"
  proof (cases "unat ?v + unat len < 2 ^ 32")
    case True
    then show ?thesis by (simp add: word_le_nat_alt s)
  next
    case False
    then have "unat (?v + len) = unat ?v + unat len - 2 ^ 32"
      using b by (subst s) (simp add: le_mod_geq)
    then show ?thesis using False b by (simp add: word_le_nat_alt)
  qed
  moreover have "len > 0 \<longleftrightarrow> 0 < unat len" by (simp add: word_less_nat_alt)
  ultimately show ?thesis by (auto simp: computeEnd_def Let_def)
qed

lemma strUnsigned_Some: "strUnsigned v = Some (map decimalChar (rev (digitLoop 10 (unat v))))"
proof -
  have r: "inType unsignedInt (uint v)"
    using uint_lt2p [of v] by (simp add: inType_def minValue_def maxValue_def bits_of_def)
  then show ?thesis
    by (simp add: strUnsigned_def stringify_digits [OF _ r] supported_def)
qed

lemma decimal_inject:
  assumes "map decimalChar (rev (digitLoop 10 m)) @ c # s = map decimalChar (rev (digitLoop 10 n)) @ c # t"
    and "\<not> isDigit 10 c"
  shows "m = n \<and> s = t"
proof -
  let ?d = "\<lambda>n. map decimalChar (rev (digitLoop 10 n))"
  have d: "\<forall>x \<in> set (?d k). isDigit 10 x" for k
    using digitLoop_facts(2) [of 10 k] by (auto simp: isDigit_def decimalChar_facts)
  have "takeWhile (isDigit 10) (?d m @ c # s) = ?d m" "takeWhile (isDigit 10) (?d n @ c # t) = ?d n"
    using d assms(2) takeWhile_append2 [of "?d m" "isDigit 10" "c # s"] takeWhile_append2 [of "?d n" "isDigit 10" "c # t"]
    by fastforce+
  with assms(1) have e: "?d m = ?d n" by simp
  have "inj_on decimalChar {..<10}"
    by (rule inj_onI) (metis decimalChar_facts(1) lessThan_iff)
  moreover have "set (digitLoop 10 m) \<union> set (digitLoop 10 n) \<subseteq> {..<10}"
    using digitLoop_facts(2) [of 10 m] digitLoop_facts(2) [of 10 n] by auto
  ultimately have "rev (digitLoop 10 m) = rev (digitLoop 10 n)"
    using e by (intro map_inj_on [of decimalChar]) (auto intro: inj_on_subset)
  then have "m = n"
    using digitLoop_facts(1) [of 10 m] digitLoop_facts(1) [of 10 n] by (metis (no_types) numeral_le_iff semiring_norm(68,69,71))
  with assms(1) show ?thesis by simp
qed

lemma loc_split: "unat v = unat (drop_bit 24 v) * 2 ^ 24 + unat (v AND 0xFFFFFF)" for v :: uint32
proof -
  have m: "(0xFFFFFF :: uint32) = mask 24" by (simp add: mask_eq_exp_minus_1)
  show ?thesis unfolding m unat_and_mask unat_shr by simp
qed

lemma not_digits: "\<not> isDigit 10 CHR '' ''" "\<not> isDigit 10 CHR '')''"
  by (simp_all add: isDigit_def digitValue_def less_eq_char_def)

lemma SourceLoc_text_inject:
  assumes "SourceLoc_toString a = SourceLoc_toString b"
  shows "a = b"
proof (cases "SourceLoc_isValid a \<and> SourceLoc_isValid b")
  case True
  let ?d = "\<lambda>n. map decimalChar (rev (digitLoop 10 n))"
  let ?f = "\<lambda>l. unat (drop_bit 24 (getOpaqueValue l))" and ?o = "\<lambda>l. unat (getOpaqueValue l AND 0xFFFFFF)"
  have "?d (?f a) @ CHR '' '' # ''offset='' @ ?d (?o a) @ '')'' =
      ?d (?f b) @ CHR '' '' # ''offset='' @ ?d (?o b) @ '')''"
    using assms True by (simp add: SourceLoc_toString_def strUnsigned_Some)
  from decimal_inject [OF this not_digits(1)]
  have f: "?f a = ?f b" and o: "?d (?o a) @ CHR '')'' # [] = ?d (?o b) @ CHR '')'' # []" by simp_all
  from decimal_inject [OF o not_digits(2)] have "?o a = ?o b" by simp
  with f have "unat (getOpaqueValue a) = unat (getOpaqueValue b)"
    using loc_split [of "getOpaqueValue a"] loc_split [of "getOpaqueValue b"] by simp
  then have "getOpaqueValue a = getOpaqueValue b" by (simp only: word_unat_eq_iff)
  then show ?thesis by (rule SourceLoc.expand)
next
  case False
  then show ?thesis using assms
    by (cases a; cases b) (auto simp: SourceLoc_toString_def strUnsigned_Some SourceLoc_isValid_def split: if_splits)
qed

section \<open>Properties\<close>

text \<open>
  For ranges whose ends are in order, \<open>overlaps\<close> holds exactly when some location lies in both.
\<close>

theorem overlaps_iff_common_location:
  assumes "range_start r \<le> range_end r" and "range_start s \<le> range_end s"
  shows "SourceRange_overlaps r s \<longleftrightarrow> (\<exists>loc. SourceRange_contains r loc \<and> SourceRange_contains s loc)"
proof
  assume "SourceRange_overlaps r s"
  then show "\<exists>loc. SourceRange_contains r loc \<and> SourceRange_contains s loc"
    using assms unfolding SourceRange_overlaps_def
    by (elim disjE) (rule exI [of _ "range_start s"], simp add: SourceRange_contains_def,
        rule exI [of _ "range_start r"], simp add: SourceRange_contains_def)
next
  assume "\<exists>loc. SourceRange_contains r loc \<and> SourceRange_contains s loc"
  then show "SourceRange_overlaps r s"
    by (auto simp: SourceRange_overlaps_def SourceRange_contains_def intro: order_trans linear)
qed

theorem overlaps_iff_common_location_witness:
  "SourceRange_overlaps \<lparr>range_start = SourceLoc 3, range_end = SourceLoc 9\<rparr> \<lparr>range_start = SourceLoc 9, range_end = SourceLoc 12\<rparr> \<longleftrightarrow>
   (\<exists>loc. SourceRange_contains \<lparr>range_start = SourceLoc 3, range_end = SourceLoc 9\<rparr> loc \<and>
          SourceRange_contains \<lparr>range_start = SourceLoc 9, range_end = SourceLoc 12\<rparr> loc)"
  by (rule overlaps_iff_common_location) (simp_all add: le_getOpaqueValue)

text \<open>
  \<open>widen\<close> computes the least range that contains both ranges: its bounds are the smaller start and
  the larger end.
\<close>

theorem widen_least:
  assumes "range_start r \<le> range_end r" and "range_start s \<le> range_end s"
  shows "(\<forall>loc. SourceRange_contains r loc \<or> SourceRange_contains s loc \<longrightarrow>
            SourceRange_contains (SourceRange_widen r s) loc) \<and>
    (\<forall>t. (\<forall>loc. SourceRange_contains r loc \<or> SourceRange_contains s loc \<longrightarrow> SourceRange_contains t loc) \<longrightarrow>
         range_start t \<le> range_start (SourceRange_widen r s) \<and> range_end (SourceRange_widen r s) \<le> range_end t)"
proof -
  have w: "range_start (SourceRange_widen r s) = min (range_start r) (range_start s)"
    "range_end (SourceRange_widen r s) = max (range_end r) (range_end s)"
    by (auto simp: SourceRange_widen_def Let_def min_def max_def)
  have "range_start t \<le> min (range_start r) (range_start s) \<and> max (range_end r) (range_end s) \<le> range_end t"
    if t: "\<forall>loc. SourceRange_contains r loc \<or> SourceRange_contains s loc \<longrightarrow> SourceRange_contains t loc" for t
    using spec [OF t, of "range_start r"] spec [OF t, of "range_start s"]
      spec [OF t, of "range_end r"] spec [OF t, of "range_end s"] assms
    by (simp add: SourceRange_contains_def)
  then show ?thesis by (auto simp: w SourceRange_contains_def min_le_iff_disj le_max_iff_disj)
qed

theorem widen_least_witness:
  "SourceRange_contains (SourceRange_widen \<lparr>range_start = SourceLoc 3, range_end = SourceLoc 9\<rparr>
     \<lparr>range_start = SourceLoc 20, range_end = SourceLoc 22\<rparr>) (SourceLoc 4)"
  by (rule widen_least [THEN conjunct1, rule_format])
     (simp_all add: le_getOpaqueValue SourceRange_contains_def)

text \<open>
  A range made from a start and a length exists exactly when the start is valid, the length is not
  zero and the end stays below 2 to the 24, and then it holds exactly the \<open>len\<close> locations from the
  start on, with no wrap-around.
\<close>

theorem ofLength_contains:
  "(CharSourceRange_ofLength start len tok \<noteq> None \<longleftrightarrow>
      SourceLoc_isValid start \<and> 0 < unat len \<and> unat (getOpaqueValue start) + unat len \<le> 0xFFFFFF) \<and>
   (CharSourceRange_ofLength start len tok = Some r \<longrightarrow>
      CharSourceRange_length r = len \<and>
      (CharSourceRange_contains r loc \<longleftrightarrow>
         unat (getOpaqueValue loc) \<in> {unat (getOpaqueValue start) ..< unat (getOpaqueValue start) + unat len}))"
proof (intro conjI impI)
  show "CharSourceRange_ofLength start len tok \<noteq> None \<longleftrightarrow>
      SourceLoc_isValid start \<and> 0 < unat len \<and> unat (getOpaqueValue start) + unat len \<le> 0xFFFFFF"
    using computeEnd_iff [of start len] by (auto simp: CharSourceRange_ofLength_def)
  assume "CharSourceRange_ofLength start len tok = Some r"
  then have v: "SourceLoc_isValid start" "0 < unat len" "unat (getOpaqueValue start) + unat len \<le> 0xFFFFFF"
    and r: "r = \<lparr>char_start = start, char_end = SourceLoc (getOpaqueValue start + len), isTokenRange = tok\<rparr>"
    by (auto simp: CharSourceRange_ofLength_def computeEnd_iff)
  then have s: "unat (getOpaqueValue start + len) = unat (getOpaqueValue start) + unat len"
    by (simp add: unat_word_ariths)
  with v have "getOpaqueValue start + len \<noteq> 0" by (metis add_is_0 less_numeral_extra(3) unat_0)
  then show "CharSourceRange_length r = len"
    using v(1) by (simp add: CharSourceRange_length_def r SourceLoc_isValid_def)
  show "CharSourceRange_contains r loc \<longleftrightarrow>
      unat (getOpaqueValue loc) \<in> {unat (getOpaqueValue start) ..< unat (getOpaqueValue start) + unat len}"
    by (simp add: CharSourceRange_contains_def r le_getOpaqueValue less_getOpaqueValue word_le_nat_alt
        word_less_nat_alt s)
qed

theorem ofLength_contains_witness:
  "CharSourceRange_length \<lparr>char_start = SourceLoc 7, char_end = SourceLoc 12, isTokenRange = True\<rparr> = 5 \<and>
   \<not> CharSourceRange_contains \<lparr>char_start = SourceLoc 7, char_end = SourceLoc 12, isTokenRange = True\<rparr> (SourceLoc 12)"
proof -
  have "CharSourceRange_ofLength (SourceLoc 7) 5 True =
      Some \<lparr>char_start = SourceLoc 7, char_end = SourceLoc 12, isTokenRange = True\<rparr>"
    by (simp add: CharSourceRange_ofLength_def computeEnd_def SourceLoc_isValid_def)
  then show ?thesis
    using ofLength_contains [of "SourceLoc 7" 5 True "\<lparr>char_start = SourceLoc 7, char_end = SourceLoc 12, isTokenRange = True\<rparr>"
        "SourceLoc 12"] by simp
qed

text \<open>
  The bound of \<open>computeEnd\<close> is meant for the 24-bit offset but is applied to the whole value: for a
  location of any file but the one with id 0, no range of any length and no virtual file exists.
\<close>

theorem no_range_outside_file_zero:
  assumes "drop_bit 24 (getOpaqueValue loc) \<noteq> 0"
  shows "computeEnd loc len = None \<and> createVirtualFile sm loc name lineOffset len = None"
proof -
  have "0 < unat (drop_bit 24 (getOpaqueValue loc))" using assms by (simp add: unat_gt_0)
  then have "2 ^ 24 \<le> unat (getOpaqueValue loc)"
    using loc_split [of "getOpaqueValue loc"] by (cases "unat (drop_bit 24 (getOpaqueValue loc))") simp_all
  then have "computeEnd loc len = None"
    using computeEnd_iff [of loc len] by (cases "computeEnd loc len") auto
  then show ?thesis by (simp add: createVirtualFile_def CharSourceRange_ofLength_def)
qed

theorem no_range_outside_file_zero_witness:
  "computeEnd (SourceLoc 0x01000005) 1 = None \<and>
   createVirtualFile SourceManager_new (SourceLoc 0x01000005) ''a'' 0 1 = None"
  by (rule no_range_outside_file_zero) simp

text \<open>
  Printing a location never fails and loses nothing: two locations with the same text are equal.
\<close>

theorem toString_injective:
  "SourceLoc_toString a \<noteq> None \<and> (SourceLoc_toString a = SourceLoc_toString b \<longrightarrow> a = b)"
  using SourceLoc_text_inject [of a b] by (auto simp: SourceLoc_toString_def strUnsigned_Some)

theorem toString_injective_witness:
  "SourceLoc_toString (SourceLoc 5) \<noteq> None \<and> SourceLoc_toString (SourceLoc 5) \<noteq> SourceLoc_toString (SourceLoc 6)"
  using toString_injective [of "SourceLoc 5" "SourceLoc 6"] by auto

text \<open>
  \<open>createVirtualFile\<close> appends one file whose range starts at the given location and has the given
  length, and keeps the files before it.
\<close>

theorem createVirtualFile_appends:
  assumes "createVirtualFile sm loc name lineOffset len = Some sm'"
  shows "\<exists>vf. virtualFiles sm' = virtualFiles sm @ [vf] \<and> vf_name vf = name \<and> vf_lineOffset vf = lineOffset \<and>
    char_start (vf_range vf) = loc \<and> CharSourceRange_length (vf_range vf) = len \<and>
    regexLiteralStartLocs sm' = regexLiteralStartLocs sm"
proof -
  from assms obtain r where r: "CharSourceRange_ofLength loc len True = Some r"
    and s: "sm' = sm\<lparr>virtualFiles := virtualFiles sm @ [\<lparr>vf_range = r, vf_name = name, vf_lineOffset = lineOffset\<rparr>]\<rparr>"
    by (auto simp: createVirtualFile_def bind_eq_Some_conv Let_def)
  from r have v: "SourceLoc_isValid loc" "0 < unat len" "unat (getOpaqueValue loc) + unat len \<le> 0xFFFFFF"
    and r': "r = \<lparr>char_start = loc, char_end = SourceLoc (getOpaqueValue loc + len), isTokenRange = True\<rparr>"
    by (auto simp: CharSourceRange_ofLength_def computeEnd_iff)
  then have "unat (getOpaqueValue loc + len) = unat (getOpaqueValue loc) + unat len"
    by (simp add: unat_word_ariths)
  with v have "getOpaqueValue loc + len \<noteq> 0" by (metis add_is_0 less_numeral_extra(3) unat_0)
  then have "CharSourceRange_length r = len" using v(1) by (simp add: CharSourceRange_length_def r' SourceLoc_isValid_def)
  then show ?thesis by (simp add: s r')
qed

theorem createVirtualFile_appends_witness:
  "\<exists>sm'. createVirtualFile SourceManager_new (SourceLoc 5) ''a.zom'' 2 10 = Some sm' \<and>
     (\<exists>vf. virtualFiles sm' = virtualFiles SourceManager_new @ [vf] \<and> vf_name vf = ''a.zom'')"
proof -
  obtain sm' where "createVirtualFile SourceManager_new (SourceLoc 5) ''a.zom'' 2 10 = Some sm'"
    by (simp add: createVirtualFile_def CharSourceRange_ofLength_def computeEnd_def SourceLoc_isValid_def)
  with createVirtualFile_appends [OF this] show ?thesis by blast
qed

end
