(* ===== verification/Diagnostics.thy ===== *)
theory Diagnostics
  imports Source_Location
begin

text \<open>
  The diagnostics of the compiler (\<open>compiler/diagnostics\<close>): the diagnostic values, the state that
  tracks errors and ignored ids, the engine that hands a diagnostic to its consumers, and the
  diagnostic in flight that is emitted at the latest by its destructor.

  A consumer is an interface the repository does not implement; the model keeps for each the list of
  the calls of \<open>handleDiagnostic\<close> it has received. An access outside a \<open>zc::Vector\<close> is \<open>None\<close>.
\<close>

section \<open>Diagnostics\<close>

datatype DiagnosticKind = kNote | kRemark | kWarning | kError | kFatal

record FixIt =
  fix_range :: CharSourceRange
  replacementText :: string

datatype Diagnostic =
  Diagnostic (diag_kind: DiagnosticKind) (diag_id: uint32) (diag_message: string)
    (diag_location: CharSourceRange) (diag_category: string)
    (childDiagnostics: "Diagnostic list") (fixIts: "FixIt list")

definition Diagnostic_make :: "DiagnosticKind \<Rightarrow> uint32 \<Rightarrow> string \<Rightarrow> CharSourceRange \<Rightarrow> Diagnostic" where
  "Diagnostic_make kind i message location = Diagnostic kind i message location '''' [] []"

text \<open>The bodies of these two functions are empty in \<open>diagnostic.cc\<close>.\<close>

definition addChildDiagnostic :: "Diagnostic \<Rightarrow> Diagnostic \<Rightarrow> Diagnostic" where
  "addChildDiagnostic d child = d"

definition addFixIt :: "Diagnostic \<Rightarrow> FixIt \<Rightarrow> Diagnostic" where
  "addFixIt d fixIt = d"

fun setCategory :: "Diagnostic \<Rightarrow> string \<Rightarrow> Diagnostic" where
  "setCategory (Diagnostic k i m l c children fixes) category = Diagnostic k i m l category children fixes"

text \<open>What the defaulted move constructor leaves behind: strings and vectors are emptied.\<close>

fun movedFrom :: "Diagnostic \<Rightarrow> Diagnostic" where
  "movedFrom (Diagnostic k i m l c children fixes) = Diagnostic k i '''' l '''' [] []"

section \<open>State\<close>

record DiagnosticState =
  showDiagnosticsAfterFatalError :: bool
  suppressWarnings :: bool
  hadAnyError :: bool
  ignoredDiagnostics :: "bool list"

definition kNumDiags :: uint32 where
  "kNumDiags = 1000"

text \<open>\<open>Vector(capacity)\<close> reserves space and has no element.\<close>

definition vectorWithCapacity :: "uint32 \<Rightarrow> 'a list" where
  "vectorWithCapacity capacity = []"

definition DiagnosticState_new :: DiagnosticState where
  "DiagnosticState_new =
     \<lparr>showDiagnosticsAfterFatalError = False, suppressWarnings = False, hadAnyError = False,
      ignoredDiagnostics = vectorWithCapacity kNumDiags\<rparr>"

definition ignoreDiagnostic :: "DiagnosticState \<Rightarrow> uint32 \<Rightarrow> DiagnosticState option" where
  "ignoreDiagnostic s diagId =
     (if diagId < kNumDiags then
        (if unat diagId < length (ignoredDiagnostics s)
         then Some (s\<lparr>ignoredDiagnostics := (ignoredDiagnostics s)[unat diagId := True]\<rparr>) else None)
      else Some s)"

definition isDiagnosticIgnored :: "DiagnosticState \<Rightarrow> uint32 \<Rightarrow> bool option" where
  "isDiagnosticIgnored s diagId =
     (if diagId < kNumDiags then
        (if unat diagId < length (ignoredDiagnostics s)
         then Some (ignoredDiagnostics s ! unat diagId) else None)
      else Some False)"

definition setHadAnyError :: "DiagnosticState \<Rightarrow> DiagnosticState" where
  "setHadAnyError s = s\<lparr>hadAnyError := True\<rparr>"

definition setSuppressWarnings :: "DiagnosticState \<Rightarrow> bool \<Rightarrow> DiagnosticState" where
  "setSuppressWarnings s v = s\<lparr>suppressWarnings := v\<rparr>"

definition setShowDiagnosticsAfterFatalError :: "DiagnosticState \<Rightarrow> bool \<Rightarrow> DiagnosticState" where
  "setShowDiagnosticsAfterFatalError s v = s\<lparr>showDiagnosticsAfterFatalError := v\<rparr>"

section \<open>Engine\<close>

type_synonym consumer = "(SourceLoc \<times> Diagnostic) list"

record DiagnosticEngine =
  consumers :: "consumer list"
  engine_state :: DiagnosticState

definition DiagnosticEngine_new :: DiagnosticEngine where
  "DiagnosticEngine_new = \<lparr>consumers = [], engine_state = DiagnosticState_new\<rparr>"

definition addConsumer :: "DiagnosticEngine \<Rightarrow> consumer \<Rightarrow> DiagnosticEngine" where
  "addConsumer e c = e\<lparr>consumers := consumers e @ [c]\<rparr>"

definition engine_emit :: "SourceLoc \<Rightarrow> Diagnostic \<Rightarrow> DiagnosticEngine \<Rightarrow> DiagnosticEngine" where
  "engine_emit loc d e =
     (let e = (if diag_kind d = kError then e\<lparr>engine_state := setHadAnyError (engine_state e)\<rparr> else e)
      in e\<lparr>consumers := map (\<lambda>received. received @ [(loc, d)]) (consumers e)\<rparr>)"

definition hasErrors :: "DiagnosticEngine \<Rightarrow> bool" where
  "hasErrors e = hadAnyError (engine_state e)"

section \<open>Diagnostics in flight\<close>

record InFlightDiagnostic =
  if_loc :: SourceLoc
  if_diag :: Diagnostic
  emitted :: bool

definition InFlight_new :: "SourceLoc \<Rightarrow> Diagnostic \<Rightarrow> InFlightDiagnostic" where
  "InFlight_new loc d = \<lparr>if_loc = loc, if_diag = d, emitted = False\<rparr>"

definition InFlight_emit ::
    "InFlightDiagnostic \<times> DiagnosticEngine \<Rightarrow> InFlightDiagnostic \<times> DiagnosticEngine" where
  "InFlight_emit p =
     (case p of (f, e) \<Rightarrow>
        if \<not> emitted f then (f\<lparr>emitted := True\<rparr>, engine_emit (if_loc f) (if_diag f) e) else (f, e))"

definition InFlight_addFixIt :: "FixIt \<Rightarrow> InFlightDiagnostic \<Rightarrow> InFlightDiagnostic" where
  "InFlight_addFixIt fixIt f = f\<lparr>if_diag := addFixIt (if_diag f) fixIt\<rparr>"

definition InFlight_destroy :: "InFlightDiagnostic \<Rightarrow> DiagnosticEngine \<Rightarrow> DiagnosticEngine" where
  "InFlight_destroy f e = (if \<not> emitted f then snd (InFlight_emit (f, e)) else e)"

text \<open>The defaulted move constructor: the new object, and what is left of the old one.\<close>

definition InFlight_move :: "InFlightDiagnostic \<Rightarrow> InFlightDiagnostic \<times> InFlightDiagnostic" where
  "InFlight_move f = (f, f\<lparr>if_diag := movedFrom (if_diag f)\<rparr>)"

text \<open>The calls a client makes on a diagnostic in flight before it goes out of scope.\<close>

datatype in_flight_call = CallEmit | CallAddFixIt FixIt

fun runCall :: "in_flight_call \<Rightarrow> InFlightDiagnostic \<times> DiagnosticEngine \<Rightarrow> InFlightDiagnostic \<times> DiagnosticEngine" where
  "runCall CallEmit p = InFlight_emit p"
| "runCall (CallAddFixIt fixIt) (f, e) = (InFlight_addFixIt fixIt f, e)"

section \<open>Lemmas\<close>

lemma engine_emit_fields:
  "consumers (engine_emit loc d e) = map (\<lambda>received. received @ [(loc, d)]) (consumers e)"
  "hasErrors (engine_emit loc d e) \<longleftrightarrow> hasErrors e \<or> diag_kind d = kError"
  "ignoredDiagnostics (engine_state (engine_emit loc d e)) = ignoredDiagnostics (engine_state e)"
  by (simp_all add: engine_emit_def Let_def hasErrors_def setHadAnyError_def)

lemma runCalls_state:
  "fold runCall calls (f, e) =
     (if \<not> emitted f \<and> CallEmit \<in> set calls then (f\<lparr>emitted := True\<rparr>, engine_emit (if_loc f) (if_diag f) e)
      else (f, e))"
proof (induction calls arbitrary: f e)
  case (Cons c calls)
  then show ?case by (cases c) (simp_all add: InFlight_emit_def InFlight_addFixIt_def addFixIt_def)
qed simp

section \<open>Properties\<close>


text \<open>
  A diagnostic in flight reaches the engine exactly once: whatever its owner calls on it, when it has
  been destroyed the engine is as if the diagnostic had been emitted one time.
\<close>

theorem in_flight_emitted_once:
  "(case fold runCall calls (InFlight_new loc d, e) of (f, e') \<Rightarrow> InFlight_destroy f e') = engine_emit loc d e"
  by (simp add: runCalls_state InFlight_new_def InFlight_destroy_def InFlight_emit_def)

text \<open>
  Moving a diagnostic in flight breaks this: the moved-from object still counts as not emitted, so
  the two destructors report the diagnostic once more, the second time without its message.
\<close>

theorem in_flight_move_emits_twice:
  "(case InFlight_move (InFlight_new loc d) of (new, old) \<Rightarrow> InFlight_destroy old (InFlight_destroy new e)) =
     engine_emit loc (movedFrom d) (engine_emit loc d e) \<and> diag_message (movedFrom d) = ''''"
  by (cases d) (simp add: InFlight_move_def InFlight_new_def InFlight_destroy_def InFlight_emit_def)

text \<open>
  The vector of ignored diagnostics is created with a capacity and stays empty: from the initial
  state, whatever is emitted, asking for or ignoring any id below \<open>kNumDiags\<close> is out of bounds.
\<close>

theorem ignored_out_of_bounds:
  assumes "diagId < kNumDiags"
  shows "ignoreDiagnostic (engine_state (fold (\<lambda>(loc, d). engine_emit loc d) ds DiagnosticEngine_new)) diagId = None \<and>
    isDiagnosticIgnored (engine_state (fold (\<lambda>(loc, d). engine_emit loc d) ds DiagnosticEngine_new)) diagId = None"
proof -
  have "ignoredDiagnostics (engine_state (fold (\<lambda>(loc, d). engine_emit loc d) ds e)) = ignoredDiagnostics (engine_state e)" for e
    by (induction ds arbitrary: e) (auto simp: engine_emit_fields)
  then show ?thesis
    using assms by (simp add: ignoreDiagnostic_def isDiagnosticIgnored_def DiagnosticEngine_new_def
        DiagnosticState_new_def vectorWithCapacity_def)
qed

theorem ignored_out_of_bounds_witness:
  "ignoreDiagnostic (engine_state (fold (\<lambda>(loc, d). engine_emit loc d) [] DiagnosticEngine_new)) 7 = None \<and>
   isDiagnosticIgnored (engine_state (fold (\<lambda>(loc, d). engine_emit loc d) [] DiagnosticEngine_new)) 7 = None"
  by (rule ignored_out_of_bounds) (simp add: kNumDiags_def)

text \<open>
  A fatal diagnostic is not counted as an error: an engine that has only emitted fatal diagnostics
  reports no errors.
\<close>

theorem fatal_is_not_an_error:
  "\<not> hasErrors (fold (\<lambda>loc. engine_emit loc (Diagnostic_make kFatal i m l)) locs DiagnosticEngine_new)"
proof -
  have "hasErrors (fold (\<lambda>loc. engine_emit loc (Diagnostic_make kFatal i m l)) locs e) = hasErrors e" for e
    by (induction locs arbitrary: e) (simp_all add: engine_emit_fields Diagnostic_make_def)
  then show ?thesis by (simp add: hasErrors_def DiagnosticEngine_new_def DiagnosticState_new_def)
qed

end
