(* ===== verification/Zc_Path.thy ===== *)
theory Zc_Path
  imports Prelude
begin

text \<open>
  \<open>zc::Path\<close> and \<open>zc::PathPtr\<close>, the first part of \<open>zc/core/filesystem.cc\<close>: canonical paths as lists
  of components, their Unix and Windows syntax.

  A path is the list of its components. An operation that throws (\<open>ZC_REQUIRE\<close>) returns \<open>Inl\<close> with
  the reason, as it does in a build with exceptions. Strings are lists of characters that may
  contain NUL; \<open>strlen(s) == s.size()\<close> says that one does not. The formatted strings are written
  into a buffer of a size computed beforehand; the assertion that it is filled is part of the model.
\<close>

type_synonym path = "string list"

datatype path_error =
    ExpectedRelative | InvalidComponent | NulInComponent | SlashInComponent | BreaksOut
  | NoBasename | NoParent | MissingDisk | NotWin32Root | DosReserved | ColonProhibited
  | RequiresAbsolute | NoDriveLetter | AssertionFailed

type_synonym 'a throws = "path_error + 'a"

definition throwIf :: "bool \<Rightarrow> path_error \<Rightarrow> unit throws" where
  "throwIf b e = (if b then Inl e else Inr ())"

fun andThen :: "'a throws \<Rightarrow> ('a \<Rightarrow> 'b throws) \<Rightarrow> 'b throws" where
  "andThen (Inl e) f = Inl e"
| "andThen (Inr x) f = f x"

section \<open>Components\<close>

definition hasNul :: "string \<Rightarrow> bool" where
  "hasNul s \<longleftrightarrow> CHR 0x00 \<in> set s"

definition validatePart :: "string \<Rightarrow> unit throws" where
  "validatePart part =
     andThen (throwIf (part = '''' \<or> part = ''.'' \<or> part = ''..'') InvalidComponent) (\<lambda>_.
     andThen (throwIf (hasNul part) NulInComponent) (\<lambda>_.
     throwIf (CHR ''/'' \<in> set part) SlashInComponent))"

text \<open>The constructors from a name and from an array of names validate every component.\<close>

fun validateParts :: "string list \<Rightarrow> path throws" where
  "validateParts [] = Inr []"
| "validateParts (p # ps) =
     andThen (validatePart p) (\<lambda>_. andThen (validateParts ps) (\<lambda>ps. Inr (p # ps)))"

definition Path_name :: "string \<Rightarrow> path throws" where
  "Path_name name = validateParts [name]"

section \<open>Unix syntax\<close>

definition evalPart :: "path \<Rightarrow> string \<Rightarrow> path throws" where
  "evalPart parts part =
     (if part = '''' then Inr parts
      else if part = ''.'' then Inr parts
      else if part = ''..'' then (if parts = [] then Inl BreaksOut else Inr (butlast parts))
      else if hasNul part then Inl NulInComponent
      else Inr (parts @ [part]))"

text \<open>The loop over the text: \<open>cur\<close> is \<open>path.slice(partStart, i)\<close>, \<open>rest\<close> the text from \<open>i\<close> on.\<close>

fun evalLoop :: "char \<Rightarrow> path \<Rightarrow> string \<Rightarrow> string \<Rightarrow> path throws" where
  "evalLoop sep parts cur [] = evalPart parts cur"
| "evalLoop sep parts cur (c # rest) =
     (if c = sep then andThen (evalPart parts cur) (\<lambda>parts. evalLoop sep parts [] rest)
      else evalLoop sep parts (cur @ [c]) rest)"

definition evalImpl :: "path \<Rightarrow> string \<Rightarrow> path throws" where
  "evalImpl parts path =
     evalLoop CHR ''/'' (if startsWithChars path ''/'' then [] else parts) [] path"

definition Path_parse :: "string \<Rightarrow> path throws" where
  "Path_parse path =
     andThen (throwIf (startsWithChars path ''/'') ExpectedRelative) (\<lambda>_. evalImpl [] path)"

definition Path_append :: "path \<Rightarrow> path \<Rightarrow> path" where
  "Path_append parts suffix = parts @ suffix"

definition Path_eval :: "path \<Rightarrow> string \<Rightarrow> path throws" where
  "Path_eval parts pathText =
     (if startsWithChars pathText ''/'' then evalImpl [] pathText else evalImpl parts pathText)"

definition Path_basename :: "path \<Rightarrow> path throws" where
  "Path_basename parts = (if parts = [] then Inl NoBasename else Inr (drop (length parts - 1) parts))"

definition Path_parent :: "path \<Rightarrow> path throws" where
  "Path_parent parts = (if parts = [] then Inl NoParent else Inr (take (length parts - 1) parts))"

fun joinParts :: "char \<Rightarrow> bool \<Rightarrow> path \<Rightarrow> string" where
  "joinParts sep leadingSlash [] = []"
| "joinParts sep leadingSlash (p # ps) =
     (if leadingSlash then [sep] else []) @ p @ joinParts sep True ps"

definition Path_toString :: "path \<Rightarrow> bool \<Rightarrow> string throws" where
  "Path_toString parts absolute =
     (if parts = [] then Inr (if absolute then ''/'' else ''.'')
      else let bufferSize = (if absolute then 1 else 0) + (length parts - 1) + sum_list (map length parts);
               result = joinParts CHR ''/'' absolute parts
           in if length result = bufferSize then Inr result else Inl AssertionFailed)"

text \<open>The rvalue \<open>slice\<close> constructs the result with the validating constructor.\<close>

definition PathPtr_slice :: "path \<Rightarrow> nat \<Rightarrow> nat \<Rightarrow> path" where
  "PathPtr_slice parts start finish = take (finish - start) (drop start parts)"

definition Path_slice :: "path \<Rightarrow> nat \<Rightarrow> nat \<Rightarrow> path throws" where
  "Path_slice parts start finish = validateParts (PathPtr_slice parts start finish)"

definition Path_startsWith :: "path \<Rightarrow> path \<Rightarrow> bool" where
  "Path_startsWith parts prefix \<longleftrightarrow>
     length parts \<ge> length prefix \<and> take (length prefix) parts = prefix"

definition Path_endsWith :: "path \<Rightarrow> path \<Rightarrow> bool" where
  "Path_endsWith parts suffix \<longleftrightarrow>
     length parts \<ge> length suffix \<and>
     PathPtr_slice parts (length parts - length suffix) (length parts) = suffix"

text \<open>\<open>strcmp\<close> compares bytes as unsigned characters; -1, 0 and 1 stand for its sign.\<close>

fun strcmp :: "string \<Rightarrow> string \<Rightarrow> int" where
  "strcmp [] [] = 0"
| "strcmp [] (y # ys) = -1"
| "strcmp (x # xs) [] = 1"
| "strcmp (x # xs) (y # ys) = (if x < y then -1 else if y < x then 1 else strcmp xs ys)"

fun Path_less :: "path \<Rightarrow> path \<Rightarrow> bool" where
  "Path_less (p # ps) (q # qs) =
     (if strcmp p q < 0 then True else if strcmp p q > 0 then False else Path_less ps qs)"
| "Path_less ps qs = (length ps < length qs)"

definition countParts :: "string \<Rightarrow> nat" where
  "countParts path = 1 + length (filter (\<lambda>c. c = CHR ''/'') path)"

section \<open>Windows syntax\<close>

definition isLetter :: "char \<Rightarrow> bool" where
  "isLetter c \<longleftrightarrow> (CHR ''a'' \<le> c \<and> c \<le> CHR ''z'') \<or> (CHR ''A'' \<le> c \<and> c \<le> CHR ''Z'')"

definition isWin32Drive :: "string \<Rightarrow> bool" where
  "isWin32Drive part \<longleftrightarrow> length part = 2 \<and> part ! 1 = CHR '':'' \<and> isLetter (part ! 0)"

definition isNetbiosName :: "string \<Rightarrow> bool" where
  "isNetbiosName part \<longleftrightarrow>
     (\<forall>c \<in> set part. c = CHR ''.'' \<or> c = CHR ''-'' \<or> isLetter c \<or> (CHR ''0'' \<le> c \<and> c \<le> CHR ''9'')) \<and>
     part \<noteq> [] \<and> part ! 0 \<noteq> CHR ''.'' \<and> part ! 0 \<noteq> CHR ''-'' \<and>
     part ! (length part - 1) \<noteq> CHR ''.'' \<and> part ! (length part - 1) \<noteq> CHR ''-''"

definition lowerAscii :: "char \<Rightarrow> char" where
  "lowerAscii c = (if CHR ''A'' \<le> c \<and> c \<le> CHR ''Z'' then char_of (of_char c + (32 :: nat)) else c)"

definition isWin32Special :: "string \<Rightarrow> bool" where
  "isWin32Special part =
     (let str = map lowerAscii (take 3 part)
      in if length part = 3 \<or> (length part > 3 \<and> part ! 3 = CHR ''.'') then
           str = ''con'' \<or> str = ''prn'' \<or> str = ''aux'' \<or> str = ''nul''
         else if (length part = 4 \<or> (length part > 4 \<and> part ! 4 = CHR ''.'')) \<and>
             CHR ''1'' \<le> part ! 3 \<and> part ! 3 \<le> CHR ''9'' then
           str = ''com'' \<or> str = ''lpt''
         else False)"

abbreviation backslash :: char where "backslash \<equiv> CHR 0x5c"

text \<open>The forms of absolute paths: the components kept and the text left to evaluate.\<close>

definition win32Prefix :: "path \<Rightarrow> string \<Rightarrow> bool \<Rightarrow> (path \<times> string) throws" where
  "win32Prefix parts path fromApi =
     (if fromApi \<and> startsWithChars path [backslash, backslash, CHR ''?'', backslash] then
        (let path = drop 4 path
         in Inr ([], if startsWithChars path (''UNC'' @ [backslash]) then drop 4 path else path))
      else if startsWithChars path [backslash, backslash] then Inr ([], drop 2 path)
      else if startsWithChars path [backslash] then
        andThen (throwIf fromApi RequiresAbsolute) (\<lambda>_.
          if length parts \<ge> 1 \<and> isWin32Drive (parts ! 0) then Inr (take 1 parts, path)
          else if length parts \<ge> 2 then Inr (take 2 parts, path)
          else Inl NoDriveLetter)
      else if (length path = 2 \<or> (length path > 2 \<and> path ! 2 = backslash)) \<and>
          isWin32Drive (take 2 path) then Inr ([], path)
      else andThen (throwIf fromApi RequiresAbsolute) (\<lambda>_. Inr (parts, path)))"

definition evalWin32Impl :: "path \<Rightarrow> string \<Rightarrow> bool \<Rightarrow> path throws" where
  "evalWin32Impl parts path fromApi =
     (let path = (if \<not> fromApi \<and> CHR ''/'' \<in> set path
                  then map (\<lambda>c. if c = CHR ''/'' then backslash else c) path else path)
      in andThen (win32Prefix parts path fromApi) (\<lambda>(parts, path). evalLoop backslash parts [] path))"

definition Path_evalWin32 :: "path \<Rightarrow> string \<Rightarrow> path throws" where
  "Path_evalWin32 parts pathText = evalWin32Impl parts pathText False"

text \<open>The components written with their separators; a DOS reserved name is an error.\<close>

definition win32Colon :: "bool \<Rightarrow> bool \<Rightarrow> string \<Rightarrow> bool" where
  "win32Colon absolute forApi result \<longleftrightarrow>
     (\<exists>i < length result. result ! i = CHR '':'' \<and> \<not> (absolute \<and> i = (if forApi then 5 else 1)))"

definition toWin32StringImpl :: "path \<Rightarrow> bool \<Rightarrow> bool \<Rightarrow> string throws" where
  "toWin32StringImpl parts absolute forApi =
     (if parts = [] then andThen (throwIf absolute MissingDisk) (\<lambda>_. Inr ''.'')
      else
        andThen (if absolute then
                   (if isWin32Drive (parts ! 0) then Inr (False, forApi)
                    else if isNetbiosName (parts ! 0) then Inr (True, forApi)
                    else Inl NotWin32Root)
                 else Inr (False, False)) (\<lambda>(isUncPath, forApi).
        let bufferSize = (if forApi then (if isUncPath then 8 else 4) else (if isUncPath then 2 else 0)) +
                (length parts - 1) + sum_list (map length parts);
            prefix = (if forApi then [backslash, backslash, CHR ''?'', backslash] @
                         (if isUncPath then ''UNC'' @ [backslash] else [])
                      else if isUncPath then [backslash, backslash] else []);
            result = prefix @ joinParts backslash False parts
        in andThen (throwIf (\<exists>p \<in> set parts. isWin32Special p) DosReserved) (\<lambda>_.
           andThen (throwIf (length result \<noteq> bufferSize) AssertionFailed) (\<lambda>_.
           andThen (throwIf (win32Colon absolute forApi result) ColonProhibited) (\<lambda>_.
           Inr result)))))"

definition Path_toWin32String :: "path \<Rightarrow> bool \<Rightarrow> string throws" where
  "Path_toWin32String parts absolute = toWin32StringImpl parts absolute False"

section \<open>Splitting and joining\<close>

fun splitOn :: "char \<Rightarrow> string \<Rightarrow> string \<Rightarrow> string list" where
  "splitOn sep cur [] = [cur]"
| "splitOn sep cur (c # rest) = (if c = sep then cur # splitOn sep [] rest else splitOn sep (cur @ [c]) rest)"

fun evalParts :: "path \<Rightarrow> string list \<Rightarrow> path throws" where
  "evalParts parts [] = Inr parts"
| "evalParts parts (q # qs) = andThen (evalPart parts q) (\<lambda>parts. evalParts parts qs)"

lemma andThen_Inr [simp]: "andThen x Inr = x"
  by (cases x) simp_all

lemma andThen_assoc: "andThen (andThen x f) g = andThen x (\<lambda>y. andThen (f y) g)"
  by (cases x) simp_all

lemma andThen_eq_Inr: "andThen x f = Inr y \<longleftrightarrow> (\<exists>z. x = Inr z \<and> f z = Inr y)"
  by (cases x) simp_all

lemma throwIf_eq_Inr [simp]: "throwIf b e = Inr u \<longleftrightarrow> \<not> b"
  by (simp add: throwIf_def)

lemma evalLoop_parts: "evalLoop sep parts cur s = evalParts parts (splitOn sep cur s)"
  by (induction sep parts cur s rule: evalLoop.induct) (auto cong: arg_cong [of _ _ "andThen _"])

lemma evalParts_append: "evalParts parts (xs @ ys) = andThen (evalParts parts xs) (\<lambda>parts. evalParts parts ys)"
  by (induction parts xs rule: evalParts.induct) (simp_all add: andThen_assoc)

lemma splitOn_append: "splitOn sep cur (s @ sep # t) = splitOn sep cur s @ splitOn sep [] t"
  by (induction sep cur s rule: splitOn.induct) auto

lemma splitOn_word: "sep \<notin> set p \<Longrightarrow> splitOn sep cur p = [cur @ p]"
  by (induction sep cur p rule: splitOn.induct) auto

lemma splitOn_parts:
  assumes "\<forall>p \<in> set ps. sep \<notin> set p"
  shows "splitOn sep cur (joinParts sep True ps) = cur # ps"
  using assms
proof (induction ps arbitrary: cur)
  case (Cons p ps)
  then have "splitOn sep cur (joinParts sep True (p # ps)) = cur # splitOn sep [] (p @ joinParts sep True ps)" by simp
  also have "splitOn sep [] (p @ joinParts sep True ps) = p # ps"
  proof (cases ps)
    case Nil
    then show ?thesis using Cons.prems by (simp add: splitOn_word)
  next
    case (Cons q qs)
    with Cons.prems Cons.IH [of p] show ?thesis
      by (simp add: splitOn_append splitOn_word)
  qed
  finally show ?case .
qed simp

section \<open>Canonical paths\<close>

definition validPart :: "string \<Rightarrow> bool" where
  "validPart p \<longleftrightarrow> p \<noteq> '''' \<and> p \<noteq> ''.'' \<and> p \<noteq> ''..'' \<and> \<not> hasNul p \<and> CHR ''/'' \<notin> set p"

definition canonical :: "path \<Rightarrow> bool" where
  "canonical parts \<longleftrightarrow> (\<forall>p \<in> set parts. validPart p)"

lemma validatePart_iff: "validatePart p = Inr u \<longleftrightarrow> validPart p"
  by (auto simp: validatePart_def validPart_def andThen_eq_Inr)

lemma validateParts_iff: "validateParts ps = Inr qs \<longleftrightarrow> canonical ps \<and> qs = ps"
  by (induction ps arbitrary: qs) (auto simp: canonical_def andThen_eq_Inr validatePart_iff)

lemma canonical_simps [simp]:
  "canonical []" "canonical (p # ps) \<longleftrightarrow> validPart p \<and> canonical ps"
  "canonical (ps @ qs) \<longleftrightarrow> canonical ps \<and> canonical qs"
  by (auto simp: canonical_def)

lemma canonical_take_drop: "canonical ps \<Longrightarrow> canonical (take n ps)" "canonical ps \<Longrightarrow> canonical (drop n ps)"
  "canonical ps \<Longrightarrow> canonical (butlast ps)"
  by (auto simp: canonical_def dest: in_set_takeD in_set_dropD in_set_butlastD)

lemma evalPart_valid [simp]: "validPart p \<Longrightarrow> evalPart parts p = Inr (parts @ [p])"
  by (simp add: evalPart_def validPart_def)

lemma evalParts_valid: "canonical ps \<Longrightarrow> evalParts parts ps = Inr (parts @ ps)"
  by (induction ps arbitrary: parts) simp_all

lemma evalPart_canonical:
  "evalPart parts p = Inr q \<Longrightarrow> canonical parts \<Longrightarrow> CHR ''/'' \<notin> set p \<Longrightarrow> canonical q"
  by (auto simp: evalPart_def validPart_def canonical_take_drop split: if_splits)

lemma evalParts_canonical:
  "evalParts parts ps = Inr q \<Longrightarrow> canonical parts \<Longrightarrow> \<forall>p \<in> set ps. CHR ''/'' \<notin> set p \<Longrightarrow> canonical q"
  by (induction parts ps rule: evalParts.induct) (auto simp: andThen_eq_Inr dest: evalPart_canonical)

lemma splitOn_no_sep: "p \<in> set (splitOn sep cur s) \<Longrightarrow> sep \<notin> set cur \<Longrightarrow> sep \<notin> set p"
  by (induction sep cur s rule: splitOn.induct) (auto split: if_splits)

lemma splitOn_chars: "p \<in> set (splitOn sep cur s) \<Longrightarrow> set p \<subseteq> set cur \<union> set s"
  by (induction sep cur s rule: splitOn.induct) (auto split: if_splits)

lemma evalImpl_canonical:
  "evalImpl parts s = Inr q \<Longrightarrow> canonical parts \<Longrightarrow> canonical q"
  unfolding evalImpl_def evalLoop_parts
  by (erule evalParts_canonical) (auto dest: splitOn_no_sep)

lemma length_joinParts:
  "length (joinParts sep b ps) = (if b then length ps else length ps - 1) + sum_list (map length ps)"
  by (induction sep b ps rule: joinParts.induct) auto

lemma joinParts_first: "validPart p \<Longrightarrow> startsWithChars (joinParts CHR ''/'' False (p # ps)) ''/'' = False"
  by (cases p) (auto simp: validPart_def)

lemma evalLoop_join:
  assumes "canonical ps" and "\<forall>p \<in> set ps. sep \<notin> set p" and "ps \<noteq> []"
  shows "evalLoop sep parts [] (joinParts sep b ps) = Inr (parts @ ps)"
proof (cases b)
  case True
  then show ?thesis using assms by (simp add: evalLoop_parts splitOn_parts evalParts_valid evalPart_def)
next
  case False
  from assms(3) obtain q qs where ps: "ps = q # qs" by (cases ps) auto
  have "splitOn sep [] (joinParts sep True ps) = [] # ps" using assms(2) by (rule splitOn_parts)
  then have "splitOn sep [] (joinParts sep False ps) = ps" by (simp add: ps)
  then show ?thesis using False assms(1) by (simp add: evalLoop_parts evalParts_valid)
qed

lemma canonical_no_slash: "canonical ps \<Longrightarrow> \<forall>p \<in> set ps. CHR ''/'' \<notin> set p"
  by (auto simp: canonical_def validPart_def)

lemma toString_Inr:
  "Path_toString parts absolute = Inr (if parts = [] then (if absolute then ''/'' else ''.'')
     else joinParts CHR ''/'' absolute parts)"
  by (cases parts) (auto simp: Path_toString_def length_joinParts Let_def)

section \<open>Windows syntax\<close>

lemma win32Prefix_canonical:
  "win32Prefix parts s fromApi = Inr (parts', s') \<Longrightarrow> canonical parts \<Longrightarrow> canonical parts' \<and> set s' \<subseteq> set s"
  by (auto simp: win32Prefix_def andThen_eq_Inr Let_def canonical_take_drop dest: in_set_dropD split: if_splits)

lemma evalWin32_canonical:
  assumes "evalWin32Impl parts s False = Inr q" and "canonical parts"
  shows "canonical q"
proof -
  define t where "t = (if CHR ''/'' \<in> set s then map (\<lambda>c. if c = CHR ''/'' then backslash else c) s else s)"
  have t: "CHR ''/'' \<notin> set t" by (auto simp: t_def)
  from assms(1) obtain parts' s' where p: "win32Prefix parts t False = Inr (parts', s')"
    and e: "evalParts parts' (splitOn backslash [] s') = Inr q"
    by (auto simp: evalWin32Impl_def andThen_eq_Inr evalLoop_parts t_def Let_def)
  from win32Prefix_canonical [OF p assms(2)] t have "CHR ''/'' \<notin> set s'" "canonical parts'" by auto
  then have "\<forall>p \<in> set (splitOn backslash [] s'). CHR ''/'' \<notin> set p"
    using splitOn_chars [of _ backslash "[]" s'] by fastforce
  with e \<open>canonical parts'\<close> show ?thesis by (rule evalParts_canonical)
qed

lemma joinParts_chars: "set (joinParts sep b ps) \<subseteq> insert sep (\<Union> (set ` set ps))"
  by (induction sep b ps rule: joinParts.induct) auto

text \<open>What formatting checks: the kind of the first component, and no colon but the drive's.\<close>

lemma toWin32_cases:
  assumes "toWin32StringImpl parts absolute forApi = Inr s" and "parts \<noteq> []"
  obtains (drive) "absolute" "isWin32Drive (hd parts)"
      "s = (if forApi then [backslash, backslash, CHR ''?'', backslash] else []) @ joinParts backslash False parts"
  | (unc) "absolute" "\<not> isWin32Drive (hd parts)" "isNetbiosName (hd parts)"
      "s = (if forApi then [backslash, backslash, CHR ''?'', backslash] @ ''UNC'' @ [backslash] else [backslash, backslash]) @
         joinParts backslash False parts"
  | (relative) "\<not> absolute" "s = joinParts backslash False parts" "CHR '':'' \<notin> set s"
proof -
  have h: "parts ! 0 = hd parts" using assms(2) by (simp add: hd_conv_nth)
  show thesis
  proof (cases absolute)
    case True
    then show thesis using assms that(1,2)
      by (auto simp: toWin32StringImpl_def andThen_eq_Inr h Let_def split: if_splits)
  next
    case False
    then have "s = joinParts backslash False parts" "\<not> win32Colon False False s"
      using assms by (auto simp: toWin32StringImpl_def andThen_eq_Inr Let_def)
    then show thesis using False that(3) by (auto simp: win32Colon_def in_set_conv_nth)
  qed
qed

lemma startsWith_slashless:
  "sep \<notin> set p \<Longrightarrow> p \<noteq> [] \<Longrightarrow> startsWithChars (joinParts sep False (p # ps)) (sep # qs) = False"
  by (cases p) auto

lemma not_isLetter_backslash: "\<not> isLetter backslash"
  by (simp add: isLetter_def less_eq_char_def)

lemma throwIf_simps [simp]: "throwIf False e = Inr ()" "throwIf True e = Inl e"
  by (simp_all add: throwIf_def)

lemma win32Prefix_drive:
  assumes "isWin32Drive d"
  shows "win32Prefix parts (joinParts backslash False (d # ps)) False = Inr ([], joinParts backslash False (d # ps))"
proof -
  from assms obtain c where d: "d = [c, CHR '':'']" and c: "isLetter c" "c \<noteq> backslash"
    using not_isLetter_backslash
    by (cases d rule: remdups_adj.cases) (auto simp: isWin32Drive_def)
  from assms show ?thesis by (cases ps) (use c in \<open>simp_all add: win32Prefix_def d\<close>)
qed

lemma win32Prefix_relative:
  assumes "p \<noteq> []" "backslash \<notin> set p" "CHR '':'' \<notin> set (joinParts backslash False (p # ps))"
  shows "win32Prefix parts (joinParts backslash False (p # ps)) False = Inr (parts, joinParts backslash False (p # ps))"
proof -
  let ?s = "joinParts backslash False (p # ps)"
  have "\<not> isWin32Drive (take 2 ?s)"
    using assms(3) by (metis in_set_takeD isWin32Drive_def nth_mem one_less_numeral_iff semiring_norm(76))
  then show ?thesis using startsWith_slashless [OF assms(2,1), of ps] by (simp add: win32Prefix_def)
qed

lemma win32Prefix_unc:
  "win32Prefix parts ([backslash, backslash] @ s) False = Inr ([], s)"
  by (simp add: win32Prefix_def)

lemma win32Prefix_api:
  assumes "hd s \<noteq> CHR ''U''"
  shows "win32Prefix parts ([backslash, backslash, CHR ''?'', backslash] @ s) True = Inr ([], s)"
  using assms by (cases s) (auto simp: win32Prefix_def)

lemma win32Prefix_api_unc:
  "win32Prefix parts ([backslash, backslash, CHR ''?'', backslash] @ ''UNC'' @ [backslash] @ s) True = Inr ([], s)"
  by (simp add: win32Prefix_def)

lemma win32Prefix_api_drive:
  assumes "isWin32Drive d"
  shows "win32Prefix parts ([backslash, backslash, CHR ''?'', backslash] @ joinParts backslash False (d # ps)) True =
    Inr ([], joinParts backslash False (d # ps))"
  using assms by (cases d rule: remdups_adj.cases) (auto simp: win32Prefix_def isWin32Drive_def)

section \<open>The native syntax, and splitting at the current directory\<close>

text \<open>
  What the module loader needs of the platform's path syntax: evaluating user input against a
  canonical path gives a canonical path. A path is then split into a base directory, the current one
  if the path lies below it, and the rest. The loader's code asks \<open>startsWith\<close> a second time after the
  path has been moved from, which has left it empty: \<open>moved\<close> below.
\<close>

datatype baseDir = CurrentDir | RootDir

definition splitAtCwd :: "path \<Rightarrow> path \<Rightarrow> baseDir \<times> path" where
  "splitAtCwd cwd path =
     (let startsWith = Path_startsWith path cwd;
          sourcePath = (if startsWith then PathPtr_slice path (length cwd) (length path) else path);
          moved = (if startsWith then path else [])
      in (if Path_startsWith moved cwd then CurrentDir else RootDir, sourcePath))"

definition baseOf :: "path \<Rightarrow> baseDir \<Rightarrow> path" where
  "baseOf cwd d = (case d of CurrentDir \<Rightarrow> cwd | RootDir \<Rightarrow> [])"

locale native_syntax =
  fixes evalNative :: "path \<Rightarrow> string \<Rightarrow> path throws"
  assumes eval_canonical: "canonical cwd \<Longrightarrow> evalNative cwd s = Inr p \<Longrightarrow> canonical p"
begin

lemma split_resolves:
  assumes "canonical cwd" and "evalNative cwd s = Inr p" and "splitAtCwd cwd p = (d, rest)"
  shows "Path_append (baseOf cwd d) rest = p \<and> canonical rest"
proof -
  have "cwd @ drop (length cwd) p = p" if "take (length cwd) p = cwd"
    using that by (metis append_take_drop_id)
  moreover have "canonical p" using eval_canonical [OF assms(1,2)] .
  ultimately show ?thesis
    using assms(3) canonical_take_drop(2) [of p "length cwd"]
    by (auto simp: splitAtCwd_def Path_startsWith_def Path_append_def baseOf_def PathPtr_slice_def Let_def split: if_splits)
qed

end

interpretation unix: native_syntax Path_eval
  by unfold_locales (auto simp: Path_eval_def split: if_splits intro: evalImpl_canonical)

interpretation win32: native_syntax Path_evalWin32
  by unfold_locales (auto simp: Path_evalWin32_def intro: evalWin32_canonical)

section \<open>Properties\<close>

text \<open>
  C19. Paths round-trip through their Unix text: \<open>toString\<close> always returns (its buffer has the right
  size), its relative form parses to the path, and its absolute form evaluates to the path from
  every starting directory.
\<close>

theorem path_roundtrip:
  assumes "canonical parts"
  shows "andThen (Path_toString parts False) Path_parse = Inr parts \<and>
    andThen (Path_toString parts True) (Path_eval base) = Inr parts"
proof (cases parts)
  case Nil
  then show ?thesis by (simp add: toString_Inr Path_parse_def Path_eval_def evalImpl_def evalPart_def)
next
  case (Cons p ps)
  let ?j = "joinParts CHR ''/''"
  from assms Cons have "startsWithChars (?j False parts) ''/'' = False"
    using joinParts_first [of p ps] by simp
  moreover have "startsWithChars (?j True parts) ''/''" by (simp add: Cons)
  ultimately show ?thesis
    using evalLoop_join [OF assms canonical_no_slash [OF assms]] Cons
    by (simp add: toString_Inr Path_parse_def Path_eval_def evalImpl_def del: joinParts.simps evalLoop.simps)
qed

theorem path_roundtrip_witness:
  "andThen (Path_toString [''usr'', ''lib''] False) Path_parse = Inr [''usr'', ''lib''] \<and>
    andThen (Path_toString [''usr'', ''lib''] True) (Path_eval [''home'']) = Inr [''usr'', ''lib'']"
  by (rule path_roundtrip) (simp add: validPart_def hasNul_def)



text \<open>
  Evaluation is compositional: a text with a slash in it evaluates as its first part and then, from
  where that leads, the rest, also when either step throws.
\<close>

theorem path_eval_compose:
  assumes "s \<noteq> ''''" and "\<not> startsWithChars t ''/''"
  shows "Path_eval parts (s @ ''/'' @ t) = andThen (Path_eval parts s) (\<lambda>q. Path_eval q t)"
proof -
  have "startsWithChars (s @ ''/'' @ t) ''/'' = startsWithChars s ''/''"
    using assms(1) by (cases s) auto
  then show ?thesis
    using assms(2) by (simp add: Path_eval_def evalImpl_def evalLoop_parts splitOn_append evalParts_append)
qed

theorem path_eval_compose_witness:
  "Path_eval [''a''] (''b/..'' @ ''/'' @ ''c'') = andThen (Path_eval [''a''] ''b/..'') (\<lambda>q. Path_eval q ''c'')"
  by (rule path_eval_compose) simp_all

lemma list_ex_enumerate: "list_ex P (enumerate 0 xs) \<longleftrightarrow> (\<exists>i < length xs. P (i, xs ! i))"
  by (auto simp: list_ex_length nth_enumerate_eq)

lemma win32Colon_enumerate:
  "win32Colon absolute forApi s =
     list_ex (\<lambda>(i, c). c = CHR '':'' \<and> \<not> (absolute \<and> i = (if forApi then 5 else 1))) (enumerate 0 s)"
  by (simp only: list_ex_enumerate win32Colon_def prod.case)

lemma strcmp_zero: "strcmp s t = 0 \<longleftrightarrow> s = t"
  by (induction s t rule: strcmp.induct) auto

lemma strcmp_antisym: "strcmp t s = - strcmp s t"
  by (induction s t rule: strcmp.induct) auto

lemma strcmp_trans: "strcmp s t < 0 \<Longrightarrow> strcmp t u < 0 \<Longrightarrow> strcmp s u < 0"
proof (induction s u arbitrary: t rule: strcmp.induct)
  case (1)
  then show ?case by (cases t) auto
next
  case (3 x xs)
  then show ?case by (cases t) auto
next
  case (4 x xs y ys)
  then show ?case by (cases t) (auto split: if_splits)
qed simp

lemma Path_less_irrefl: "\<not> Path_less p p"
  by (induction p) (simp_all add: strcmp_zero)

lemma Path_less_total: "p \<noteq> q \<Longrightarrow> Path_less p q \<noteq> Path_less q p"
proof (induction p q rule: Path_less.induct)
  case (1 p ps q qs)
  then show ?case using strcmp_antisym [of q p] strcmp_zero [of p q] by auto
qed auto

lemma Path_less_trans: "Path_less p q \<Longrightarrow> Path_less q r \<Longrightarrow> Path_less p r"
proof (induction p r arbitrary: q rule: Path_less.induct)
  case (1 p ps r rs)
  from "1.prems" obtain t ts where q: "q = t # ts" by (cases q) auto
  have "strcmp p r < 0 \<or> (p = r \<and> p = t)" if "strcmp p t \<le> 0" "strcmp t r \<le> 0"
    using that strcmp_trans [of p t r] strcmp_zero [of p t] strcmp_zero [of t r] by force
  moreover have "strcmp p t \<le> 0" "strcmp t r \<le> 0"
    using "1.prems" by (auto simp: q split: if_splits)
  ultimately show ?case
    using 1 strcmp_zero [of p p] by (auto simp: q split: if_splits)
qed (auto elim: Path_less.elims)


text \<open>
  C20. Paths round-trip through their Windows text, for display and for the Windows API (with the
  \<open>\\?\\<close> prefix), for drive letters, network shares and relative paths: if \<open>toWin32String\<close> accepts a
  canonical path whose components have no backslash, evaluating the text gives the path back.
\<close>

theorem win32_roundtrip:
  assumes "toWin32StringImpl parts absolute forApi = Inr s" and "canonical parts"
    and "\<forall>p \<in> set parts. backslash \<notin> set p"
  shows "evalWin32Impl base s (absolute \<and> forApi) = Inr (if absolute then parts else base @ parts)"
proof (cases parts)
  case Nil
  with assms(1) have "\<not> absolute" "s = ''.''"
    by (simp_all add: toWin32StringImpl_def andThen_eq_Inr)
  moreover have "evalWin32Impl base ''.'' False = Inr base"
    by (simp add: evalWin32Impl_def win32Prefix_def evalPart_def)
  ultimately show ?thesis using Nil by simp
next
  case (Cons p ps)
  then have ne: "parts \<noteq> []" and p: "hd parts = p" "p \<noteq> []" "backslash \<notin> set p"
    using assms(2,3) by (auto simp: validPart_def)
  let ?j = "joinParts backslash False parts"
  have loop: "evalLoop backslash q [] ?j = Inr (q @ parts)" for q
    by (rule evalLoop_join [OF assms(2,3) ne])
  have "CHR ''/'' \<notin> set ?j"
    using joinParts_chars [of backslash False parts] canonical_no_slash [OF assms(2)] by auto
  then have eval: "evalWin32Impl base s api = Inr (q @ parts)"
    if "win32Prefix base s api = Inr (q, ?j)" "CHR ''/'' \<notin> set s" for api q
    using that by (simp add: evalWin32Impl_def loop)
  from assms(1) ne show ?thesis
  proof (cases rule: toWin32_cases)
    case drive
    then show ?thesis
      using eval [of "forApi" "[]"] win32Prefix_drive [of p base ps] win32Prefix_api_drive [of p base ps] p
        \<open>CHR ''/'' \<notin> set ?j\<close> Cons by (cases forApi) (simp_all del: joinParts.simps)
  next
    case unc
    then show ?thesis
      using eval [of "forApi" "[]"] win32Prefix_unc [of base ?j] win32Prefix_api_unc [of base ?j]
        \<open>CHR ''/'' \<notin> set ?j\<close> by (cases forApi) (simp_all del: joinParts.simps)
  next
    case relative
    then show ?thesis
      using eval [of "False" "base"] win32Prefix_relative [OF p(2,3), of ps base]
        \<open>CHR ''/'' \<notin> set ?j\<close> Cons by (simp del: joinParts.simps)
  qed
qed

theorem win32_roundtrip_witness:
  "evalWin32Impl [] (''c:'' @ [backslash] @ ''tools'') (True \<and> False) = Inr [''c:'', ''tools'']"
  using win32_roundtrip [of "[''c:'', ''tools'']" True False "''c:'' @ [backslash] @ ''tools''" "[]"]
  by (simp add: validPart_def hasNul_def toWin32StringImpl_def isWin32Drive_def isLetter_def less_eq_char_def
      isWin32Special_def win32Colon_enumerate Let_def)

text \<open>
  \<open>toWin32String\<close> is documented to throw for a component that contains a backslash, but it does not
  look for one: this path is formatted, and evaluating its text leads one directory up instead of into a child.
\<close>

theorem win32_backslash_accepted:
  "canonical [''pkg'' @ [backslash] @ ''..'' @ [backslash] @ ''..''] \<and>
   Path_toWin32String [''pkg'' @ [backslash] @ ''..'' @ [backslash] @ ''..''] False =
     Inr (''pkg'' @ [backslash] @ ''..'' @ [backslash] @ ''..'') \<and>
   Path_evalWin32 [''x'', ''y''] (''pkg'' @ [backslash] @ ''..'' @ [backslash] @ ''..'') = Inr [''x'']"
proof (intro conjI)
  show "canonical [''pkg'' @ [backslash] @ ''..'' @ [backslash] @ ''..'']"
    by (simp add: validPart_def hasNul_def)
  show "Path_toWin32String [''pkg'' @ [backslash] @ ''..'' @ [backslash] @ ''..''] False =
      Inr (''pkg'' @ [backslash] @ ''..'' @ [backslash] @ ''..'')"
    by (simp add: Path_toWin32String_def toWin32StringImpl_def isWin32Special_def win32Colon_enumerate
        less_eq_char_def)
  show "Path_evalWin32 [''x'', ''y''] (''pkg'' @ [backslash] @ ''..'' @ [backslash] @ ''..'') = Inr [''x'']"
    by (simp add: Path_evalWin32_def evalWin32Impl_def win32Prefix_def evalPart_def hasNul_def)
qed

text \<open>
  \<open>operator<\<close> on paths, built from the sign of \<open>strcmp\<close>, is a strict total order whose equivalence is
  \<open>operator==\<close>, as the ordered maps keyed by paths require.
\<close>

theorem path_order_total:
  "\<not> Path_less p p \<and> (Path_less p q \<and> Path_less q r \<longrightarrow> Path_less p r) \<and>
   (p \<noteq> q \<longrightarrow> Path_less p q \<noteq> Path_less q p)"
  using Path_less_irrefl Path_less_trans Path_less_total by blast

theorem path_order_total_witness:
  "\<not> Path_less [''a''] [''a''] \<and> Path_less [''a''] [''b'', ''a'']"
  using path_order_total [of "[''a'']" "[''a'', ''b'']" "[''b'', ''a'']"] by (simp add: less_char_def)

end
