(* ===== verification/Hashing.thy ===== *)
theory Hashing
  imports Prelude
begin

text \<open>
  The hash functions of \<open>zc/core/hash.h\<close> and \<open>hash.cc\<close>: murmur2 over bytes, over the hashes of the
  elements of an array, and the integer hashes of builds without a CRC32 instruction.
  All arithmetic is on words, so that it wraps as in the code; \<open>memcpy\<close> into a \<open>uint\<close> reads four bytes
  in little-endian order, as on the platforms the code is built for.
\<close>

abbreviation murmur_m :: uint32 where "murmur_m \<equiv> 0x5bd1e995"

definition wordOfBytes :: "byte \<Rightarrow> byte \<Rightarrow> byte \<Rightarrow> byte \<Rightarrow> uint32" where
  "wordOfBytes b0 b1 b2 b3 =
     ucast b0 OR push_bit 8 (ucast b1) OR push_bit 16 (ucast b2) OR push_bit 24 (ucast b3)"

definition bytesOfWord :: "uint32 \<Rightarrow> byte list" where
  "bytesOfWord w = [ucast w, ucast (drop_bit 8 w), ucast (drop_bit 16 w), ucast (drop_bit 24 w)]"

text \<open>One round of the loop: the word \<open>k\<close> is mixed into \<open>h\<close>.\<close>

definition murmur_mix :: "uint32 \<Rightarrow> uint32 \<Rightarrow> uint32" where
  "murmur_mix h k =
     (let k = k * murmur_m; k = k XOR drop_bit 24 k; k = k * murmur_m; h = h * murmur_m in h XOR k)"

definition murmur_final :: "uint32 \<Rightarrow> uint32" where
  "murmur_final h =
     (let h = h XOR drop_bit 13 h; h = h * murmur_m in h XOR drop_bit 15 h)"

fun murmur_loop :: "byte list \<Rightarrow> uint32 \<Rightarrow> uint32" where
  "murmur_loop (b0 # b1 # b2 # b3 # data) h = murmur_loop data (murmur_mix h (wordOfBytes b0 b1 b2 b3))"
| "murmur_loop [b0, b1, b2] h =
     (let h = h XOR push_bit 16 (ucast b2); h = h XOR push_bit 8 (ucast b1); h = h XOR ucast b0
      in h * murmur_m)"
| "murmur_loop [b0, b1] h = (let h = h XOR push_bit 8 (ucast b1); h = h XOR ucast b0 in h * murmur_m)"
| "murmur_loop [b0] h = (let h = h XOR ucast b0 in h * murmur_m)"
| "murmur_loop [] h = h"

definition hashBytes :: "byte list \<Rightarrow> uint32" where
  "hashBytes s = murmur_final (murmur_loop s (of_nat (length s)))"

definition hashString :: "string \<Rightarrow> uint32" where
  "hashString s = hashBytes (asBytes s)"

definition hashArray :: "('a \<Rightarrow> uint32) \<Rightarrow> 'a list \<Rightarrow> uint32" where
  "hashArray hashCode arr =
     murmur_final (fold (\<lambda>e h. murmur_mix h (hashCode e)) arr (of_nat (length arr * 4)))"

text \<open>The hash of several values: the bytes of the array of their hashes.\<close>

definition hashValues :: "uint32 list \<Rightarrow> uint32" where
  "hashValues hashes = hashBytes (concat (map bytesOfWord hashes))"

definition intHash32 :: "uint32 \<Rightarrow> uint32" where
  "intHash32 i =
     (let i = NOT i + push_bit 15 i; i = i XOR drop_bit 12 i; i = i + push_bit 2 i;
          i = i XOR drop_bit 4 i; i = i * 2057
      in i XOR drop_bit 16 i)"

definition intHash64 :: "uint64 \<Rightarrow> uint32" where
  "intHash64 i =
     (if i \<le> 0xFFFFFFFF then intHash32 (ucast i)
      else let i = NOT i + push_bit 18 i; i = i XOR drop_bit 31 i; i = i * 21;
               i = i XOR drop_bit 11 i; i = i + push_bit 6 i; i = i XOR drop_bit 22 i
           in ucast i)"

section \<open>Lemmas\<close>

lemma wordOfBytes_bytesOfWord:
  "wordOfBytes (ucast w) (ucast (drop_bit 8 w)) (ucast (drop_bit 16 w)) (ucast (drop_bit 24 w)) = w"
proof (rule bit_word_eqI)
  fix n
  assume "n < LENGTH(32)"
  then consider "n < 8" | "8 \<le> n" "n < 16" | "16 \<le> n" "n < 24" | "24 \<le> n" "n < 32" by fastforce
  then show "bit (wordOfBytes (ucast w) (ucast (drop_bit 8 w)) (ucast (drop_bit 16 w)) (ucast (drop_bit 24 w))) n = bit w n"
    by cases (auto simp: wordOfBytes_def bit_simps)
qed

lemma murmur_loop_words:
  "murmur_loop (concat (map bytesOfWord ws)) h = fold (\<lambda>w h. murmur_mix h w) ws h"
  by (induction ws arbitrary: h) (simp_all add: bytesOfWord_def wordOfBytes_bytesOfWord)

lemma length_words: "length (concat (map bytesOfWord ws)) = length ws * 4"
  by (induction ws) (simp_all add: bytesOfWord_def)

section \<open>Properties\<close>


text \<open>
  A 64-bit integer in the 32-bit range hashes as the 32-bit integer, so that a map keyed by either
  can be searched with the other.
\<close>

theorem intHash64_consistent: "intHash64 (ucast (i :: uint32)) = intHash32 i"
proof -
  have "unat (ucast i :: uint64) \<le> 0xFFFFFFFF"
    using unat_bound [of i] by (simp add: bits_to_nat)
  then have "(ucast i :: uint64) \<le> 0xFFFFFFFF" by (simp add: word_le_nat_alt)
  moreover have "ucast (ucast i :: uint64) = i" by (rule bit_word_eqI) (simp add: bit_simps)
  ultimately show ?thesis by (simp add: intHash64_def)
qed

end
