(* ===== verification/Module_Loader.thy ===== *)
theory Module_Loader
  imports Zc_Path Hashing Source_Location "HOL-Library.Monad_Syntax"
begin

text \<open>
  Modules and their loader (\<open>compiler/source/module.cc\<close>), the compiler driver
  (\<open>compiler/driver/driver.cc\<close>) and the \<open>compile\<close> command's handling of a source file
  (\<open>utils/zomc/zomc.cc\<close>).

  The disk is outside the repository's code and is a parameter: the current directory and a function
  that opens a file of a directory, giving its metadata and, through an identity, its contents at
  the time they are read. \<open>std::unordered_map\<close> is a list of entries searched the way the container
  searches: an entry is found if it lies in the bucket of the key and its key compares equal; the
  number of buckets for a number of entries is a parameter. Directories are compared by address.
\<close>

section \<open>Files and keys\<close>

type_synonym file_id = nat
type_synonym dir_id = nat

record Metadata =
  meta_hashCode :: uint64
  meta_size :: uint64
  meta_lastModified :: int

record FileKey =
  baseDir_of :: dir_id
  key_path :: path
  key_file :: "file_id option"
  key_hashCode :: uint64
  key_size :: uint64
  key_lastModified :: int

definition FileKey_make :: "dir_id \<Rightarrow> path \<Rightarrow> file_id \<Rightarrow> Metadata \<Rightarrow> FileKey" where
  "FileKey_make dir path file meta =
     \<lparr>baseDir_of = dir, key_path = path, key_file = Some file, key_hashCode = meta_hashCode meta,
      key_size = meta_size meta, key_lastModified = meta_lastModified meta\<rparr>"

text \<open>The constructor without a file: the epoch is nanosecond 0.\<close>

definition FileKey_noFile :: "dir_id \<Rightarrow> path \<Rightarrow> FileKey" where
  "FileKey_noFile dir path =
     \<lparr>baseDir_of = dir, key_path = path, key_file = None, key_hashCode = 0, key_size = 0, key_lastModified = 0\<rparr>"

text \<open>
  \<open>operator==\<close>: \<open>contents\<close> is what the files contain when they are mapped; asserting a file on a key
  that has none throws, \<open>None\<close>.
\<close>

definition FileKey_eq :: "(file_id \<Rightarrow> byte list) \<Rightarrow> FileKey \<Rightarrow> FileKey \<Rightarrow> bool option" where
  "FileKey_eq contents a b =
     (if baseDir_of a = baseDir_of b \<and> key_path a = key_path b then Some True
      else if key_hashCode a \<noteq> key_hashCode b \<or> key_size a \<noteq> key_size b \<or>
          key_lastModified a \<noteq> key_lastModified b then Some False
      else if key_path a \<noteq> [] \<and> key_path b \<noteq> [] \<and> last (key_path a) \<noteq> last (key_path b) then Some False
      else do {
        f \<leftarrow> key_file a;
        g \<leftarrow> key_file b;
        Some (take (unat (key_size a)) (contents f) = take (unat (key_size a)) (contents g))
      })"

abbreviation golden :: uint64 where "golden \<equiv> 0x9e3779b97f4a7c15"

definition hashPart :: "string \<Rightarrow> uint64 \<Rightarrow> uint64" where
  "hashPart part seed =
     seed XOR (ucast (hashString part) + golden + push_bit 6 seed + drop_bit 2 seed)"

text \<open>Durations are counted in nanoseconds; the division by \<open>MILLISECONDS\<close> truncates toward zero.\<close>

definition milliseconds :: "int \<Rightarrow> uint64" where
  "milliseconds ns = word_of_int (sgn ns * (\<bar>ns\<bar> div 1000000))"

definition FileKeyHash :: "FileKey \<Rightarrow> uint64" where
  "FileKeyHash key =
     (let seed = fold hashPart (key_path key) (key_hashCode key);
          seed = (seed XOR key_size key * golden) * golden
      in (seed XOR milliseconds (key_lastModified key) * golden) * golden)"

section \<open>Modules\<close>

record Module =
  moduleName :: string
  moduleId :: uint64
  compiled :: bool

datatype loader_error = EmptyModuleName | PathError path_error | EmptyPath | FileAssertion

definition Module_create :: "string \<Rightarrow> uint64 \<Rightarrow> loader_error + Module" where
  "Module_create name i =
     (if name = [] then Inl EmptyModuleName else Inr \<lparr>moduleName = name, moduleId = i, compiled = False\<rparr>)"

definition Module_eq :: "Module \<Rightarrow> Module \<Rightarrow> bool" where
  "Module_eq a b \<longleftrightarrow> moduleId a = moduleId b"

section \<open>The loader\<close>

record ModuleLoader =
  modules :: "(FileKey \<times> Module) list"
  nextModuleId :: uint64

definition ModuleLoader_new :: ModuleLoader where
  "ModuleLoader_new = \<lparr>modules = [], nextModuleId = 0\<rparr>"

record disk =
  getCurrentPath :: path
  currentDir :: dir_id
  rootDir :: dir_id
  openFile :: "dir_id \<Rightarrow> path \<Rightarrow> (file_id \<times> Metadata) option"
  fileContents :: "file_id \<Rightarrow> byte list"
  bucketCount :: "nat \<Rightarrow> nat"

definition bucketOf :: "disk \<Rightarrow> nat \<Rightarrow> FileKey \<Rightarrow> nat" where
  "bucketOf d n key = unat (FileKeyHash key) mod bucketCount d n"

text \<open>\<open>unordered_map::find\<close>: the outer \<open>None\<close> is a throwing comparison.\<close>

fun findEntry :: "disk \<Rightarrow> nat \<Rightarrow> FileKey \<Rightarrow> (FileKey \<times> Module) list \<Rightarrow> Module option option" where
  "findEntry d n key [] = Some None"
| "findEntry d n key ((k, m) # entries) =
     (if bucketOf d n k = bucketOf d n key then do {
        eq \<leftarrow> FileKey_eq (fileContents d) k key;
        if eq then Some (Some m) else findEntry d n key entries
      }
      else findEntry d n key entries)"

definition loadModuleAt ::
    "disk \<Rightarrow> dir_id \<Rightarrow> path \<Rightarrow> ModuleLoader \<Rightarrow> loader_error + (Module option \<times> ModuleLoader)" where
  "loadModuleAt d dir path l =
     (case openFile d dir path of
        None \<Rightarrow> Inr (None, l)
      | Some (file, meta) \<Rightarrow>
          (let key = FileKey_make dir path file meta
           in case findEntry d (length (modules l)) key (modules l) of
                None \<Rightarrow> Inl FileAssertion
              | Some (Some m) \<Rightarrow> Inr (Some m, l)
              | Some None \<Rightarrow>
                  (let i = nextModuleId l; l = l\<lparr>nextModuleId := i + 1\<rparr>
                   in case Path_toString path False of
                        Inl e \<Rightarrow> Inl (PathError e)
                      | Inr name \<Rightarrow>
                          (case Module_create name i of
                             Inl e \<Rightarrow> Inl e
                           | Inr m \<Rightarrow> Inr (Some m, l\<lparr>modules := (key, m) # modules l\<rparr>)))))"

definition getDirWithPath :: "disk \<Rightarrow> string \<Rightarrow> loader_error + (dir_id \<times> path)" where
  "getDirWithPath d filePath =
     (let cwd = getCurrentPath d
      in case Path_eval cwd filePath of
           Inl e \<Rightarrow> Inl (PathError e)
         | Inr path \<Rightarrow>
             (if path = [] then Inl EmptyPath
              else case splitAtCwd cwd path of
                     (CurrentDir, sourcePath) \<Rightarrow> Inr (currentDir d, sourcePath)
                   | (RootDir, sourcePath) \<Rightarrow> Inr (rootDir d, sourcePath)))"

definition loadModule :: "disk \<Rightarrow> string \<Rightarrow> ModuleLoader \<Rightarrow> loader_error + (Module option \<times> ModuleLoader)" where
  "loadModule d pathStr l =
     (case getDirWithPath d pathStr of
        Inl e \<Rightarrow> Inl e
      | Inr (dir, path) \<Rightarrow> loadModuleAt d dir path l)"

section \<open>The driver and the compile command\<close>

definition addSourceFile :: "disk \<Rightarrow> string \<Rightarrow> ModuleLoader \<Rightarrow> loader_error + (Module option \<times> ModuleLoader)" where
  "addSourceFile d file l = loadModule d file l"

definition endsWithChars :: "string \<Rightarrow> string \<Rightarrow> bool" where
  "endsWithChars s suffix \<longleftrightarrow> length suffix \<le> length s \<and> drop (length s - length suffix) s = suffix"

text \<open>\<open>Validity\<close> is \<open>None\<close> for success and the message of the error otherwise.\<close>

definition addSource :: "disk \<Rightarrow> string \<Rightarrow> ModuleLoader \<Rightarrow> loader_error + (string option \<times> ModuleLoader)" where
  "addSource d file l =
     (if \<not> endsWithChars file ''.zom'' then Inr (Some ''source file must have .zom extension'', l)
      else case addSourceFile d file l of
             Inl e \<Rightarrow> Inl e
           | Inr (None, l) \<Rightarrow> Inr (Some ''failed to load source file'', l)
           | Inr (Some m, l) \<Rightarrow> Inr (None, l))"

section \<open>Reachable loaders\<close>

inductive reachable :: "ModuleLoader \<Rightarrow> bool" where
  new: "reachable ModuleLoader_new"
| load: "reachable l \<Longrightarrow> loadModuleAt d dir path l = Inr (r, l') \<Longrightarrow> reachable l'"

inductive_simps reachable_new [simp]: "reachable ModuleLoader_new"

text \<open>What a load does to the table: nothing, or one entry with the next id.\<close>

lemma loadModuleAt_cases:
  assumes "loadModuleAt d dir path l = Inr (r, l')"
  obtains (none) "openFile d dir path = None" "r = None" "l' = l"
  | (found) m where "r = Some m" "l' = l" "m \<in> snd ` set (modules l)"
  | (fresh) fl meta m where "openFile d dir path = Some (fl, meta)" "r = Some m"
      "moduleId m = nextModuleId l" "moduleName m \<noteq> []"
      "l' = \<lparr>modules = (FileKey_make dir path fl meta, m) # modules l, nextModuleId = nextModuleId l + 1\<rparr>"
proof -
  have found: "findEntry d n key es = Some (Some m) \<Longrightarrow> m \<in> snd ` set es" for n key es m
    by (induction d n key es rule: findEntry.induct) (auto split: if_splits bind_splits)
  show thesis
  proof (cases "openFile d dir path")
    case None
    with assms that(1) show thesis by (simp add: loadModuleAt_def)
  next
    case (Some p)
    obtain fl meta where p: "p = (fl, meta)" by (cases p)
    let ?f = "findEntry d (length (modules l)) (FileKey_make dir path fl meta) (modules l)"
    note l = assms [unfolded loadModuleAt_def Let_def Some p option.case prod.case]
    show thesis
    proof (cases ?f)
      case None
      with l show thesis by simp
    next
      case f: (Some e)
      show thesis
      proof (cases e)
        case None
        obtain nm where nm: "Path_toString path False = Inr nm" using toString_Inr by blast
        let ?m = "\<lparr>moduleName = nm, moduleId = nextModuleId l, compiled = False\<rparr>"
        have c: "Module_create nm (nextModuleId l) = (if nm = [] then Inl EmptyModuleName else Inr ?m)"
          by (simp only: Module_create_def)
        note l1 = l [unfolded f None nm option.case sum.case c]
        then have n: "nm \<noteq> []" by (rule contrapos_pn) simp
        with l1 have r: "r = Some ?m" and l': "l' = \<lparr>modules = (FileKey_make dir path fl meta, ?m) # modules l,
            nextModuleId = nextModuleId l + 1\<rparr>"
          by (cases l; auto)+
        show thesis by (rule that(3) [OF Some [unfolded p] r _ _ l']) (simp_all add: n)
      next
        case (Some m)
        with l f have "r = Some m" "l' = l" by simp_all
        then show thesis using f Some by (intro that(2) found) simp_all
      qed
    qed
  qed
qed

definition idsOf :: "ModuleLoader \<Rightarrow> uint64 list" where
  "idsOf l = map (moduleId \<circ> snd) (modules l)"

lemma reachable_ids:
  assumes "reachable l"
  shows "idsOf l = rev (map of_nat [0..<length (modules l)]) \<and> nextModuleId l = of_nat (length (modules l)) \<and>
    (\<forall>m \<in> snd ` set (modules l). moduleName m \<noteq> [])"
  using assms
proof induction
  case new
  then show ?case by (simp add: ModuleLoader_new_def idsOf_def)
next
  case (load l d dir path r l')
  from load(2) show ?case
    by (cases rule: loadModuleAt_cases) (use load.IH in \<open>auto simp: idsOf_def\<close>)
qed

lemma distinct_of_nat:
  assumes "n \<le> 2 ^ LENGTH('a::len)"
  shows "distinct (map (of_nat :: nat \<Rightarrow> 'a word) [0..<n])"
proof -
  have "inj_on (of_nat :: nat \<Rightarrow> 'a word) {..<n}"
  proof (rule inj_onI)
    fix i j assume "i \<in> {..<n}" "j \<in> {..<n}" and e: "(of_nat i :: 'a word) = of_nat j"
    then have "i < 2 ^ LENGTH('a)" "j < 2 ^ LENGTH('a)" using assms by simp_all
    then show "i = j" using e by (metis of_nat_inverse)
  qed
  then show ?thesis by (simp add: distinct_map lessThan_atLeast0)
qed

section \<open>Searching the table again\<close>

lemma FileKey_eq_same_path:
  "baseDir_of a = baseDir_of b \<Longrightarrow> key_path a = key_path b \<Longrightarrow> FileKey_eq contents a b = Some True"
  by (simp add: FileKey_eq_def)

lemma golden_cancel: "a * golden = b * golden \<Longrightarrow> a = b"
proof -
  have i: "golden * 0xf1de83e19937733d = 1" by simp
  assume "a * golden = b * golden"
  then have "a * golden * 0xf1de83e19937733d = b * golden * 0xf1de83e19937733d" by simp
  then show "a = b" by (simp only: mult.assoc i mult_1_right)
qed

lemma xor_cancel_left: "(a :: 'a::len word) XOR b = a XOR c \<Longrightarrow> b = c"
  by (metis xor.left_commute xor.right_neutral xor_self_eq)

lemma xor_cancel_right: "(a :: 'a::len word) XOR b = c XOR b \<Longrightarrow> a = c"
  by (metis xor.assoc xor.right_neutral xor_self_eq)

section \<open>Properties\<close>

text \<open>
  C1. In every loader that a sequence of loads can reach, from whatever directories and disks, each
  module has an id of its own and a name, as long as fewer than 2 to the 64 modules are loaded.
\<close>

theorem module_ids_unique:
  assumes "reachable l" and "length (modules l) \<le> 2 ^ 64"
  shows "distinct (idsOf l) \<and> (\<forall>m \<in> snd ` set (modules l). moduleName m \<noteq> [])"
  using reachable_ids [OF assms(1)] distinct_of_nat [where 'a = 64, of "length (modules l)"] assms(2) by simp

theorem module_ids_unique_witness:
  "\<exists>l. length (modules l) = 1 \<and> distinct (idsOf l)"
proof -
  define d where "d = \<lparr>getCurrentPath = [], currentDir = 0, rootDir = 1,
    openFile = \<lambda>_ _. Some (0, \<lparr>meta_hashCode = 0, meta_size = 0, meta_lastModified = 0\<rparr>),
    fileContents = \<lambda>_. [], bucketCount = \<lambda>_. 1\<rparr>"
  obtain r l where l: "loadModuleAt d 0 [''a''] ModuleLoader_new = Inr (r, l)" and n: "length (modules l) = 1"
    by (simp add: loadModuleAt_def d_def ModuleLoader_new_def Path_toString_def Module_create_def)
  have "reachable l" by (rule reachable.load [OF reachable.new l])
  with n show ?thesis using module_ids_unique [of l] by auto
qed

text \<open>
  Loading is idempotent: once a load has returned a module, loading the same path of the same
  directory again returns that module and changes nothing, as long as the disk has not changed.
\<close>

theorem reload_same_module:
  assumes "loadModuleAt d dir path l = Inr (Some m, l')"
  shows "loadModuleAt d dir path l' = Inr (Some m, l')"
  using assms
proof (cases rule: loadModuleAt_cases)
  case (fresh fl meta m')
  then have m: "m' = m" by simp
  have "findEntry d (length (modules l')) (FileKey_make dir path fl meta) (modules l') = Some (Some m)"
    using fresh(5) m by (simp add: FileKey_eq_same_path)
  then show ?thesis using fresh(1) by (simp add: loadModuleAt_def)
qed (use assms in simp_all)

theorem reload_same_module_witness:
  "let d = \<lparr>getCurrentPath = [], currentDir = 0, rootDir = 1,
      openFile = \<lambda>_ _. Some (0, \<lparr>meta_hashCode = 0, meta_size = 0, meta_lastModified = 0\<rparr>),
      fileContents = \<lambda>_. [], bucketCount = \<lambda>_. 1\<rparr>
   in \<exists>m l. loadModuleAt d 0 [''a''] ModuleLoader_new = Inr (Some m, l) \<and> loadModuleAt d 0 [''a''] l = Inr (Some m, l)"
  unfolding Let_def
proof -
  let ?d = "\<lparr>getCurrentPath = [], currentDir = 0, rootDir = 1,
      openFile = \<lambda>_ _. Some (0, \<lparr>meta_hashCode = 0, meta_size = 0, meta_lastModified = 0\<rparr>),
      fileContents = \<lambda>_. [], bucketCount = \<lambda>_. 1\<rparr>"
  obtain m l where l: "loadModuleAt ?d 0 [''a''] ModuleLoader_new = Inr (Some m, l)"
    by (simp add: loadModuleAt_def ModuleLoader_new_def Path_toString_def Module_create_def)
  with reload_same_module [OF l]
  show "\<exists>m l. loadModuleAt ?d 0 [''a''] ModuleLoader_new = Inr (Some m, l) \<and> loadModuleAt ?d 0 [''a''] l = Inr (Some m, l)"
    by blast
qed

text \<open>
  \<open>FileKeyHash\<close> and \<open>operator==\<close> of \<open>FileKey\<close> disagree, against what \<open>unordered_map\<close> requires: keys of the
  same directory and path always compare equal, but whenever the size of the file has changed
  between them (all else the same) their hashes differ.
\<close>

theorem equal_keys_hash_differently:
  assumes "baseDir_of a = baseDir_of b" and "key_path a = key_path b" and "key_hashCode a = key_hashCode b"
    and "key_lastModified a = key_lastModified b" and "key_size a \<noteq> key_size b"
  shows "FileKey_eq contents a b = Some True \<and> FileKeyHash a \<noteq> FileKeyHash b"
proof
  show "FileKey_eq contents a b = Some True" using assms(1,2) by (rule FileKey_eq_same_path)
  show "FileKeyHash a \<noteq> FileKeyHash b"
  proof
    assume "FileKeyHash a = FileKeyHash b"
    note h = this [unfolded FileKeyHash_def Let_def assms(2,3,4)]
    from golden_cancel [OF xor_cancel_left [OF golden_cancel [OF xor_cancel_right [OF golden_cancel [OF h]]]]]
    show False using assms(5) by contradiction
  qed
qed

theorem equal_keys_hash_differently_witness:
  "let meta = \<lparr>meta_hashCode = 1, meta_size = 10, meta_lastModified = 0\<rparr>;
       a = FileKey_make 0 [''a''] 0 meta; b = FileKey_make 0 [''a''] 0 (meta\<lparr>meta_size := 11\<rparr>)
   in FileKey_eq (\<lambda>_. []) a b = Some True \<and> FileKeyHash a \<noteq> FileKeyHash b"
  unfolding Let_def by (rule equal_keys_hash_differently) (simp_all add: FileKey_make_def)

text \<open>
  The path that \<open>getDirWithPath\<close> splits off is canonical, and below the directory it names it leads to
  the path that the text evaluates to from the current directory.
\<close>

theorem getDirWithPath_resolves:
  assumes "canonical (getCurrentPath d)" and "currentDir d \<noteq> rootDir d" and "getDirWithPath d text' = Inr (dir, rest)"
  shows "Path_eval (getCurrentPath d) text' =
      Inr (Path_append (if dir = currentDir d then getCurrentPath d else []) rest) \<and>
    canonical rest \<and> dir \<in> {currentDir d, rootDir d}"
proof -
  obtain p where p: "Path_eval (getCurrentPath d) text' = Inr p"
    using assms(3) by (cases "Path_eval (getCurrentPath d) text'") (simp_all add: getDirWithPath_def)
  obtain b rest' where s': "splitAtCwd (getCurrentPath d) p = (b, rest')" by (cases "splitAtCwd (getCurrentPath d) p")
  with assms(3) p have s: "splitAtCwd (getCurrentPath d) p = (b, rest)"
    and dir: "dir = (case b of CurrentDir \<Rightarrow> currentDir d | RootDir \<Rightarrow> rootDir d)"
    by (cases b; simp add: getDirWithPath_def split: if_splits)+
  from unix.split_resolves [OF assms(1) p s] show ?thesis
    using dir p assms(2) by (cases b) (auto simp: baseOf_def)
qed

theorem getDirWithPath_resolves_witness:
  "Path_eval [''home''] ''a.zom'' = Inr (Path_append [''home''] [''a.zom''])"
proof -
  define d where "d = \<lparr>getCurrentPath = [''home''], currentDir = 0, rootDir = 1,
    openFile = \<lambda>_ _. None, fileContents = \<lambda>_. [], bucketCount = \<lambda>_. 1\<rparr>"
  have "getDirWithPath d ''a.zom'' = Inr (0, [''a.zom''])"
    by (simp add: d_def getDirWithPath_def Path_eval_def evalImpl_def evalPart_def hasNul_def splitAtCwd_def
        Path_startsWith_def PathPtr_slice_def Let_def)
  from getDirWithPath_resolves [OF _ _ this] show ?thesis by (simp add: d_def validPart_def hasNul_def)
qed

end
