(* ===== verification/Main_Builder.thy ===== *)
theory Main_Builder
  imports Module_Loader
begin

text \<open>
  The command line of a program: \<open>TopLevelProcessContext\<close> and \<open>MainBuilder\<close> of \<open>zc/core/main.cc\<close>, with the
  comparison of character arrays of \<open>zc/core/common.h\<close> that orders its maps.

  A process is what the context and the callbacks change: the text written to the two output
  streams, the error flag, the log level and the state \<open>'s\<close> of the client. \<open>exit\<close> does not return: a
  function that may exit gives an outcome. A callback is a function of the process that says that
  the input is valid, gives the message of an error, exits, or throws an exception (its description).
\<close>

section \<open>The process context\<close>

record 's process =
  client :: 's
  stdout_text :: string
  stderr_text :: string
  context_hadErrors :: bool
  infoLogging :: bool

datatype outcome = Returned | Exited int | Threw string

definition processExit :: "'s process \<Rightarrow> outcome" where
  "processExit p = Exited (if context_hadErrors p then 1 else 0)"

text \<open>
  \<open>writeLineToFd\<close>: the chunks given to \<open>writev\<close>, and what is left of them after it wrote \<open>n\<close> bytes. Each
  call returns the number of bytes written, is interrupted, or fails; \<open>None\<close>: not finished yet.
\<close>

definition lineChunks :: "string \<Rightarrow> string list" where
  "lineChunks message =
     (if message = [] then []
      else if endsWithChars message [CHR 0x0a] then [message] else [message, [CHR 0x0a]])"

fun discardWritten :: "string list \<Rightarrow> nat \<Rightarrow> string list" where
  "discardWritten [] n = []"
| "discardWritten (chunk # chunks) n =
     (if length chunk \<le> n then discardWritten chunks (n - length chunk) else drop n chunk # chunks)"

datatype write_result = Wrote nat | Interrupted | Failed

fun writeLoop :: "string list \<Rightarrow> write_result list \<Rightarrow> string \<Rightarrow> string option" where
  "writeLoop chunks [] out = None"
| "writeLoop chunks (Interrupted # rs) out = writeLoop chunks rs out"
| "writeLoop chunks (Failed # rs) out = Some out"
| "writeLoop chunks (Wrote n # rs) out =
     (let out = out @ take n (concat chunks); chunks = discardWritten chunks n
      in if chunks = [] then Some out else writeLoop chunks rs out)"

definition writeLine :: "string \<Rightarrow> string" where
  "writeLine message = concat (lineChunks message)"

definition context_warning :: "string \<Rightarrow> 's process \<Rightarrow> 's process" where
  "context_warning message p = p\<lparr>stderr_text := stderr_text p @ writeLine message\<rparr>"

definition context_error :: "string \<Rightarrow> 's process \<Rightarrow> 's process" where
  "context_error message p =
     p\<lparr>context_hadErrors := True, stderr_text := stderr_text p @ writeLine message\<rparr>"

definition exitError :: "string \<Rightarrow> 's process \<Rightarrow> outcome \<times> 's process" where
  "exitError message p = (let p = context_error message p in (processExit p, p))"

definition exitInfo :: "string \<Rightarrow> 's process \<Rightarrow> outcome \<times> 's process" where
  "exitInfo message p =
     (let p = p\<lparr>stdout_text := stdout_text p @ writeLine message\<rparr> in (processExit p, p))"

section \<open>The order of character arrays\<close>

text \<open>
  \<open>ArrayPtr<char>::operator<\<close> depends on the compiler: \<open>memcmp\<close> where \<open>__has_feature\<close> knows constexpr string
  builtins, the loop where \<open>__has_feature\<close> does not exist, and neither where \<open>__has_feature\<close> exists without
  that feature.
\<close>

datatype compiler = ConstexprBuiltins | HasFeatureOnly | NoHasFeature

fun bytesLess :: "string \<Rightarrow> string \<Rightarrow> bool option" where
  "bytesLess (x # xs) (y # ys) = (if x \<noteq> y then Some (x < y) else bytesLess xs ys)"
| "bytesLess xs ys = None"

definition arrayLess :: "compiler \<Rightarrow> string \<Rightarrow> string \<Rightarrow> bool" where
  "arrayLess cc a b =
     (case (if cc = HasFeatureOnly then None else bytesLess a b) of
        Some r \<Rightarrow> r
      | None \<Rightarrow> length a < length b)"

section \<open>The builder\<close>

datatype callback_result = Valid | Invalid string | Exit int | Throws string

type_synonym 's callback = "'s process \<Rightarrow> callback_result \<times> 's process"
type_synonym 's main_func = "string \<Rightarrow> string list \<Rightarrow> 's process \<Rightarrow> outcome \<times> 's process"

datatype option_name = ShortName char | LongName string

record 's main_option =
  opt_names :: "option_name list"
  hasArg :: bool
  opt_func :: "'s callback"
  funcWithArg :: "string \<Rightarrow> 's callback"
  argTitle :: string
  opt_helpText :: string

record 's arg_spec =
  arg_title :: string
  arg_callback :: "string \<Rightarrow> 's callback"
  minCount :: nat
  maxCount :: nat

text \<open>
  The options live in the arena, here a list; the maps give their positions. The entries of a
  \<open>std::map\<close> are a list in the order of the keys.
\<close>

record 's main_builder =
  version :: string
  briefDescription :: string
  extendedDescription :: string
  options :: "'s main_option list"
  shortOptions :: "(char \<times> nat) list"
  longOptions :: "(string \<times> nat) list"
  subCommands :: "(string \<times> 's main_func \<times> string) list"
  args :: "'s arg_spec list"
  finalCallback :: "'s callback option"

datatype builder_error =
  NoOptionName | DuplicateOption | SubCommandsWithArgs | SubCommandsWithFinal | DuplicateSubCommand
  | FinalTwice

fun map_find :: "('k \<Rightarrow> 'k \<Rightarrow> bool) \<Rightarrow> ('k \<times> 'v) list \<Rightarrow> 'k \<Rightarrow> 'v option" where
  "map_find lt [] k = None"
| "map_find lt ((k', v) # es) k =
     (if \<not> lt k k' \<and> \<not> lt k' k then Some v else map_find lt es k)"

text \<open>\<open>std::map::insert\<close>: \<open>None\<close> if there is an equivalent key.\<close>

fun map_insert :: "('k \<Rightarrow> 'k \<Rightarrow> bool) \<Rightarrow> ('k \<times> 'v) list \<Rightarrow> 'k \<Rightarrow> 'v \<Rightarrow> ('k \<times> 'v) list option" where
  "map_insert lt [] k v = Some [(k, v)]"
| "map_insert lt ((k', v') # es) k v =
     (if lt k k' then Some ((k, v) # (k', v') # es)
      else if lt k' k then map_option (\<lambda>es. (k', v') # es) (map_insert lt es k v)
      else None)"

text \<open>\<open>char\<close> is signed.\<close>

definition charLess :: "char \<Rightarrow> char \<Rightarrow> bool" where
  "charLess a b =
     (let sgn = (\<lambda>c. if of_char c < (128 :: int) then of_char c else of_char c - (256 :: int))
      in sgn a < sgn b)"

fun insertNames ::
    "compiler \<Rightarrow> nat \<Rightarrow> option_name list \<Rightarrow> 's main_builder \<Rightarrow> builder_error + 's main_builder" where
  "insertNames cc i [] m = Inr m"
| "insertNames cc i (LongName n # names) m =
     (case map_insert (arrayLess cc) (longOptions m) n i of
        None \<Rightarrow> Inl DuplicateOption
      | Some es \<Rightarrow> insertNames cc i names (m\<lparr>longOptions := es\<rparr>))"
| "insertNames cc i (ShortName c # names) m =
     (case map_insert charLess (shortOptions m) c i of
        None \<Rightarrow> Inl DuplicateOption
      | Some es \<Rightarrow> insertNames cc i names (m\<lparr>shortOptions := es\<rparr>))"

definition addOptionImpl ::
    "compiler \<Rightarrow> 's main_option \<Rightarrow> 's main_builder \<Rightarrow> builder_error + 's main_builder" where
  "addOptionImpl cc opt m =
     (if opt_names opt = [] then Inl NoOptionName
      else insertNames cc (length (options m)) (opt_names opt) (m\<lparr>options := options m @ [opt]\<rparr>))"

definition addOption ::
    "compiler \<Rightarrow> option_name list \<Rightarrow> 's callback \<Rightarrow> string \<Rightarrow> 's main_builder \<Rightarrow> builder_error + 's main_builder" where
  "addOption cc names callback helpText m =
     addOptionImpl cc \<lparr>opt_names = names, hasArg = False, opt_func = callback,
       funcWithArg = (\<lambda>_ p. (Valid, p)), argTitle = [], opt_helpText = helpText\<rparr> m"

definition addOptionWithArg ::
    "compiler \<Rightarrow> option_name list \<Rightarrow> (string \<Rightarrow> 's callback) \<Rightarrow> string \<Rightarrow> string \<Rightarrow> 's main_builder \<Rightarrow>
     builder_error + 's main_builder" where
  "addOptionWithArg cc names callback argumentTitle helpText m =
     addOptionImpl cc \<lparr>opt_names = names, hasArg = True, opt_func = (\<lambda>p. (Valid, p)),
       funcWithArg = callback, argTitle = argumentTitle, opt_helpText = helpText\<rparr> m"

definition printVersion :: "string \<Rightarrow> 's callback" where
  "printVersion v p = (case exitInfo v p of (Exited c, p) \<Rightarrow> (Exit c, p) | (_, p) \<Rightarrow> (Valid, p))"

definition increaseVerbosity :: "'s callback" where
  "increaseVerbosity p = (Valid, p\<lparr>infoLogging := True\<rparr>)"

fun bindBuilder :: "builder_error + 'a \<Rightarrow> ('a \<Rightarrow> builder_error + 'b) \<Rightarrow> builder_error + 'b" where
  "bindBuilder (Inl e) f = Inl e"
| "bindBuilder (Inr x) f = f x"

definition MainBuilder :: "compiler \<Rightarrow> string \<Rightarrow> string \<Rightarrow> string \<Rightarrow> builder_error + 's main_builder" where
  "MainBuilder cc ver brief extended =
     bindBuilder (addOption cc [LongName ''verbose''] increaseVerbosity
         ''Log informational messages to stderr; useful for debugging.''
         \<lparr>version = ver, briefDescription = brief, extendedDescription = extended, options = [],
          shortOptions = [], longOptions = [], subCommands = [], args = [], finalCallback = None\<rparr>)
       (addOption cc [LongName ''version''] (printVersion ver) ''Print version information and exit.'')"

definition addSubCommand ::
    "compiler \<Rightarrow> string \<Rightarrow> 's main_func \<Rightarrow> string \<Rightarrow> 's main_builder \<Rightarrow> builder_error + 's main_builder" where
  "addSubCommand cc name getSubParser helpText m =
     (if args m \<noteq> [] then Inl SubCommandsWithArgs
      else if finalCallback m \<noteq> None then Inl SubCommandsWithFinal
      else case map_insert (arrayLess cc) (subCommands m) name (getSubParser, helpText) of
             None \<Rightarrow> Inl DuplicateSubCommand
           | Some es \<Rightarrow> Inr (m\<lparr>subCommands := es\<rparr>))"

definition UINT_MAX :: nat where "UINT_MAX = 2 ^ 32 - 1"

definition addArg ::
    "string \<Rightarrow> (string \<Rightarrow> 's callback) \<Rightarrow> nat \<Rightarrow> nat \<Rightarrow> 's main_builder \<Rightarrow> builder_error + 's main_builder" where
  "addArg t callback lo hi m =
     (if subCommands m \<noteq> [] then Inl SubCommandsWithArgs
      else Inr (m\<lparr>args := args m @ [\<lparr>arg_title = t, arg_callback = callback, minCount = lo, maxCount = hi\<rparr>]\<rparr>))"

definition expectArg :: "string \<Rightarrow> (string \<Rightarrow> 's callback) \<Rightarrow> 's main_builder \<Rightarrow> builder_error + 's main_builder" where
  "expectArg t callback = addArg t callback 1 1"

definition expectOptionalArg :: "string \<Rightarrow> (string \<Rightarrow> 's callback) \<Rightarrow> 's main_builder \<Rightarrow> builder_error + 's main_builder" where
  "expectOptionalArg t callback = addArg t callback 0 1"

definition expectZeroOrMoreArgs :: "string \<Rightarrow> (string \<Rightarrow> 's callback) \<Rightarrow> 's main_builder \<Rightarrow> builder_error + 's main_builder" where
  "expectZeroOrMoreArgs t callback = addArg t callback 0 UINT_MAX"

definition expectOneOrMoreArgs :: "string \<Rightarrow> (string \<Rightarrow> 's callback) \<Rightarrow> 's main_builder \<Rightarrow> builder_error + 's main_builder" where
  "expectOneOrMoreArgs t callback = addArg t callback 1 UINT_MAX"

definition callAfterParsing :: "'s callback \<Rightarrow> 's main_builder \<Rightarrow> builder_error + 's main_builder" where
  "callAfterParsing callback m =
     (if finalCallback m \<noteq> None then Inl FinalTwice
      else if subCommands m \<noteq> [] then Inl SubCommandsWithFinal
      else Inr (m\<lparr>finalCallback := Some callback\<rparr>))"


section \<open>Help\<close>

text \<open>
  \<open>wrapText\<close>: the text is cut into lines of at most \<open>width\<close> characters. The position of a break is
  searched backwards from \<open>width\<close>; reading the position after the last character gives NUL.
\<close>

definition charAt :: "string \<Rightarrow> nat \<Rightarrow> char" where
  "charAt s i = (if i < length s then s ! i else CHR 0x00)"

fun findWrapPos :: "string \<Rightarrow> nat \<Rightarrow> nat \<Rightarrow> nat" where
  "findWrapPos s width 0 = width"
| "findWrapPos s width (Suc w) =
     (if charAt s (Suc w) = CHR '' '' \<and> charAt s w \<noteq> CHR '' '' then Suc w else findWrapPos s width w)"

definition skipSpaces :: "string \<Rightarrow> string" where
  "skipSpaces s =
     (let s = dropWhile (\<lambda>c. c = CHR '' '') s
      in if s \<noteq> [] \<and> hd s = CHR 0x0a then tl s else s)"

fun wrapLines :: "nat \<Rightarrow> string \<Rightarrow> nat \<Rightarrow> string \<Rightarrow> string option" where
  "wrapLines width indent fuel [] = Some []"
| "wrapLines width indent 0 (c # s) = None"
| "wrapLines width indent (Suc fuel) (c # s) =
     (let t = c # s; line = takeWhile (\<lambda>c. c \<noteq> CHR 0x0a) t
      in if CHR 0x0a \<in> set t \<and> length line \<le> width then
           map_option (\<lambda>out. indent @ line @ [CHR 0x0a] @ out)
             (wrapLines width indent fuel (drop (length line + 1) t))
         else if length t \<le> width then Some (indent @ t @ [CHR 0x0a])
         else let pos = findWrapPos t width width
              in map_option (\<lambda>out. indent @ take pos t @ [CHR 0x0a] @ out)
                   (wrapLines width indent fuel (skipSpaces (drop pos t))))"

definition wrapText :: "string \<Rightarrow> string \<Rightarrow> string option" where
  "wrapText indent s = wrapLines (80 - length indent) indent (length s) s"

text \<open>\<open>OptionDisplayOrder\<close>: by the first short name, or else the first letter of the first long name.\<close>

fun displayShort :: "option_name list \<Rightarrow> char \<Rightarrow> char" where
  "displayShort [] acc = acc"
| "displayShort (ShortName c # names) acc = c"
| "displayShort (LongName n # names) acc =
     displayShort names (if acc = CHR 0x00 then charAt n 0 else acc)"

fun displayLong :: "option_name list \<Rightarrow> string" where
  "displayLong [] = []"
| "displayLong (LongName n # names) = n"
| "displayLong (ShortName c # names) = displayLong names"

definition displayLess :: "compiler \<Rightarrow> option_name list \<Rightarrow> option_name list \<Rightarrow> bool" where
  "displayLess cc a b =
     (let aShort = displayShort a CHR 0x00; bShort = displayShort b CHR 0x00
      in if charLess aShort bShort then True
         else if charLess bShort aShort then False
         else arrayLess cc (displayLong a) (displayLong b))"

text \<open>The \<open>std::set\<close> of options: an element equivalent to one that is there is not inserted.\<close>

fun set_insert :: "('k \<Rightarrow> 'k \<Rightarrow> bool) \<Rightarrow> 'k \<Rightarrow> 'k list \<Rightarrow> 'k list" where
  "set_insert lt k [] = [k]"
| "set_insert lt k (k' # ks) =
     (if lt k k' then k # k' # ks else if lt k' k then k' # set_insert lt k ks else k' # ks)"

definition optionLess :: "compiler \<Rightarrow> 's main_builder \<Rightarrow> nat \<Rightarrow> nat \<Rightarrow> bool" where
  "optionLess cc m a b =
     (a \<noteq> b \<and> displayLess cc (opt_names (options m ! a)) (opt_names (options m ! b)))"

definition sortedOptions :: "compiler \<Rightarrow> 's main_builder \<Rightarrow> nat list" where
  "sortedOptions cc m =
     fold (set_insert (optionLess cc m)) (map snd (shortOptions m) @ map snd (longOptions m)) []"

fun optionNameText :: "'s main_option \<Rightarrow> option_name \<Rightarrow> string" where
  "optionNameText opt (LongName n) = ''--'' @ n @ (if hasArg opt then ''='' @ argTitle opt else [])"
| "optionNameText opt (ShortName c) = ''-'' @ [c] @ (if hasArg opt then argTitle opt else [])"

fun commaSeparated :: "string list \<Rightarrow> string" where
  "commaSeparated [] = []"
| "commaSeparated [n] = n"
| "commaSeparated (n # m # ns) = n @ '', '' @ commaSeparated (m # ns)"

abbreviation newline :: string where "newline \<equiv> [CHR 0x0a]"

definition argUsage :: "'s arg_spec \<Rightarrow> string" where
  "argUsage a =
     '' '' @ (if minCount a = 0 then ''['' @ arg_title a @ (if maxCount a > 1 then ''...]'' else '']'')
            else arg_title a @ (if maxCount a > 1 then ''...'' else []))"

definition commandLines :: "(string \<times> 's main_func \<times> string) list \<Rightarrow> string" where
  "commandLines cmds =
     (let maxLen = foldl max 0 (map (length \<circ> fst) cmds)
      in concat (map (\<lambda>(name, _, help). ''  '' @ name @ replicate (maxLen - length name) CHR '' '' @
                        ''  '' @ help @ newline) cmds))"

fun optionLines :: "'s main_option list \<Rightarrow> string option" where
  "optionLines [] = Some []"
| "optionLines (opt # opts) =
     Option.bind (wrapText ''        '' (opt_helpText opt)) (\<lambda>help.
     Option.bind (optionLines opts) (\<lambda>rest.
     Some (''    '' @ commaSeparated (map (optionNameText opt) (opt_names opt)) @ newline @ help @ rest)))"

definition helpText :: "compiler \<Rightarrow> 's main_builder \<Rightarrow> string \<Rightarrow> string option" where
  "helpText cc m programName =
     (let sorted = sortedOptions cc m
      in Option.bind (wrapText [] (briefDescription m)) (\<lambda>brief.
         Option.bind (optionLines (map (\<lambda>i. options m ! i) sorted)) (\<lambda>optLines.
         Option.bind (wrapText [] (extendedDescription m)) (\<lambda>extended.
         Some (
           ''Usage: '' @ programName @ (if sorted = [] then [] else '' [<option>...]'') @
           (if subCommands m = [] then concat (map argUsage (args m)) else '' <command> [<arg>...]'') @
           newline @ newline @ brief @
           (if subCommands m \<noteq> [] then
              newline @ ''Commands:'' @ newline @ commandLines (subCommands m) @
              newline @ ''See '' @ [CHR 0x27] @ programName @ '' help <command>'' @ [CHR 0x27] @
              '' for more information on a specific command.'' @ newline
            else []) @
           (if sorted \<noteq> [] then
              newline @ ''Options:'' @ newline @ optLines @
              ''    --help'' @ newline @ ''        Display this help text and exit.'' @ newline
            else []) @
           (if extendedDescription m \<noteq> [] then newline @ extended else []))))))"

section \<open>Parsing the command line\<close>

definition usageError :: "string \<Rightarrow> string \<Rightarrow> 's process \<Rightarrow> outcome \<times> 's process" where
  "usageError programName message p =
     exitError (programName @ '': '' @ message @ newline @ ''Try '' @ [CHR 0x27] @ programName @
       '' --help'' @ [CHR 0x27] @ '' for more information.'') p"

text \<open>The help text of the model is \<open>None\<close> only if the wrapping did not end.\<close>

definition printHelp :: "compiler \<Rightarrow> 's main_builder \<Rightarrow> string \<Rightarrow> 's process \<Rightarrow> outcome \<times> 's process" where
  "printHelp cc m programName p =
     (case helpText cc m programName of Some t \<Rightarrow> exitInfo t p | None \<Rightarrow> (Returned, p))"

text \<open>A callback and the usage error it may lead to; \<open>None\<close>: parsing goes on.\<close>

definition runCallback ::
    "string \<Rightarrow> (string \<Rightarrow> string) \<Rightarrow> 's callback \<Rightarrow> 's process \<Rightarrow> outcome option \<times> 's process" where
  "runCallback programName message callback p =
     (case callback p of
        (Valid, p) \<Rightarrow> (None, p)
      | (Invalid error, p) \<Rightarrow> (case usageError programName (message error) p of (out, p) \<Rightarrow> (Some out, p))
      | (Exit code, p) \<Rightarrow> (Some (Exited code), p)
      | (Throws exception, p) \<Rightarrow> (Some (Threw exception), p))"

definition fails :: "outcome \<times> 's process \<Rightarrow> outcome option \<times> 's process" where
  "fails r = (case r of (out, p) \<Rightarrow> (Some out, p))"

definition looksLikeOption :: "string \<Rightarrow> bool" where
  "looksLikeOption s \<longleftrightarrow> startsWithChars s ''-'' \<and> length s > 1"

text \<open>A long option: how parsing goes on and the parameters that are left.\<close>

definition longOption ::
    "compiler \<Rightarrow> 's main_builder \<Rightarrow> string \<Rightarrow> string \<Rightarrow> string list \<Rightarrow> 's process \<Rightarrow>
     (outcome option \<times> 's process) \<times> string list" where
  "longOption cc m programName param rest p =
     (let (name, maybeArg) =
            (if CHR ''='' \<in> set param then
               (drop 2 (takeWhile (\<lambda>c. c \<noteq> CHR ''='') param),
                Some (tl (dropWhile (\<lambda>c. c \<noteq> CHR ''='') param)))
             else (drop 2 param, None))
      in case map_find (arrayLess cc) (longOptions m) name of
           None \<Rightarrow>
             (if param = ''--help'' then (fails (printHelp cc m programName p), rest)
              else (fails (usageError programName (''--'' @ name @ '': unrecognized option'') p), rest))
         | Some i \<Rightarrow>
             (let opt = options m ! i
              in if hasArg opt then
                   (case maybeArg of
                      Some arg \<Rightarrow>
                        (runCallback programName (\<lambda>e. param @ '': '' @ e) (funcWithArg opt arg) p, rest)
                    | None \<Rightarrow>
                        (if rest \<noteq> [] \<and> \<not> looksLikeOption (hd rest) then
                           (runCallback programName (\<lambda>e. param @ ''='' @ hd rest @ '': '' @ e)
                              (funcWithArg opt (hd rest)) p, tl rest)
                         else (fails (usageError programName (''--'' @ name @ '': missing argument'') p), rest)))
                 else
                   (case maybeArg of
                      None \<Rightarrow> (runCallback programName (\<lambda>e. param @ '': '' @ e) (opt_func opt) p, rest)
                    | Some arg \<Rightarrow>
                        (fails (usageError programName
                           (''--'' @ name @ '': option does not accept an argument'') p), rest))))"

text \<open>The letters of a parameter with short options, after the dash.\<close>

fun shortOptionLetters ::
    "'s main_builder \<Rightarrow> string \<Rightarrow> string \<Rightarrow> string list \<Rightarrow> 's process \<Rightarrow>
     (outcome option \<times> 's process) \<times> string list" where
  "shortOptionLetters m programName [] rest p = ((None, p), rest)"
| "shortOptionLetters m programName (c # cs) rest p =
     (case map_find charLess (shortOptions m) c of
        None \<Rightarrow> (fails (usageError programName (''-'' @ [c] @ '': unrecognized option'') p), rest)
      | Some i \<Rightarrow>
          (let opt = options m ! i
           in if hasArg opt then
                (if cs \<noteq> [] then
                   (runCallback programName (\<lambda>e. ''-'' @ [c] @ '' '' @ cs @ '': '' @ e) (funcWithArg opt cs) p, rest)
                 else if rest \<noteq> [] \<and> \<not> looksLikeOption (hd rest) then
                   (runCallback programName (\<lambda>e. ''-'' @ [c] @ '' '' @ hd rest @ '': '' @ e)
                      (funcWithArg opt (hd rest)) p, tl rest)
                 else (fails (usageError programName (''-'' @ [c] @ '': missing argument'') p), rest))
              else
                (case runCallback programName (\<lambda>e. ''-'' @ [c] @ '': '' @ e) (opt_func opt) p of
                   (None, p) \<Rightarrow> shortOptionLetters m programName cs rest p
                 | (Some out, p) \<Rightarrow> ((Some out, p), rest))))"

text \<open>The answers to \<open>help help\<close>, by the number of further \<open>help\<close>s.\<close>

definition helpAboutHelp :: "nat \<Rightarrow> 's process \<Rightarrow> outcome \<times> 's process" where
  "helpAboutHelp count p =
     (if count = 0 then exitInfo ''Help about help?  We must go deeper...'' p
      else if count = 1 then
        exitInfo (''Yo dawg, I heard you like help.  So I wrote you some help about how to use '' @
                  ''help so you can get help on help.'') p
      else if count = 2 then exitInfo (''Help, I'' @ [CHR 0x27] @ ''m trapped in a help text factory!'') p
      else if count < 10 then exitError ''Killed by signal 911 (SIGHELP)'' p
      else exitInfo ''How to keep an idiot busy...'' p)"

definition subCommand ::
    "compiler \<Rightarrow> 's main_builder \<Rightarrow> string \<Rightarrow> string \<Rightarrow> string list \<Rightarrow> 's process \<Rightarrow> outcome \<times> 's process" where
  "subCommand cc m programName param rest p =
     (case map_find (arrayLess cc) (subCommands m) param of
        Some (subMain, _) \<Rightarrow> subMain (programName @ '' '' @ param) rest p
      | None \<Rightarrow>
          if param = ''help'' then
            (case rest of
               [] \<Rightarrow> printHelp cc m programName p
             | topic # others \<Rightarrow>
                 (case map_find (arrayLess cc) (subCommands m) topic of
                    Some (subMain, _) \<Rightarrow> subMain (programName @ '' '' @ topic) [''--help''] p
                  | None \<Rightarrow>
                      if topic = ''help'' then
                        helpAboutHelp (length (takeWhile (\<lambda>s. s = ''help'' \<or> s = ''--help'') others)) p
                      else usageError programName (topic @ '': unknown command'') p))
          else usageError programName (param @ '': unknown command'') p)"

datatype parsed = Arguments "string list" | Finished outcome

lemma longOption_rest: "length (snd (longOption cc m programName param rest p)) \<le> length rest"
  by (simp add: longOption_def Let_def case_prod_unfold split: option.split)

lemma shortOptionLetters_rest: "length (snd (shortOptionLetters m programName cs rest p)) \<le> length rest"
  by (induction m programName cs rest p rule: shortOptionLetters.induct)
     (auto simp: Let_def split: option.split prod.split)

function parseParams ::
    "compiler \<Rightarrow> 's main_builder \<Rightarrow> string \<Rightarrow> string list \<Rightarrow> string list \<Rightarrow> 's process \<Rightarrow> parsed \<times> 's process" where
  "parseParams cc m programName [] arguments p = (Arguments arguments, p)"
| "parseParams cc m programName (param # rest) arguments p =
     (if param = ''--'' then (Arguments (arguments @ rest), p)
      else if startsWithChars param ''--'' then
        (let r = longOption cc m programName param rest p
         in case fst (fst r) of
              None \<Rightarrow> parseParams cc m programName (snd r) arguments (snd (fst r))
            | Some out \<Rightarrow> (Finished out, snd (fst r)))
      else if looksLikeOption param then
        (let r = shortOptionLetters m programName (tl param) rest p
         in case fst (fst r) of
              None \<Rightarrow> parseParams cc m programName (snd r) arguments (snd (fst r))
            | Some out \<Rightarrow> (Finished out, snd (fst r)))
      else if subCommands m \<noteq> [] then
        (case subCommand cc m programName param rest p of (out, p) \<Rightarrow> (Finished out, p))
      else parseParams cc m programName rest (arguments @ [param]) p)"
  by pat_completeness auto
termination
  by (relation "measure (\<lambda>(_, _, _, params, _, _). length params)")
     (auto simp: less_Suc_eq_le longOption_rest shortOptionLetters_rest)

declare parseParams.simps(2) [simp del]

section \<open>Distributing the arguments\<close>

text \<open>
  The arguments a specification must get, and then, up to its maximum, those that later
  specifications do not require. The results: whether parsing goes on, the process, the arguments
  left and the number that is still required.
\<close>

fun takeRequired ::
    "'s arg_spec \<Rightarrow> string \<Rightarrow> nat \<Rightarrow> string list \<Rightarrow> nat \<Rightarrow> 's process \<Rightarrow>
     (outcome option \<times> 's process) \<times> string list \<times> nat" where
  "takeRequired spec programName 0 argPos required p = ((None, p), argPos, required)"
| "takeRequired spec programName (Suc n) [] required p =
     (fails (usageError programName (''missing argument '' @ arg_title spec) p), [], required)"
| "takeRequired spec programName (Suc n) (a # argPos) required p =
     (case runCallback programName (\<lambda>e. a @ '': '' @ e) (arg_callback spec a) p of
        (None, p) \<Rightarrow> takeRequired spec programName n argPos (required - 1) p
      | (Some out, p) \<Rightarrow> ((Some out, p), argPos, required))"

fun takeExtra ::
    "'s arg_spec \<Rightarrow> string \<Rightarrow> nat \<Rightarrow> string list \<Rightarrow> nat \<Rightarrow> 's process \<Rightarrow>
     (outcome option \<times> 's process) \<times> string list" where
  "takeExtra spec programName 0 argPos required p = ((None, p), argPos)"
| "takeExtra spec programName (Suc n) [] required p = ((None, p), [])"
| "takeExtra spec programName (Suc n) (a # argPos) required p =
     (if length (a # argPos) > required then
        (case runCallback programName (\<lambda>e. a @ '': '' @ e) (arg_callback spec a) p of
           (None, p) \<Rightarrow> takeExtra spec programName n argPos required p
         | (Some out, p) \<Rightarrow> ((Some out, p), argPos))
      else ((None, p), a # argPos))"

fun takeSpecs ::
    "'s arg_spec list \<Rightarrow> string \<Rightarrow> string list \<Rightarrow> nat \<Rightarrow> 's process \<Rightarrow>
     (outcome option \<times> 's process) \<times> string list" where
  "takeSpecs [] programName argPos required p = ((None, p), argPos)"
| "takeSpecs (spec # specs) programName argPos required p =
     (case takeRequired spec programName (minCount spec) argPos required p of
        ((Some out, p), argPos, required) \<Rightarrow> ((Some out, p), argPos)
      | ((None, p), argPos, required) \<Rightarrow>
          (case takeExtra spec programName (maxCount spec - minCount spec) argPos required p of
             ((Some out, p), argPos) \<Rightarrow> ((Some out, p), argPos)
           | ((None, p), argPos) \<Rightarrow> takeSpecs specs programName argPos required p))"

definition handleArguments ::
    "'s main_builder \<Rightarrow> string \<Rightarrow> string list \<Rightarrow> 's process \<Rightarrow> outcome \<times> 's process" where
  "handleArguments m programName arguments p =
     (if subCommands m \<noteq> [] then usageError programName ''missing command'' p
      else case takeSpecs (args m) programName arguments (sum_list (map minCount (args m))) p of
             ((Some out, p), argPos) \<Rightarrow> (out, p)
           | ((None, p), a # argPos) \<Rightarrow> usageError programName (a @ '': too many arguments'') p
           | ((None, p), []) \<Rightarrow>
               (case finalCallback m of
                  None \<Rightarrow> (Returned, p)
                | Some f \<Rightarrow>
                    (case runCallback programName (\<lambda>e. e) f p of
                       (Some out, p) \<Rightarrow> (out, p)
                     | (None, p) \<Rightarrow> (Returned, p))))"

definition MainImpl :: "compiler \<Rightarrow> 's main_builder \<Rightarrow> 's main_func" where
  "MainImpl cc m programName params p =
     (case parseParams cc m programName params [] p of
        (Finished out, p) \<Rightarrow> (out, p)
      | (Arguments arguments, p) \<Rightarrow> handleArguments m programName arguments p)"

text \<open>\<open>runMainAndExit\<close>: returning is exiting, an uncaught exception is reported as an error.\<close>

definition runMainAndExit :: "'s main_func \<Rightarrow> string list \<Rightarrow> 's process \<Rightarrow> int \<times> 's process" where
  "runMainAndExit func argv p =
     (case func (hd argv) (tl argv) p of
        (Exited code, p) \<Rightarrow> (code, p)
      | (Returned, p) \<Rightarrow> (if context_hadErrors p then 1 else 0, p)
      | (Threw exception, p) \<Rightarrow>
          (1, context_error (''*** Uncaught exception ***'' @ newline @ exception) p))"

section \<open>The compiler's command line\<close>

text \<open>
  \<open>CompilerMain\<close> of \<open>zomc.cc\<close>; the client state is the module loader of the driver. How an exception of
  the loader or of the builder is described is a parameter.
\<close>

definition addSourceCallback :: "disk \<Rightarrow> (loader_error \<Rightarrow> string) \<Rightarrow> string \<Rightarrow> ModuleLoader callback" where
  "addSourceCallback d describe source p =
     (case addSource d source (client p) of
        Inl e \<Rightarrow> (Throws (describe e), p)
      | Inr (None, l) \<Rightarrow> (Valid, p\<lparr>client := l\<rparr>)
      | Inr (Some error, l) \<Rightarrow> (Invalid error, p\<lparr>client := l\<rparr>))"

definition addCompileOptions ::
    "compiler \<Rightarrow> disk \<Rightarrow> (loader_error \<Rightarrow> string) \<Rightarrow> ModuleLoader main_builder \<Rightarrow> builder_error + ModuleLoader main_builder" where
  "addCompileOptions cc d describe builder =
     bindBuilder (addOptionWithArg cc [ShortName CHR ''o'', LongName ''output''] (\<lambda>spec p. (Valid, p)) ''<dir>''
       ''Specify the output path.'' builder) (\<lambda>builder.
     bindBuilder (addOptionWithArg cc [ShortName CHR ''e'', LongName ''emit''] (\<lambda>emitType p. (Valid, p)) ''<type>''
       ''Set output type (ast|ir|binary)'' builder) (\<lambda>builder.
     bindBuilder (addOption cc [ShortName CHR ''d'', LongName ''dump-ast''] (\<lambda>p. (Valid, p))
       ''Dump the Abstract Syntax Tree to stdout.'' builder) (\<lambda>builder.
     bindBuilder (expectOneOrMoreArgs ''<source>'' (addSourceCallback d describe) builder)
       (callAfterParsing (\<lambda>p. (Valid, p))))))"

definition buildMain :: "compiler \<Rightarrow> (builder_error \<Rightarrow> string) \<Rightarrow> builder_error + 's main_builder \<Rightarrow> 's main_func" where
  "buildMain cc describe b =
     (case b of Inl e \<Rightarrow> (\<lambda>programName params p. (Threw (describe e), p)) | Inr m \<Rightarrow> MainImpl cc m)"

definition getCompileMain ::
    "compiler \<Rightarrow> disk \<Rightarrow> (loader_error \<Rightarrow> string) \<Rightarrow> (builder_error \<Rightarrow> string) \<Rightarrow> string \<Rightarrow> ModuleLoader main_func" where
  "getCompileMain cc d describe describeBuilder ver =
     buildMain cc describeBuilder
       (bindBuilder (MainBuilder cc ver ''Compiles Zomlang sources and generates one or more targets.'' [])
          (addCompileOptions cc d describe))"

definition getRunMain :: "compiler \<Rightarrow> (builder_error \<Rightarrow> string) \<Rightarrow> string \<Rightarrow> ModuleLoader main_func" where
  "getRunMain cc describeBuilder ver = buildMain cc describeBuilder (MainBuilder cc ver [] [])"

definition getMain ::
    "compiler \<Rightarrow> disk \<Rightarrow> (loader_error \<Rightarrow> string) \<Rightarrow> (builder_error \<Rightarrow> string) \<Rightarrow> string \<Rightarrow> ModuleLoader main_func" where
  "getMain cc d describe describeBuilder ver =
     buildMain cc describeBuilder
       (bindBuilder (MainBuilder cc ver ''Command-line tool for Zomlang Compiler.'' []) (\<lambda>m.
        bindBuilder (addSubCommand cc ''compile'' (getCompileMain cc d describe describeBuilder ver)
          ''Compiles source code in one or more target.'' m)
          (addSubCommand cc ''run'' (getRunMain cc describeBuilder ver)
             ''Run a zomlang program with project configuration.'')))"

section \<open>Wrapping\<close>

lemma findWrapPos_bounds: "w \<le> width \<Longrightarrow> 0 < width \<Longrightarrow> 0 < findWrapPos s width w \<and> findWrapPos s width w \<le> width"
  by (induction s width w rule: findWrapPos.induct) auto

lemma skipSpaces_facts:
  "length (skipSpaces s) \<le> length s"
  "filter (\<lambda>c. c \<notin> {CHR '' '', CHR 0x0a}) (skipSpaces s) = filter (\<lambda>c. c \<notin> {CHR '' '', CHR 0x0a}) s"
proof -
  let ?d = "dropWhile (\<lambda>c. c = CHR '' '') s"
  have d: "length ?d \<le> length s" by (simp add: length_dropWhile_le)
  have f: "filter (\<lambda>c. c \<notin> {CHR '' '', CHR 0x0a}) ?d = filter (\<lambda>c. c \<notin> {CHR '' '', CHR 0x0a}) s"
    by (induction s) auto
  show "length (skipSpaces s) \<le> length s" 
    using d by (auto simp: skipSpaces_def Let_def intro: order.trans [OF diff_le_self])
  show "filter (\<lambda>c. c \<notin> {CHR '' '', CHR 0x0a}) (skipSpaces s) = filter (\<lambda>c. c \<notin> {CHR '' '', CHR 0x0a}) s"
    unfolding f [symmetric] by (cases ?d) (simp_all add: skipSpaces_def Let_def)
qed

definition visible :: "string \<Rightarrow> string" where
  "visible s = filter (\<lambda>c. c \<notin> {CHR '' '', CHR 0x0a}) s"

definition linesOf :: "string \<Rightarrow> string list" where
  "linesOf s = splitOn CHR 0x0a [] s"

lemma linesOf_line:
  "CHR 0x0a \<notin> set l \<Longrightarrow> linesOf (l @ [CHR 0x0a] @ out) = l # linesOf out"
  using splitOn_append [of "CHR 0x0a" "[]" l out] by (simp add: linesOf_def splitOn_word)

lemma newline_positions:
  assumes "CHR 0x0a \<in> set t \<longrightarrow> width < length (takeWhile (\<lambda>c. c \<noteq> CHR 0x0a) t)" and "pos \<le> width" and "width < length t"
  shows "CHR 0x0a \<notin> set (take pos t)"
proof
  let ?l = "takeWhile (\<lambda>c. c \<noteq> CHR 0x0a) t"
  assume n: "CHR 0x0a \<in> set (take pos t)"
  then have "CHR 0x0a \<in> set t" by (rule in_set_takeD)
  with assms have "pos \<le> length ?l" by simp
  then have "take pos t = take pos ?l" by (metis takeWhile_eq_take take_take min.absorb1)
  with n show False by (metis in_set_takeD set_takeWhileD)
qed

lemma split_newline:
  "CHR 0x0a \<in> set t \<Longrightarrow>
   t = takeWhile (\<lambda>c. c \<noteq> CHR 0x0a) t @ [CHR 0x0a] @ drop (length (takeWhile (\<lambda>c. c \<noteq> CHR 0x0a) t) + 1) t"
  by (induction t) auto

lemma wrapLines_result:
  assumes "0 < width" and "length s \<le> fuel" and "CHR 0x0a \<notin> set indent"
  shows "\<exists>out. wrapLines width indent fuel s = Some out \<and>
    (\<forall>l \<in> set (linesOf out). length l \<le> length indent + width) \<and>
    (visible indent = [] \<longrightarrow> visible out = visible s)"
  using assms
proof (induction width indent fuel s rule: wrapLines.induct)
  case (1 width indent fuel)
  then show ?case by (simp add: linesOf_def visible_def)
next
  case (3 width indent fuel c s)
  define t where "t = c # s"
  let ?l = "takeWhile (\<lambda>c. c \<noteq> CHR 0x0a) t" and ?pos = "findWrapPos t width width"
  have vt: "visible t = visible (take n t) @ visible (drop n t)" for n
    unfolding visible_def by (metis append_take_drop_id filter_append)
  have step: "wrapLines width indent (Suc fuel) (c # s) =
      (if CHR 0x0a \<in> set t \<and> length ?l \<le> width then
         map_option (\<lambda>out. indent @ ?l @ [CHR 0x0a] @ out) (wrapLines width indent fuel (drop (length ?l + 1) t))
       else if length t \<le> width then Some (indent @ t @ [CHR 0x0a])
       else map_option (\<lambda>out. indent @ take ?pos t @ [CHR 0x0a] @ out)
              (wrapLines width indent fuel (skipSpaces (drop ?pos t))))"
    unfolding t_def wrapLines.simps(3) Let_def ..
  note pos = findWrapPos_bounds [of width width t, simplified, OF "3.prems"(1)]
  consider (nl) "CHR 0x0a \<in> set t" "length ?l \<le> width"
    | (last) "\<not> (CHR 0x0a \<in> set t \<and> length ?l \<le> width)" "length t \<le> width"
    | (wrap) "\<not> (CHR 0x0a \<in> set t \<and> length ?l \<le> width)" "width < length t" by linarith
  then show ?case
  proof cases
    case nl
    have "length (drop (length ?l + 1) t) \<le> fuel" using "3.prems"(2) by (simp add: t_def)
    with "3.IH"(1) [OF t_def refl] nl "3.prems" obtain out
      where o: "wrapLines width indent fuel (drop (length ?l + 1) t) = Some out"
        and l: "\<forall>l \<in> set (linesOf out). length l \<le> length indent + width"
        and v: "visible indent = [] \<longrightarrow> visible out = visible (drop (length ?l + 1) t)" by (auto simp: t_def)
    have vt': "visible t = visible ?l @ visible (drop (length ?l + 1) t)"
      unfolding visible_def by (subst split_newline [OF nl(1)]) simp
    have nn: "CHR 0x0a \<notin> set (indent @ ?l)" using "3.prems"(3) by (auto dest: set_takeWhileD)
    have w: "wrapLines width indent (Suc fuel) (c # s) = Some ((indent @ ?l) @ [CHR 0x0a] @ out)"
      unfolding step using nl o by simp
    show ?thesis
      using w l v linesOf_line [OF nn, of out] nl(2) vt'
      by (auto simp: visible_def t_def)
  next
    case last
    have n: "CHR 0x0a \<notin> set t" using last le_trans [OF length_takeWhile_le] by blast
    have w: "wrapLines width indent (Suc fuel) (c # s) = Some ((indent @ t) @ [CHR 0x0a] @ [])"
      unfolding step if_not_P [OF last(1)] using last(2) by simp
    show ?thesis
      using w linesOf_line [of "indent @ t" "[]"] n "3.prems"(3) last(2)
      by (auto simp: visible_def t_def linesOf_def)
  next
    case wrap
    have "length (skipSpaces (drop ?pos t)) \<le> fuel"
    proof -
      have "length t \<le> Suc fuel" using "3.prems"(2) by (simp add: t_def)
      with skipSpaces_facts(1) [of "drop ?pos t", unfolded length_drop] pos show ?thesis by linarith
    qed
    with "3.IH"(2) [OF t_def refl] wrap "3.prems" obtain out
      where o: "wrapLines width indent fuel (skipSpaces (drop ?pos t)) = Some out"
        and l: "\<forall>l \<in> set (linesOf out). length l \<le> length indent + width"
        and v: "visible indent = [] \<longrightarrow> visible out = visible (skipSpaces (drop ?pos t))" by (auto simp: t_def)
    have n: "CHR 0x0a \<notin> set (indent @ take ?pos t)"
      using newline_positions [of t width ?pos] wrap pos "3.prems"(3) by auto
    have w: "wrapLines width indent (Suc fuel) (c # s) = Some ((indent @ take ?pos t) @ [CHR 0x0a] @ out)"
      unfolding step if_not_P [OF wrap(1)] using wrap(2) o by simp
    show ?thesis
      using w l v linesOf_line [OF n, of out] pos vt [of ?pos] skipSpaces_facts(2) [of "drop ?pos t"]
      by (auto simp: visible_def t_def)
  qed
qed simp

section \<open>Distribution of arguments\<close>

text \<open>A specification whose callback accepts every argument and records it with its title.\<close>

definition records :: "(string \<times> string) list arg_spec \<Rightarrow> bool" where
  "records spec \<longleftrightarrow>
     (\<forall>a p. arg_callback spec a p = (Valid, p\<lparr>client := client p @ [(arg_title spec, a)]\<rparr>)) \<and>
     minCount spec \<le> maxCount spec"

abbreviation logged :: "'a list process \<Rightarrow> 'a list \<Rightarrow> 'a list process" where
  "logged p log \<equiv> p\<lparr>client := client p @ log\<rparr>"

lemma runCallback_records:
  "records spec \<Longrightarrow> runCallback pn msg (arg_callback spec a) p = (None, logged p [(arg_title spec, a)])"
  by (simp add: runCallback_def records_def)

lemma takeRequired_records:
  assumes "records spec"
  shows "n \<le> length argPos \<Longrightarrow> takeRequired spec pn n argPos required p =
      ((None, logged p (map (Pair (arg_title spec)) (take n argPos))), drop n argPos, required - n)"
  by (induction n arbitrary: argPos required p) (auto simp: runCallback_records assms Suc_le_length_iff)

lemma takeRequired_missing:
  assumes "records spec"
  shows "length argPos < n \<Longrightarrow> \<exists>p' rest. takeRequired spec pn n argPos required p = ((Some (Exited 1), p'), rest)"
proof (induction n arbitrary: argPos required p)
  case (Suc n)
  then show ?case
    by (cases argPos) (simp_all add: runCallback_records assms fails_def usageError_def exitError_def
        processExit_def context_error_def Let_def)
qed simp

lemma takeExtra_records:
  assumes "records spec"
  shows "takeExtra spec pn n argPos required p =
    (let e = min n (length argPos - required)
     in ((None, logged p (map (Pair (arg_title spec)) (take e argPos))), drop e argPos))"
proof (induction n arbitrary: argPos p)
  case (Suc n)
  show ?case
  proof (cases argPos)
    case (Cons a rest)
    show ?thesis
    proof (cases "length argPos > required")
      case True
      then have "min (Suc n) (length argPos - required) = Suc (min n (length rest - required))"
        using Cons by (simp add: Suc_diff_le)
      then show ?thesis using True Cons Suc.IH by (simp add: runCallback_records assms Let_def)
    qed (simp add: Cons)
  qed simp
qed simp

text \<open>All specifications together, from as many required arguments as their minima add up to.\<close>

abbreviation sumMin :: "'s arg_spec list \<Rightarrow> nat" where "sumMin specs \<equiv> sum_list (map minCount specs)"
abbreviation sumMax :: "'s arg_spec list \<Rightarrow> nat" where "sumMax specs \<equiv> sum_list (map maxCount specs)"

lemma takeSpecs_records:
  assumes "\<forall>spec \<in> set specs. records spec" and "sumMin specs \<le> length argPos"
  shows "\<exists>log rest. takeSpecs specs pn argPos (sumMin specs) p = ((None, logged p log), rest) \<and>
    map snd log @ rest = argPos \<and> (rest = [] \<longleftrightarrow> length argPos \<le> sumMax specs)"
  using assms
proof (induction specs arbitrary: argPos p)
  case Nil
  then show ?case by (intro exI [of _ "[]"] exI [of _ argPos]) simp
next
  case (Cons spec specs)
  let ?min = "minCount spec" and ?S = "sumMin specs"
  define e where "e = min (maxCount spec - ?min) (length (drop ?min argPos) - ?S)"
  define rest where "rest = drop e (drop ?min argPos)"
  from Cons.prems have r: "records spec" and n: "?min + ?S \<le> length argPos" by simp_all
  have l: "length rest = length argPos - ?min - e" by (simp add: rest_def)
  have le: "?S \<le> length rest" unfolding l e_def using n by simp
  have "\<exists>log rest'. takeSpecs specs pn rest ?S q = ((None, logged q log), rest') \<and> map snd log @ rest' = rest \<and>
      (rest' = [] \<longleftrightarrow> length rest \<le> sumMax specs)" for q
    by (rule Cons.IH) (use Cons.prems le in simp_all)
  then obtain log rest' where
    t: "takeSpecs specs pn rest ?S (logged p (map (Pair (arg_title spec)) (take (?min + e) argPos))) =
        ((None, logged (logged p (map (Pair (arg_title spec)) (take (?min + e) argPos))) log), rest')"
    and c: "map snd log @ rest' = rest" and m: "rest' = [] \<longleftrightarrow> length rest \<le> sumMax specs"
    by blast
  have tk: "take ?min argPos @ take e (drop ?min argPos) = take (?min + e) argPos" by (simp add: take_add)
  have "takeSpecs (spec # specs) pn argPos (sumMin (spec # specs)) p =
      takeSpecs specs pn rest ?S (logged p (map (Pair (arg_title spec)) (take (?min + e) argPos)))"
  proof -
    have "takeRequired spec pn ?min argPos (?min + ?S) p =
        ((None, logged p (map (Pair (arg_title spec)) (take ?min argPos))), drop ?min argPos, ?S)"
      using n by (simp add: takeRequired_records [OF r])
    moreover have "takeExtra spec pn (maxCount spec - ?min) (drop ?min argPos) ?S q =
        ((None, logged q (map (Pair (arg_title spec)) (take e (drop ?min argPos)))), rest)" for q
      unfolding takeExtra_records [OF r] Let_def e_def [symmetric] rest_def ..
    ultimately show ?thesis by (simp flip: tk)
  qed
  moreover have "length argPos \<le> sumMax (spec # specs) \<longleftrightarrow> length rest \<le> sumMax specs"
  proof -
    have "?S \<le> sumMax specs"
      using Cons.prems(1) by (intro sum_list_mono) (auto simp: records_def)
    then show ?thesis using n r unfolding l e_def records_def by (auto simp: min_def)
  qed
  ultimately show ?case
    using t c m
    by (intro exI [of _ "map (Pair (arg_title spec)) (take (?min + e) argPos) @ log"] exI [of _ rest'])
       (auto simp: rest_def comp_def add.commute [of e])
qed

lemma takeSpecs_missing:
  assumes "\<forall>spec \<in> set specs. records spec" and "length argPos < sumMin specs"
  shows "\<exists>p' rest. takeSpecs specs pn argPos (sumMin specs) p = ((Some (Exited 1), p'), rest)"
  using assms
proof (induction specs arbitrary: argPos p)
  case (Cons spec specs)
  let ?min = "minCount spec" and ?S = "sumMin specs"
  from Cons.prems have r: "records spec" by simp
  show ?case
  proof (cases "length argPos < ?min")
    case True
    from takeRequired_missing [OF r this, of pn "?min + ?S" p] show ?thesis by auto
  next
    case False
    then have l: "length (drop ?min argPos) < ?S" using Cons.prems(2) by simp
    have "takeRequired spec pn ?min argPos (?min + ?S) p =
        ((None, logged p (map (Pair (arg_title spec)) (take ?min argPos))), drop ?min argPos, ?S)"
      using False by (simp add: takeRequired_records [OF r])
    moreover have "takeExtra spec pn k (drop ?min argPos) ?S q = ((None, q), drop ?min argPos)" for k q
      unfolding takeExtra_records [OF r] Let_def using l by simp
    ultimately show ?thesis using Cons.IH [OF _ l] Cons.prems(1) by simp
  qed
qed simp

section \<open>Properties\<close>

text \<open>
  C25. Arguments are distributed completely: with specifications that accept what they are given, a
  number of arguments between the sum of the minima and the sum of the maxima is consumed, each
  argument by one callback and in order; with any other number the program exits with status 1.
\<close>

theorem arguments_distributed:
  assumes "\<forall>spec \<in> set (args m). records spec" and "subCommands m = []" and "finalCallback m = None"
  shows "if sumMin (args m) \<le> length arguments \<and> length arguments \<le> sumMax (args m)
    then \<exists>log. handleArguments m pn arguments p = (Returned, logged p log) \<and> map snd log = arguments
    else fst (handleArguments m pn arguments p) = Exited 1"
proof (cases "sumMin (args m) \<le> length arguments")
  case True
  from takeSpecs_records [OF assms(1) this, of pn p] obtain log rest
    where t: "takeSpecs (args m) pn arguments (sumMin (args m)) p = ((None, logged p log), rest)"
      and c: "map snd log @ rest = arguments" "rest = [] \<longleftrightarrow> length arguments \<le> sumMax (args m)" by blast
  show ?thesis
  proof (cases rest)
    case Nil
    with c have "map snd log = arguments" by simp
    with Nil show ?thesis using True t c assms(2,3) by (auto simp: handleArguments_def)
  next
    case (Cons a as)
    then show ?thesis using True t c assms(2)
      by (simp add: handleArguments_def usageError_def exitError_def processExit_def context_error_def Let_def)
  qed
next
  case False
  from takeSpecs_missing [OF assms(1), of arguments pn p] False show ?thesis
    using assms(2) by (auto simp: handleArguments_def)
qed

theorem arguments_distributed_witness:
  "\<forall>p. \<exists>m :: (string \<times> string) list main_builder. \<exists>log. handleArguments m ''zomc'' [''a'', ''b''] p = (Returned, logged p log) \<and> map snd log = [''a'', ''b'']"
proof
  fix p :: "(string \<times> string) list process"
  define m :: "(string \<times> string) list main_builder" where
    "m = \<lparr>version = [], briefDescription = [], extendedDescription = [], options = [], shortOptions = [],
      longOptions = [], subCommands = [], args = [\<lparr>arg_title = ''<source>'',
        arg_callback = \<lambda>a p. (Valid, p\<lparr>client := client p @ [(''<source>'', a)]\<rparr>), minCount = 1, maxCount = UINT_MAX\<rparr>],
      finalCallback = None\<rparr>"
  have "\<forall>spec \<in> set (args m). records spec" by (simp add: m_def records_def UINT_MAX_def)
  from arguments_distributed [OF this, of "[''a'', ''b'']" "''zomc''" p] show "\<exists>m :: (string \<times> string) list main_builder. \<exists>log.
      handleArguments m ''zomc'' [''a'', ''b''] p = (Returned, logged p log) \<and> map snd log = [''a'', ''b'']"
    by (intro exI [of _ m]) (simp add: m_def UINT_MAX_def)
qed

text \<open>
  C26. The wrapping of help text always ends and loses nothing: for an indentation of fewer than 80
  blanks, every line of the output has at most 80 characters and the visible characters are those
  of the text, in order.
\<close>

theorem wrapText_correct:
  assumes "set indent \<subseteq> {CHR '' ''}" and "length indent < 80"
  shows "\<exists>out. wrapText indent s = Some out \<and> (\<forall>l \<in> set (linesOf out). length l \<le> 80) \<and> visible out = visible s"
proof -
  have "CHR 0x0a \<notin> set indent" "visible indent = []"
    using assms(1) by (auto simp: visible_def filter_empty_conv)
  with wrapLines_result [of "80 - length indent" s "length s" indent] assms(2) show ?thesis
    unfolding wrapText_def by auto
qed

theorem wrapText_correct_witness:
  "\<exists>out. wrapText ''    '' ''some words'' = Some out \<and> (\<forall>l \<in> set (linesOf out). length l \<le> 80) \<and>
     visible out = visible ''some words''"
  by (rule wrapText_correct) simp_all

text \<open>
  A double dash ends option parsing: whatever follows it, options included, is an argument.
\<close>

theorem double_dash_ends_options:
  assumes "\<forall>a \<in> set before. \<not> startsWithChars a ''-''" and "subCommands m = []"
  shows "parseParams cc m pn (before @ ''--'' # after) arguments p = (Arguments (arguments @ before @ after), p)"
  using assms(1)
proof (induction before arbitrary: arguments)
  case Nil
  then show ?case by (simp add: parseParams.simps(2))
next
  case (Cons a before)
  then have "\<not> startsWithChars a ''--''" "\<not> looksLikeOption a" "a \<noteq> ''--''"
    by (cases a; auto simp: looksLikeOption_def)+
  then show ?case using Cons assms(2) by (simp add: parseParams.simps(2))
qed

theorem double_dash_ends_options_witness:
  "\<forall>p. \<exists>m :: nat main_builder. parseParams ConstexprBuiltins m ''zomc'' ([''a''] @ ''--'' # [''-b'']) [] p = (Arguments ([] @ [''a''] @ [''-b'']), p)"
proof -
  define m :: "nat main_builder" where
    "m = \<lparr>version = [], briefDescription = [], extendedDescription = [], options = [], shortOptions = [],
      longOptions = [], subCommands = [], args = [], finalCallback = None\<rparr>"
  show ?thesis by (rule allI, rule exI [of _ m], rule double_dash_ends_options) (simp_all add: m_def)
qed

lemma concat_discardWritten: "concat (discardWritten chunks n) = drop n (concat chunks)"
  by (induction chunks n rule: discardWritten.induct) auto

lemma writeLoop_output:
  assumes "Failed \<notin> set rs" and "writeLoop chunks rs out = Some out'"
  shows "out' = out @ concat chunks"
  using assms
proof (induction chunks rs out rule: writeLoop.induct)
  case (4 chunks n rs out)
  show ?case
  proof (cases "discardWritten chunks n = []")
    case True
    then have "drop n (concat chunks) = []" using concat_discardWritten [of chunks n] by simp
    with True 4 show ?thesis by simp
  next
    case False
    with 4 show ?thesis by (simp add: Let_def concat_discardWritten)
  qed
qed simp_all

text \<open>
  Whatever \<open>writev\<close> writes at a time, and however often it is interrupted, a line that is
  reported as finished without a failure was written completely, and a message without a line
  break got one.
\<close>

theorem writeLine_complete:
  assumes "Failed \<notin> set rs" and "writeLoop (lineChunks message) rs [] = Some out"
  shows "out = (if message = [] \<or> last message = CHR 0x0a then message else message @ [CHR 0x0a])"
proof -
  have "endsWithChars message [CHR 0x0a] \<longleftrightarrow> last message = CHR 0x0a" if "message \<noteq> []"
    using that by (cases message rule: rev_cases) (simp_all add: endsWithChars_def)
  with writeLoop_output [OF assms] show ?thesis by (auto simp: lineChunks_def)
qed

theorem writeLine_complete_witness:
  "\<exists>out. writeLoop (lineChunks ''hi'') [Wrote 1, Interrupted, Wrote 1, Wrote 1] [] = Some out \<and> out = ''hi'' @ [CHR 0x0a]"
proof -
  let ?rs = "[Wrote 1, Interrupted, Wrote 1, Wrote 1]"
  have "writeLoop (lineChunks ''hi'') ?rs [] \<noteq> None"
    by (simp add: lineChunks_def endsWithChars_def Let_def)
  then obtain out where w: "writeLoop (lineChunks ''hi'') ?rs [] = Some out" by blast
  have "out = (if ''hi'' = [] \<or> last ''hi'' = CHR 0x0a then ''hi'' else ''hi'' @ [CHR 0x0a])"
    by (rule writeLine_complete [OF _ w]) simp
  then have "out = ''hi'' @ [CHR 0x0a]" by simp
  with w show ?thesis by blast
qed

text \<open>
  On a compiler that knows \<open>__has_feature\<close> but not the feature of constexpr string builtins, no
  main function can be built: the two standard options have names of equal length, which the
  comparison of character arrays then takes for equal.
\<close>

theorem no_builder_without_builtins:
  "MainBuilder HasFeatureOnly ver brief extended = (Inl DuplicateOption :: builder_error + 's main_builder)"
  by (simp add: MainBuilder_def addOption_def addOptionImpl_def arrayLess_def)

section \<open>The compile command\<close>

text \<open>The sources of a command line, loaded one after the other; \<open>None\<close>: one of them is rejected.\<close>

fun addSources :: "disk \<Rightarrow> string list \<Rightarrow> ModuleLoader \<Rightarrow> ModuleLoader option" where
  "addSources d [] l = Some l"
| "addSources d (s # ss) l =
     (case addSource d s l of Inr (None, l) \<Rightarrow> addSources d ss l | _ \<Rightarrow> None)"

definition rejected :: "outcome \<Rightarrow> bool" where
  "rejected out \<longleftrightarrow> (case out of Returned \<Rightarrow> False | Exited code \<Rightarrow> code = 1 | Threw e \<Rightarrow> True)"

lemma runCallback_addSource:
  "case addSource d s (client p) of
     Inr (None, l) \<Rightarrow> runCallback pn message (addSourceCallback d describe s) p = (None, p\<lparr>client := l\<rparr>)
   | _ \<Rightarrow> \<exists>out p'. runCallback pn message (addSourceCallback d describe s) p = (Some out, p') \<and> rejected out"
  by (auto simp: rejected_def runCallback_def addSourceCallback_def usageError_def exitError_def context_error_def
      processExit_def Let_def split: sum.split prod.split option.split)

lemma takeExtra_addSource:
  assumes "arg_callback spec = addSourceCallback d describe" and "length argPos \<le> k"
  shows "case addSources d argPos (client p) of
     Some l \<Rightarrow> takeExtra spec pn k argPos 0 p = ((None, p\<lparr>client := l\<rparr>), [])
   | None \<Rightarrow> \<exists>out p' rest. takeExtra spec pn k argPos 0 p = ((Some out, p'), rest) \<and> rejected out"
  using assms(2)
proof (induction argPos arbitrary: k p)
  case Nil
  then show ?case by (cases k) simp_all
next
  case (Cons a argPos)
  then obtain k' where k: "k = Suc k'" "length argPos \<le> k'" by (cases k) simp_all
  note cb = runCallback_addSource [where d = d and s = a and p = p and pn = pn and describe = describe and
      message = "\<lambda>e. a @ '': '' @ e"]
  show ?case
  proof (cases "\<exists>l. addSource d a (client p) = Inr (None, l)")
    case True
    then obtain l where l: "addSource d a (client p) = Inr (None, l)" by blast
    with cb have "takeExtra spec pn k (a # argPos) 0 p = takeExtra spec pn k' argPos 0 (p\<lparr>client := l\<rparr>)"
      by (simp add: k assms(1))
    with Cons.IH [OF k(2), of "p\<lparr>client := l\<rparr>"] l show ?thesis by (simp split: option.splits)
  next
    case False
    with cb obtain out p' where
      "runCallback pn (\<lambda>e. a @ '': '' @ e) (addSourceCallback d describe a) p = (Some out, p')"
      "rejected out"
      by (auto split: sum.splits prod.splits option.splits)
    moreover have "addSources d (a # argPos) (client p) = None"
      using False by (auto split: sum.splits prod.splits option.splits)
    ultimately show ?thesis by (simp add: k assms(1))
  qed
qed

lemma takeSpecs_addSource:
  assumes cb: "arg_callback spec = addSourceCallback d describe" and "minCount spec = 1"
    and "maxCount spec = UINT_MAX" and "sources \<noteq> []" and "length sources \<le> UINT_MAX"
  shows "case addSources d sources (client p) of
     Some l \<Rightarrow> takeSpecs [spec] pn sources 1 p = ((None, p\<lparr>client := l\<rparr>), [])
   | None \<Rightarrow> \<exists>out p' rest. takeSpecs [spec] pn sources 1 p = ((Some out, p'), rest) \<and> rejected out"
proof -
  from assms(4) obtain a ss where s: "sources = a # ss" by (cases sources) simp_all
  note first = runCallback_addSource [where d = d and s = a and p = p and pn = pn and describe = describe and
      message = "\<lambda>e. a @ '': '' @ e"]
  show ?thesis
  proof (cases "\<exists>l. addSource d a (client p) = Inr (None, l)")
    case True
    then obtain l where l: "addSource d a (client p) = Inr (None, l)" by blast
    have "length ss \<le> UINT_MAX - 1" using assms(5) s by simp
    note more_sources = takeExtra_addSource [OF cb this, of pn "p\<lparr>client := l\<rparr>"]
    from l first have "takeRequired spec pn 1 sources 1 p = ((None, p\<lparr>client := l\<rparr>), ss, 0)"
      by (simp add: s cb)
    with more_sources l show ?thesis
      by (auto simp: s assms(2,3) split: option.splits)
  next
    case False
    with first obtain out p' where r:
      "runCallback pn (\<lambda>e. a @ '': '' @ e) (addSourceCallback d describe a) p = (Some out, p')" "rejected out"
      by (auto split: sum.splits prod.splits option.splits)
    moreover have "addSources d sources (client p) = None"
      using False by (auto simp: s split: sum.splits prod.splits option.splits)
    ultimately show ?thesis by (simp add: s cb assms(2,3))
  qed
qed

lemma getMain_compile:
  assumes "cc \<noteq> HasFeatureOnly"
  shows "getMain cc d describe describeBuilder ver pn (''compile'' # params) p =
    getCompileMain cc d describe describeBuilder ver (pn @ '' '' @ ''compile'') params p"
  using assms
  by (simp add: getMain_def buildMain_def MainBuilder_def addOption_def addOptionImpl_def addSubCommand_def
      arrayLess_def MainImpl_def parseParams.simps(2) looksLikeOption_def subCommand_def startsWithChars_def
      split: prod.split)

lemma parseParams_plain:
  assumes "\<forall>a \<in> set params. \<not> startsWithChars a ''-''" and "subCommands m = []"
  shows "parseParams cc m pn params arguments p = (Arguments (arguments @ params), p)"
  using assms(1)
proof (induction params arbitrary: arguments)
  case (Cons a params)
  then have "\<not> startsWithChars a ''--''" "\<not> looksLikeOption a" "a \<noteq> ''--''"
    by (cases a; auto simp: looksLikeOption_def)+
  then show ?case using Cons assms(2) by (simp add: parseParams.simps(2))
qed simp

lemma getCompileMain_arguments:
  assumes "cc \<noteq> HasFeatureOnly" and "\<forall>s \<in> set sources. \<not> startsWithChars s ''-''"
  shows "\<exists>m spec. getCompileMain cc d describe describeBuilder ver pn sources p = handleArguments m pn sources p \<and>
    subCommands m = [] \<and> args m = [spec] \<and> arg_callback spec = addSourceCallback d describe \<and>
    minCount spec = 1 \<and> maxCount spec = UINT_MAX \<and> finalCallback m = Some (\<lambda>p. (Valid, p))"
proof -
  define b where "b = bindBuilder (MainBuilder cc ver ''Compiles Zomlang sources and generates one or more targets.'' [])
    (addCompileOptions cc d describe)"
  have "\<exists>m. b = Inr m \<and> subCommands m = [] \<and> (\<exists>spec. args m = [spec] \<and> arg_callback spec = addSourceCallback d describe \<and>
    minCount spec = 1 \<and> maxCount spec = UINT_MAX) \<and> finalCallback m = Some (\<lambda>p. (Valid, p))"
    using assms(1)
    by (simp add: b_def MainBuilder_def addOption_def addOptionImpl_def addOptionWithArg_def addCompileOptions_def
        arrayLess_def charLess_def expectOneOrMoreArgs_def addArg_def callAfterParsing_def)
  then obtain m spec where m: "b = Inr m" "subCommands m = []" "args m = [spec]"
      "arg_callback spec = addSourceCallback d describe" "minCount spec = 1" "maxCount spec = UINT_MAX"
      "finalCallback m = Some (\<lambda>p. (Valid, p))" by blast
  have "getCompileMain cc d describe describeBuilder ver pn sources p = handleArguments m pn sources p"
    unfolding getCompileMain_def b_def [symmetric]
    by (simp add: buildMain_def m(1) MainImpl_def parseParams_plain [OF assms(2) m(2)])
  with m show ?thesis by blast
qed

text \<open>
  C9. The compiler as a whole: \<open>zomc compile\<close> with at least one source loads the sources in the order
  of the command line and exits with status 0 when all of them are accepted, and with status 1
  otherwise.
\<close>

theorem zomc_compile:
  assumes "cc \<noteq> HasFeatureOnly" and "sources \<noteq> []" and "length sources \<le> UINT_MAX"
    and "\<forall>s \<in> set sources. \<not> startsWithChars s ''-''" and "\<not> context_hadErrors p"
  shows "case addSources d sources (client p) of
     Some l \<Rightarrow> runMainAndExit (getMain cc d describe describeBuilder ver) (pn # ''compile'' # sources) p =
         (0, p\<lparr>client := l\<rparr>)
   | None \<Rightarrow> fst (runMainAndExit (getMain cc d describe describeBuilder ver) (pn # ''compile'' # sources) p) = 1"
proof -
  let ?pn = "pn @ '' '' @ ''compile''"
  from getCompileMain_arguments [OF assms(1,4)] obtain m spec where
    c: "getCompileMain cc d describe describeBuilder ver ?pn sources p = handleArguments m ?pn sources p" and
    m: "subCommands m = []" "args m = [spec]" "finalCallback m = Some (\<lambda>p. (Valid, p))" and
    s: "arg_callback spec = addSourceCallback d describe" "minCount spec = 1" "maxCount spec = UINT_MAX" by blast
  note run = takeSpecs_addSource [OF s assms(2,3), of ?pn p]
  show ?thesis
  proof (cases "addSources d sources (client p)")
    case None
    with run obtain out p' rest where "takeSpecs [spec] ?pn sources 1 p = ((Some out, p'), rest)" "rejected out"
      by auto
    then show ?thesis
      by (simp add: None runMainAndExit_def getMain_compile [OF assms(1)] c [simplified] handleArguments_def m s rejected_def
          split: outcome.splits)
  next
    case (Some l)
    with run have "takeSpecs [spec] ?pn sources 1 p = ((None, p\<lparr>client := l\<rparr>), [])" by simp
    then show ?thesis
      by (simp add: Some runMainAndExit_def getMain_compile [OF assms(1)] c [simplified] handleArguments_def m s runCallback_def assms(5))
  qed
qed

text \<open>A disk without files rejects every source.\<close>

theorem zomc_compile_witness:
  "fst (runMainAndExit
     (getMain NoHasFeature \<lparr>getCurrentPath = [], currentDir = 0, rootDir = 1, openFile = (\<lambda>_ _. None),
        fileContents = (\<lambda>_. []), bucketCount = (\<lambda>_. 1)\<rparr> (\<lambda>_. ''loader'') (\<lambda>_. ''builder'') ''1.0'')
     [''zomc'', ''compile'', ''main.c'']
     \<lparr>client = ModuleLoader_new, stdout_text = [], stderr_text = [], context_hadErrors = False, infoLogging = False\<rparr>) = 1"
proof -
  let ?d = "\<lparr>getCurrentPath = [], currentDir = 0, rootDir = 1, openFile = (\<lambda>_ _. None),
    fileContents = (\<lambda>_. []), bucketCount = (\<lambda>_. 1)\<rparr> :: disk"
  let ?p = "\<lparr>client = ModuleLoader_new, stdout_text = [], stderr_text = [], context_hadErrors = False,
    infoLogging = False\<rparr>"
  have a: "addSources ?d [''main.c''] (client ?p) = None" by (simp add: addSource_def endsWithChars_def)
  have h: "[''main.c''] \<noteq> []" "length [''main.c''] \<le> UINT_MAX" "NoHasFeature \<noteq> HasFeatureOnly"
    "\<forall>s \<in> set [''main.c'']. \<not> startsWithChars s ''-''" "\<not> context_hadErrors ?p"
    by (simp_all add: UINT_MAX_def)
  show ?thesis using zomc_compile [OF h(3,1,2,4,5), of ?d "\<lambda>_. ''loader''" "\<lambda>_. ''builder''" "''1.0''" "''zomc''"]
    unfolding a option.case by blast
qed

end
