(* ===== verification/Char_Group.thy ===== *)
theory Char_Group
  imports Prelude
begin

text \<open>
  Sets of characters: \<open>CharGroup_\<close> of \<open>zc/parse/char.h\<close>, four 64-bit words with one bit for each
  character, and the character classes that the file defines.

  \<open>int\<close> arguments are integers; a shift of 1 by 63 and the subtraction after it are taken modulo
  2 to the 64. The main lemmas say which characters each operation adds, so that the clients reason
  with sets of characters and never with bits.
\<close>

section \<open>Bit sets\<close>

text \<open>The code of a character as the \<open>int\<close> it is promoted to.\<close>

definition charCode :: "char \<Rightarrow> int" where
  "charCode c = int (of_char c)"

record CharGroup =
  bits :: "uint64 list"

definition oneBits :: "int \<Rightarrow> uint64" where
  "oneBits count = (if count \<le> 0 then 0 else if count \<ge> 64 then - 1 else push_bit (nat count) 1 - 1)"

definition bitAt :: "int \<Rightarrow> uint64" where
  "bitAt index = (if index < 0 then 0 else if index \<ge> 64 then 0 else push_bit (nat index) 1)"

definition CharGroup_make :: "uint64 \<Rightarrow> uint64 \<Rightarrow> uint64 \<Rightarrow> uint64 \<Rightarrow> CharGroup" where
  "CharGroup_make a b c d = \<lparr>bits = [a, b, c, d]\<rparr>"

definition CharGroup_empty :: CharGroup where
  "CharGroup_empty = CharGroup_make 0 0 0 0"

definition orRange :: "CharGroup \<Rightarrow> char \<Rightarrow> char \<Rightarrow> CharGroup" where
  "orRange g lo hi =
     CharGroup_make
       (bits g ! 0 OR (oneBits (charCode hi + 1) AND NOT (oneBits (charCode lo))))
       (bits g ! 1 OR (oneBits (charCode hi - 63) AND NOT (oneBits (charCode lo - 64))))
       (bits g ! 2 OR (oneBits (charCode hi - 127) AND NOT (oneBits (charCode lo - 128))))
       (bits g ! 3 OR (oneBits (charCode hi - 191) AND NOT (oneBits (charCode lo - 192))))"

definition orChar :: "CharGroup \<Rightarrow> char \<Rightarrow> CharGroup" where
  "orChar g c =
     CharGroup_make (bits g ! 0 OR bitAt (charCode c)) (bits g ! 1 OR bitAt (charCode c - 64))
       (bits g ! 2 OR bitAt (charCode c - 128)) (bits g ! 3 OR bitAt (charCode c - 256))"

fun orAny :: "CharGroup \<Rightarrow> string \<Rightarrow> CharGroup" where
  "orAny g [] = g"
| "orAny g (c # chars) = orAny (orChar g c) chars"

definition orGroup :: "CharGroup \<Rightarrow> CharGroup \<Rightarrow> CharGroup" where
  "orGroup g other =
     CharGroup_make (bits g ! 0 OR bits other ! 0) (bits g ! 1 OR bits other ! 1)
       (bits g ! 2 OR bits other ! 2) (bits g ! 3 OR bits other ! 3)"

definition invert :: "CharGroup \<Rightarrow> CharGroup" where
  "invert g =
     CharGroup_make (NOT (bits g ! 0)) (NOT (bits g ! 1)) (NOT (bits g ! 2)) (NOT (bits g ! 3))"

definition contains :: "CharGroup \<Rightarrow> char \<Rightarrow> bool" where
  "contains g c \<longleftrightarrow> bits g ! (of_char c div 64) AND push_bit (of_char c mod 64) 1 \<noteq> 0"

fun containsAll :: "CharGroup \<Rightarrow> string \<Rightarrow> bool" where
  "containsAll g [] = True"
| "containsAll g (c # cs) = (if \<not> contains g c then False else containsAll g cs)"

definition charRange :: "char \<Rightarrow> char \<Rightarrow> CharGroup" where
  "charRange lo hi = orRange CharGroup_empty lo hi"

definition anyOfChars :: "string \<Rightarrow> CharGroup" where
  "anyOfChars chars = orAny CharGroup_empty chars"

section \<open>The operations as operations on sets\<close>

lemma contains_bit: "contains g c \<longleftrightarrow> bit (bits g ! (of_char c div 64)) (of_char c mod 64)"
  unfolding contains_def by (simp add: bit_iff_and_push_bit_not_eq_0)

lemma bit_oneBits: "i < 64 \<Longrightarrow> bit (oneBits n) i \<longleftrightarrow> int i < n"
proof -
  assume i: "i < 64"
  have "push_bit k (1 :: uint64) - 1 = mask k" for k
    by (simp add: mask_eq_exp_minus_1 push_bit_eq_mult)
  with i show ?thesis by (auto simp: oneBits_def bit_simps)
qed

lemma bit_bitAt: "i < 64 \<Longrightarrow> bit (bitAt n) i \<longleftrightarrow> int i = n"
  by (auto simp: bitAt_def bit_simps)

lemma word_index:
  fixes n :: nat
  shows "n < 64 \<Longrightarrow> n div 64 = 0 \<and> n mod 64 = n"
    and "64 \<le> n \<Longrightarrow> n < 128 \<Longrightarrow> n div 64 = 1 \<and> n mod 64 = n - 64"
    and "128 \<le> n \<Longrightarrow> n < 192 \<Longrightarrow> n div 64 = 2 \<and> n mod 64 = n - 128"
    and "192 \<le> n \<Longrightarrow> n < 256 \<Longrightarrow> n div 64 = 3 \<and> n mod 64 = n - 192"
proof -
  have "n div 64 = k \<and> n mod 64 = n - 64 * k" if "64 * k \<le> n" "n < 64 * Suc k" for k
    using div_nat_eqI [OF that] by (simp add: modulo_nat_def)
  from this [of 0] this [of 1] this [of 2] this [of 3]
  show "n < 64 \<Longrightarrow> n div 64 = 0 \<and> n mod 64 = n"
    and "64 \<le> n \<Longrightarrow> n < 128 \<Longrightarrow> n div 64 = 1 \<and> n mod 64 = n - 64"
    and "128 \<le> n \<Longrightarrow> n < 192 \<Longrightarrow> n div 64 = 2 \<and> n mod 64 = n - 128"
    and "192 \<le> n \<Longrightarrow> n < 256 \<Longrightarrow> n div 64 = 3 \<and> n mod 64 = n - 192" by simp_all
qed

lemma contains_make:
  "contains (CharGroup_make w0 w1 w2 w3) c \<longleftrightarrow>
     (let n = of_char c :: nat
      in if n < 64 then bit w0 n else if n < 128 then bit w1 (n - 64)
         else if n < 192 then bit w2 (n - 128) else bit w3 (n - 192))"
proof -
  define n :: nat where "n = of_char c"
  have "n < 256" by (simp add: n_def)
  then consider "n < 64" | "64 \<le> n" "n < 128" | "128 \<le> n" "n < 192" | "192 \<le> n" "n < 256" by linarith
  then show ?thesis
    unfolding contains_bit n_def [symmetric]
    by cases (simp_all add: word_index CharGroup_make_def Let_def)
qed

text \<open>Every group that the operations build has four words.\<close>

definition wfGroup :: "CharGroup \<Rightarrow> bool" where
  "wfGroup g \<longleftrightarrow> length (bits g) = 4"

lemma wfGroup_ops [simp]:
  "wfGroup CharGroup_empty" "wfGroup (orRange g lo hi)" "wfGroup (orChar g c)" "wfGroup (orGroup g h)"
  "wfGroup (invert g)" "wfGroup (charRange lo hi)"
  by (simp_all add: wfGroup_def CharGroup_empty_def orRange_def orChar_def orGroup_def invert_def
      charRange_def CharGroup_make_def)

lemma wfGroup_orAny [simp]: "wfGroup g \<Longrightarrow> wfGroup (orAny g cs)" "wfGroup (anyOfChars cs)"
proof -
  show *: "wfGroup g \<Longrightarrow> wfGroup (orAny g cs)" for g
    by (induction cs arbitrary: g) simp_all
  show "wfGroup (anyOfChars cs)" unfolding anyOfChars_def by (rule *) simp
qed

lemma wfGroup_words:
  assumes "wfGroup g"
  obtains w0 w1 w2 w3 where "g = CharGroup_make w0 w1 w2 w3"
proof -
  from assms obtain w0 w1 w2 w3 where "bits g = [w0, w1, w2, w3]"
    by (auto simp: wfGroup_def numeral_eq_Suc length_Suc_conv)
  then have "g = CharGroup_make w0 w1 w2 w3" by (cases g) (simp add: CharGroup_make_def)
  then show thesis by (rule that)
qed

lemma bits_make [simp]:
  "bits (CharGroup_make w0 w1 w2 w3) ! 0 = w0" "bits (CharGroup_make w0 w1 w2 w3) ! Suc 0 = w1"
  "bits (CharGroup_make w0 w1 w2 w3) ! 2 = w2" "bits (CharGroup_make w0 w1 w2 w3) ! 3 = w3"
  by (simp_all add: CharGroup_make_def)

lemma contains_empty [simp]: "\<not> contains CharGroup_empty c"
  by (simp add: CharGroup_empty_def contains_make Let_def)

lemma contains_orRange [simp]:
  assumes "wfGroup g"
  shows "contains (orRange g lo hi) c \<longleftrightarrow> contains g c \<or> (lo \<le> c \<and> c \<le> hi)"
proof -
  define n l h :: nat where "n = of_char c" and "l = of_char lo" and "h = of_char hi"
  have "n < 256" "l < 256" "h < 256" by (simp_all add: n_def l_def h_def)
  moreover from assms obtain w0 w1 w2 w3 where g: "g = CharGroup_make w0 w1 w2 w3" by (rule wfGroup_words)
  ultimately show ?thesis
    unfolding g orRange_def contains_make less_eq_char_def charCode_def
      n_def [symmetric] l_def [symmetric] h_def [symmetric] Let_def
    by (auto simp: bit_simps bit_oneBits)
qed

lemma contains_orChar:
  assumes "wfGroup g"
  shows "contains (orChar g c') c \<longleftrightarrow> contains g c \<or> (c = c' \<and> of_char c' < (192 :: nat))"
proof -
  define n k :: nat where "n = of_char c" and "k = of_char c'"
  have "n < 256" "k < 256" "c = c' \<longleftrightarrow> n = k" by (simp_all add: n_def k_def)
  moreover from assms obtain w0 w1 w2 w3 where g: "g = CharGroup_make w0 w1 w2 w3" by (rule wfGroup_words)
  ultimately show ?thesis
    unfolding g orChar_def contains_make charCode_def n_def [symmetric] k_def [symmetric] Let_def
    by (auto simp: bit_simps bit_bitAt)
qed

lemma contains_orGroup [simp]:
  "wfGroup g \<Longrightarrow> wfGroup h \<Longrightarrow> contains (orGroup g h) c \<longleftrightarrow> contains g c \<or> contains h c"
  by (elim wfGroup_words) (auto simp: orGroup_def contains_make Let_def bit_simps)

lemma contains_invert [simp]: "wfGroup g \<Longrightarrow> contains (invert g) c \<longleftrightarrow> \<not> contains g c"
proof (elim wfGroup_words)
  fix w0 w1 w2 w3 assume g: "g = CharGroup_make w0 w1 w2 w3"
  define n :: nat where "n = of_char c"
  have "n < 256" by (simp add: n_def)
  then show ?thesis unfolding g invert_def contains_make n_def [symmetric] Let_def by (auto simp: bit_simps)
qed

lemma contains_orAny [simp]:
  "wfGroup g \<Longrightarrow> contains (orAny g cs) c \<longleftrightarrow> contains g c \<or> (c \<in> set cs \<and> of_char c < (192 :: nat))"
  by (induction cs arbitrary: g) (auto simp: contains_orChar)

lemma contains_charRange [simp]: "contains (charRange lo hi) c \<longleftrightarrow> lo \<le> c \<and> c \<le> hi"
  by (simp add: charRange_def)

lemma contains_anyOfChars [simp]: "contains (anyOfChars cs) c \<longleftrightarrow> c \<in> set cs \<and> of_char c < (192 :: nat)"
  by (simp add: anyOfChars_def)

lemma containsAll_iff: "containsAll g cs \<longleftrightarrow> (\<forall>c \<in> set cs. contains g c)"
  by (induction cs) simp_all

section \<open>Character classes\<close>

definition alpha :: CharGroup where "alpha = orRange (charRange CHR ''a'' CHR ''z'') CHR ''A'' CHR ''Z''"
definition digit :: CharGroup where "digit = charRange CHR ''0'' CHR ''9''"
definition alphaNumeric :: CharGroup where "alphaNumeric = orGroup alpha digit"
definition nameStart :: CharGroup where "nameStart = orChar alpha CHR ''_''"
definition nameChar :: CharGroup where "nameChar = orChar alphaNumeric CHR ''_''"
definition hexDigit :: CharGroup where
  "hexDigit = orRange (orRange (charRange CHR ''0'' CHR ''9'') CHR ''a'' CHR ''f'') CHR ''A'' CHR ''F''"
definition octDigit :: CharGroup where "octDigit = charRange CHR ''0'' CHR ''7''"
definition whitespaceChar :: CharGroup where
  "whitespaceChar = anyOfChars [CHR '' '', CHR 0x0c, CHR 0x0a, CHR 0x0d, CHR 0x09, CHR 0x0b]"
definition controlChar :: CharGroup where
  "controlChar = invert (orGroup (invert (charRange CHR 0x00 CHR 0x1f)) whitespaceChar)"

lemmas classes = alpha_def digit_def alphaNumeric_def nameStart_def nameChar_def hexDigit_def octDigit_def
  whitespaceChar_def controlChar_def

text \<open>
  The bit sets implement sets of characters: ranges, unions and complements contain exactly the
  characters they say, for all 256 characters, and the shifts and masks never disturb a bit of
  another word.
\<close>

theorem charGroup_refines_sets:
  assumes "wfGroup g" and "wfGroup h"
  shows "{c. contains (orRange g lo hi) c} = {c. contains g c} \<union> {lo..hi} \<and>
    {c. contains (orGroup g h) c} = {c. contains g c} \<union> {c. contains h c} \<and>
    {c. contains (invert g) c} = - {c. contains g c} \<and>
    {c. contains (orAny g cs) c} = {c. contains g c} \<union> (set cs \<inter> {c. of_char c < (192 :: nat)})"
  using assms by auto

theorem charGroup_refines_sets_witness:
  "{c. contains (orRange digit CHR ''a'' CHR ''f'') c} = {c. contains digit c} \<union> {CHR ''a''..CHR ''f''}"
  using charGroup_refines_sets [of digit alpha "CHR ''a''" "CHR ''f''" "[]"] by (simp add: classes)

text \<open>
  \<open>orChar\<close> shifts by the code minus 256 where it should be minus 192: no character of the last
  quarter can be added one by one.
\<close>

theorem orChar_misses_last_quarter:
  assumes "of_char c \<ge> (192 :: nat)"
  shows "\<not> contains (anyOfChars [c]) c"
  using assms by simp

theorem orChar_misses_last_quarter_witness: "\<not> contains (anyOfChars [CHR 0xe9]) CHR 0xe9"
  by (rule orChar_misses_last_quarter) simp
end
