(* ===== verification/Url.thy ===== *)
theory Url
  imports Text_Encoding Char_Group
begin

text \<open>
  URLs: \<open>zc/http/url.cc\<close> and \<open>zc/http/url.h\<close>.

  A failed requirement or assertion is an exception, \<open>Inl\<close>; a parser that returns \<open>Maybe<Url>\<close> gives
  an option below it. A query value that is the unallocated string is \<open>None\<close>. The \<open>bool&\<close> argument of
  the percent decoders is the flag they return.
\<close>

section \<open>Data\<close>

record url_options =
  opt_percentDecode :: bool
  allowEmpty :: bool

record user_info =
  username :: string
  password :: "string option"

record query_param =
  param_name :: string
  param_value :: "string option"

record Url =
  scheme :: string
  userInfo :: "user_info option"
  host :: string
  urlPath :: "string list"
  hasTrailingSlash :: bool
  query :: "query_param list"
  fragment :: "string option"
  urlOptions :: url_options

datatype url_context = REMOTE_HREF | HTTP_PROXY_REQUEST | HTTP_REQUEST

datatype url_error = InvalidUrl | InvalidRelativeUrl | InvalidHost | InvalidPathName | NotConsumed

section \<open>Character groups\<close>

definition ALPHAS :: CharGroup where
  "ALPHAS = orRange (charRange CHR ''a'' CHR ''z'') CHR ''A'' CHR ''Z''"

definition DIGITS :: CharGroup where "DIGITS = charRange CHR ''0'' CHR ''9''"

definition END_AUTHORITY :: CharGroup where "END_AUTHORITY = anyOfChars ''/?#''"

fun getEndPathPart :: "url_context \<Rightarrow> CharGroup" where
  "getEndPathPart REMOTE_HREF = anyOfChars ''/?#''"
| "getEndPathPart HTTP_PROXY_REQUEST = anyOfChars ''/?''"
| "getEndPathPart HTTP_REQUEST = anyOfChars ''/?''"

fun getEndQueryPart :: "url_context \<Rightarrow> CharGroup" where
  "getEndQueryPart REMOTE_HREF = anyOfChars ''&#''"
| "getEndQueryPart HTTP_PROXY_REQUEST = anyOfChars ''&''"
| "getEndQueryPart HTTP_REQUEST = anyOfChars ''&''"

definition SCHEME_CHARS :: CharGroup where "SCHEME_CHARS = orAny (orGroup ALPHAS DIGITS) ''+-.''"
definition NOT_SCHEME_CHARS :: CharGroup where "NOT_SCHEME_CHARS = invert SCHEME_CHARS"
definition HOST_CHARS :: CharGroup where "HOST_CHARS = orAny (orGroup ALPHAS DIGITS) ''.-:[]_''"

section \<open>Helpers\<close>

definition toLowerChar :: "char \<Rightarrow> char" where
  "toLowerChar c = (if CHR ''A'' \<le> c \<and> c \<le> CHR ''Z'' then char_of (of_char c + 32 :: nat) else c)"

definition toLower :: "string \<Rightarrow> string" where
  "toLower s = map toLowerChar s"

text \<open>The text before the first \<open>c\<close> and the text after it.\<close>

definition trySplit :: "string \<Rightarrow> char \<Rightarrow> (string \<times> string) option" where
  "trySplit s c =
     (if c \<in> set s then Some (takeWhile (\<lambda>d. d \<noteq> c) s, tl (dropWhile (\<lambda>d. d \<noteq> c) s)) else None)"

definition splitAny :: "string \<Rightarrow> CharGroup \<Rightarrow> string \<times> string" where
  "splitAny s chars = (takeWhile (\<lambda>c. \<not> contains chars c) s, dropWhile (\<lambda>c. \<not> contains chars c) s)"

definition percentDecode :: "url_options \<Rightarrow> string \<Rightarrow> string \<times> bool" where
  "percentDecode opts s =
     (if opt_percentDecode opts then let r = decodeUriComponent s in (value_of r, hadErrors r)
      else (s, False))"

definition percentDecodeQuery :: "url_options \<Rightarrow> string \<Rightarrow> string \<times> bool" where
  "percentDecodeQuery opts s =
     (if opt_percentDecode opts then let r = decodeWwwForm s in (value_of r, hadErrors r)
      else (s, False))"

definition emptyUrl :: "url_options \<Rightarrow> Url" where
  "emptyUrl opts =
     \<lparr>scheme = [], userInfo = None, host = [], urlPath = [], hasTrailingSlash = False, query = [],
      fragment = None, urlOptions = opts\<rparr>"

text \<open>\<open>clone\<close> copies field by field; the copy of an unallocated value is unallocated.\<close>

definition clone :: "Url \<Rightarrow> Url" where
  "clone u =
     \<lparr>scheme = scheme u,
      userInfo = map_option (\<lambda>ui. \<lparr>username = username ui, password = map_option id (password ui)\<rparr>) (userInfo u),
      host = host u, urlPath = map id (urlPath u), hasTrailingSlash = hasTrailingSlash u,
      query = map (\<lambda>p. \<lparr>param_name = param_name p, param_value = param_value p\<rparr>) (query u),
      fragment = map_option id (fragment u), urlOptions = urlOptions u\<rparr>"

section \<open>Parsing\<close>

text \<open>The parts of a URL that both parsers read; each gives the decoding flag as well.\<close>

definition parseUserInfo :: "url_options \<Rightarrow> string \<Rightarrow> user_info \<times> bool" where
  "parseUserInfo opts userpass =
     (case trySplit userpass CHR '':'' of
        Some (name, rest) \<Rightarrow>
          (let (u, e1) = percentDecode opts name; (p, e2) = percentDecode opts rest
           in (\<lparr>username = u, password = Some p\<rparr>, e1 \<or> e2))
      | None \<Rightarrow> (let (u, e) = percentDecode opts userpass in (\<lparr>username = u, password = None\<rparr>, e)))"

definition parseHost :: "url_options \<Rightarrow> string \<Rightarrow> (string \<times> bool) option" where
  "parseHost opts authority =
     (let (h, e) = percentDecode opts authority
      in if containsAll HOST_CHARS h then Some (toLower h, e) else None)"

definition parseAuthority :: "bool \<Rightarrow> Url \<Rightarrow> string \<Rightarrow> (Url \<times> bool) option" where
  "parseAuthority allowUserInfo result authority =
     (case trySplit authority CHR ''@'' of
        Some (userpass, authority) \<Rightarrow>
          (if \<not> allowUserInfo then None
           else let (ui, e1) = parseUserInfo (urlOptions result) userpass
                in case parseHost (urlOptions result) authority of
                     None \<Rightarrow> None
                   | Some (h, e2) \<Rightarrow> Some (result\<lparr>userInfo := Some ui, host := h\<rparr>, e1 \<or> e2))
      | None \<Rightarrow>
          (case parseHost (urlOptions result) authority of
             None \<Rightarrow> None
           | Some (h, e) \<Rightarrow> Some (result\<lparr>host := h\<rparr>, e)))"

definition pathStep :: "bool \<Rightarrow> string \<Rightarrow> Url \<times> bool \<Rightarrow> Url \<times> bool" where
  "pathStep skipEmpty part st =
     (case st of (result, err) \<Rightarrow>
        if part = ''..'' then (result\<lparr>urlPath := butlast (urlPath result), hasTrailingSlash := True\<rparr>, err)
        else if (part = [] \<and> skipEmpty) \<or> part = ''.'' then (result\<lparr>hasTrailingSlash := True\<rparr>, err)
        else let (p, e) = percentDecode (urlOptions result) part
             in (result\<lparr>urlPath := urlPath result @ [p], hasTrailingSlash := False\<rparr>, err \<or> e))"

lemma splitAny_length: "length (snd (splitAny s g)) \<le> length s"
  by (simp add: splitAny_def length_dropWhile_le)

text \<open>The path of \<open>tryParse\<close>, a slash before each part, and of \<open>tryParseRelative\<close>, a slash between parts.\<close>

function parsePath :: "CharGroup \<Rightarrow> string \<Rightarrow> Url \<times> bool \<Rightarrow> string \<times> Url \<times> bool" where
  "parsePath endPart s st =
     (if \<not> startsWithChars s ''/'' then (s, st)
      else let r = splitAny (tl s) endPart
           in parsePath endPart (snd r)
                (pathStep (\<not> allowEmpty (urlOptions (fst st)) \<or> snd r = []) (fst r) st))"
  by pat_completeness auto
termination
proof (relation "measure (\<lambda>(_, s, _). length s)")
  fix endPart s and st :: "Url \<times> bool" and x
  assume "\<not> \<not> startsWithChars s ''/''" "x = splitAny (tl s) endPart"
  then show "((endPart, snd x, pathStep (\<not> allowEmpty (urlOptions (fst st)) \<or> snd x = []) (fst x) st),
      endPart, s, st) \<in> measure (\<lambda>(_, s, _). length s)"
    using splitAny_length [of "tl s" endPart] by (cases s) auto
qed simp

function parseRelativePath :: "CharGroup \<Rightarrow> string \<Rightarrow> Url \<times> bool \<Rightarrow> string \<times> Url \<times> bool" where
  "parseRelativePath endPart s st =
     (let r = splitAny s endPart; st = pathStep True (fst r) st
      in if \<not> startsWithChars (snd r) ''/'' then (snd r, st)
         else parseRelativePath endPart (tl (snd r)) st)"
  by pat_completeness auto
termination
proof (relation "measure (\<lambda>(_, s, _). length s)")
  fix endPart s and st :: "Url \<times> bool" and x xa
  assume "x = splitAny s endPart" "\<not> \<not> startsWithChars (snd x) ''/''"
  then show "((endPart, tl (snd x), xa), endPart, s, st) \<in> measure (\<lambda>(_, s, _). length s)"
    using splitAny_length [of s endPart] by (cases "snd x") auto
qed simp

definition addParam :: "string \<Rightarrow> Url \<times> bool \<Rightarrow> Url \<times> bool" where
  "addParam part st =
     (case st of (result, err) \<Rightarrow>
        case trySplit part CHR ''='' of
          Some (key, part) \<Rightarrow>
            (let (k, e1) = percentDecodeQuery (urlOptions result) key;
                 (v, e2) = percentDecodeQuery (urlOptions result) part
             in (result\<lparr>query := query result @ [\<lparr>param_name = k, param_value = Some v\<rparr>]\<rparr>, err \<or> e1 \<or> e2))
        | None \<Rightarrow>
            (let (k, e) = percentDecodeQuery (urlOptions result) part
             in (result\<lparr>query := query result @ [\<lparr>param_name = k, param_value = None\<rparr>]\<rparr>, err \<or> e)))"

text \<open>The query; \<open>s\<close> starts with the question mark or ampersand before the next parameter.\<close>

function parseQuery :: "CharGroup \<Rightarrow> bool \<Rightarrow> string \<Rightarrow> Url \<times> bool \<Rightarrow> string \<times> Url \<times> bool" where
  "parseQuery endPart keepEmpty s st =
     (let r = splitAny (tl s) endPart;
          st = (if fst r \<noteq> [] \<or> keepEmpty then addParam (fst r) st else st)
      in if startsWithChars (snd r) ''&'' then parseQuery endPart keepEmpty (snd r) st else (snd r, st))"
  by pat_completeness auto
termination
proof (relation "measure (\<lambda>(_, _, s, _). length s)")
  fix endPart keepEmpty s and st :: "Url \<times> bool" and x xa
  assume "x = splitAny (tl s) endPart" "startsWithChars (snd x) ''&''"
  then show "((endPart, keepEmpty, snd x, xa), endPart, keepEmpty, s, st) \<in> measure (\<lambda>(_, _, s, _). length s)"
    using splitAny_length [of "tl s" endPart] by (cases s; cases "snd x") auto
qed simp

declare parsePath.simps [simp del] parseRelativePath.simps [simp del] parseQuery.simps [simp del]

text \<open>The fragment, the assertion that everything was read, and the decoding errors.\<close>

definition finishParse :: "bool \<Rightarrow> string \<times> Url \<times> bool \<Rightarrow> url_error + Url option" where
  "finishParse allowFragment st =
     (case st of (s, result, err) \<Rightarrow>
        if startsWithChars s ''#'' then
          (if \<not> allowFragment then Inr None
           else let (f, e) = percentDecode (urlOptions result) (tl s)
                in Inr (if err \<or> e then None else Some (result\<lparr>fragment := Some f\<rparr>)))
        else if s \<noteq> [] then Inl NotConsumed
        else Inr (if err then None else Some result))"

text \<open>Scheme and authority of \<open>tryParse\<close>: \<open>None\<close> if the text is rejected.\<close>

definition parseScheme :: "string \<Rightarrow> (string \<times> string) option" where
  "parseScheme s =
     (case trySplit s CHR '':'' of
        None \<Rightarrow> None
      | Some (sch, s) \<Rightarrow>
          (let sch = toLower sch
           in if sch = [] \<or> \<not> contains ALPHAS (hd sch) \<or> \<not> containsAll SCHEME_CHARS (tl sch) then None
              else if \<not> startsWithChars s ''//'' then None
              else Some (sch, drop 2 s)))"

definition parseStart :: "string \<Rightarrow> url_context \<Rightarrow> url_options \<Rightarrow> (string \<times> Url \<times> bool) option" where
  "parseStart s context opts =
     (if context = HTTP_REQUEST then
        (if \<not> startsWithChars s ''/'' then None else Some (s, emptyUrl opts, False))
      else case parseScheme s of
             None \<Rightarrow> None
           | Some (sch, s) \<Rightarrow>
               (let (authority, s) = splitAny s END_AUTHORITY
                in case parseAuthority (context = REMOTE_HREF) ((emptyUrl opts)\<lparr>scheme := sch\<rparr>) authority of
                     None \<Rightarrow> None
                   | Some st \<Rightarrow> Some (s, st)))"

definition tryParse :: "string \<Rightarrow> url_context \<Rightarrow> url_options \<Rightarrow> url_error + Url option" where
  "tryParse s context opts =
     (case parseStart s context opts of
        None \<Rightarrow> Inr None
      | Some (s, st) \<Rightarrow>
          (let (s, st) = parsePath (getEndPathPart context) s st;
               (s, st) = (if startsWithChars s ''?'' then parseQuery (getEndQueryPart context) (allowEmpty opts) s st
                          else (s, st))
           in finishParse (context = REMOTE_HREF) (s, st)))"

definition parse :: "string \<Rightarrow> url_context \<Rightarrow> url_options \<Rightarrow> url_error + Url" where
  "parse s context opts =
     (case tryParse s context opts of
        Inl e \<Rightarrow> Inl e
      | Inr None \<Rightarrow> Inl InvalidUrl
      | Inr (Some u) \<Rightarrow> Inr u)"

text \<open>\<open>tryParseRelative\<close>: the scheme ends at a colon that only scheme characters precede.\<close>

fun relativeScheme :: "string \<Rightarrow> string \<Rightarrow> (string \<times> string) option" where
  "relativeScheme seen [] = None"
| "relativeScheme seen (c # s) =
     (if c = CHR '':'' then Some (seen, s)
      else if contains NOT_SCHEME_CHARS c then None
      else relativeScheme (seen @ [c]) s)"

definition relativeAuthority :: "Url \<Rightarrow> string \<Rightarrow> Url \<Rightarrow> (string \<times> Url \<times> bool) option" where
  "relativeAuthority base s result =
     (if startsWithChars s ''//'' then
        (let (authority, s) = splitAny (drop 2 s) END_AUTHORITY
         in case parseAuthority True result authority of None \<Rightarrow> None | Some st \<Rightarrow> Some (s, st))
      else Some (s, result\<lparr>host := host base,
             userInfo := map_option (\<lambda>ui. \<lparr>username = username ui, password = map_option id (password ui)\<rparr>) (userInfo base)\<rparr>, False))"

definition hasNewPath :: "string \<Rightarrow> bool" where
  "hasNewPath s \<longleftrightarrow> s \<noteq> [] \<and> hd s \<noteq> CHR ''?'' \<and> hd s \<noteq> CHR ''#''"

definition relativePath :: "Url \<Rightarrow> bool \<Rightarrow> string \<Rightarrow> Url \<times> bool \<Rightarrow> string \<times> Url \<times> bool" where
  "relativePath base hadNewAuthority s st =
     (case st of (result, err) \<Rightarrow>
        if hasNewPath s then
          (if hd s = CHR ''/'' then
             parseRelativePath (getEndPathPart REMOTE_HREF) (tl s) (result\<lparr>hasTrailingSlash := True\<rparr>, err)
           else if urlPath base \<noteq> [] then
             parseRelativePath (getEndPathPart REMOTE_HREF) s
               (result\<lparr>urlPath := take (length (urlPath base) - (if hasTrailingSlash base then 0 else 1)) (urlPath base),
                       hasTrailingSlash := True\<rparr>, err)
           else parseRelativePath (getEndPathPart REMOTE_HREF) s (result, err))
        else if \<not> hadNewAuthority then
          (s, result\<lparr>urlPath := map id (urlPath base), hasTrailingSlash := hasTrailingSlash base\<rparr>, err)
        else (s, result, err))"

definition relativeQuery :: "Url \<Rightarrow> bool \<Rightarrow> string \<times> Url \<times> bool \<Rightarrow> string \<times> Url \<times> bool" where
  "relativeQuery base copyQuery st =
     (case st of (s, result, err) \<Rightarrow>
        if startsWithChars s ''?'' then parseQuery (getEndQueryPart REMOTE_HREF) False s (result, err)
        else if copyQuery then
          (s, result\<lparr>query := map (\<lambda>p. \<lparr>param_name = param_name p, param_value = param_value p\<rparr>) (query base)\<rparr>, err)
        else (s, result, err))"

definition tryParseRelative :: "Url \<Rightarrow> string \<Rightarrow> url_error + Url option" where
  "tryParseRelative base s =
     (if s = [] then Inr (Some (clone base))
      else let (sch, s) = (case relativeScheme [] s of Some r \<Rightarrow> r | None \<Rightarrow> (scheme base, s));
               hadNewAuthority = startsWithChars s ''//''
           in case relativeAuthority base s ((emptyUrl (urlOptions base))\<lparr>scheme := sch\<rparr>) of
                None \<Rightarrow> Inr None
              | Some (s, st) \<Rightarrow>
                  finishParse True
                    (relativeQuery base (\<not> hadNewAuthority \<and> \<not> hasNewPath s) (relativePath base hadNewAuthority s st)))"

definition parseRelative :: "Url \<Rightarrow> string \<Rightarrow> url_error + Url" where
  "parseRelative base s =
     (case tryParseRelative base s of
        Inl e \<Rightarrow> Inl e
      | Inr None \<Rightarrow> Inl InvalidRelativeUrl
      | Inr (Some u) \<Rightarrow> Inr u)"

section \<open>Printing\<close>

definition encodeUnless :: "(byte list \<Rightarrow> string) \<Rightarrow> url_options \<Rightarrow> string \<Rightarrow> string" where
  "encodeUnless encode opts s = (if opt_percentDecode opts then encode (asBytes s) else s)"

definition userInfoText :: "url_options \<Rightarrow> user_info option \<Rightarrow> string" where
  "userInfoText opts ui =
     (case ui of
        None \<Rightarrow> []
      | Some user \<Rightarrow>
          encodeUnless encodeUriUserInfo opts (username user) @
          (case password user of None \<Rightarrow> [] | Some pass \<Rightarrow> '':'' @ encodeUnless encodeUriUserInfo opts pass) @ ''@'')"

definition authorityText :: "Url \<Rightarrow> url_context \<Rightarrow> url_error + string" where
  "authorityText u context =
     (if context = HTTP_REQUEST then Inr []
      else if containsAll HOST_CHARS (host u) then
        Inr (scheme u @ ''://'' @
          (if context = REMOTE_HREF then userInfoText (urlOptions u) (userInfo u) else []) @ host u)
      else Inl InvalidHost)"

fun pathText :: "url_options \<Rightarrow> string list \<Rightarrow> url_error + string" where
  "pathText opts [] = Inr []"
| "pathText opts (part # parts) =
     (if (part \<noteq> [] \<or> allowEmpty opts) \<and> part \<noteq> ''.'' \<and> part \<noteq> ''..'' then
        (case pathText opts parts of
           Inl e \<Rightarrow> Inl e
         | Inr s \<Rightarrow> Inr (''/'' @ encodeUnless encodeUriPath opts part @ s))
      else Inl InvalidPathName)"

definition paramText :: "url_options \<Rightarrow> query_param \<Rightarrow> string" where
  "paramText opts p =
     encodeUnless encodeWwwForm opts (param_name p) @
     (case param_value p of None \<Rightarrow> [] | Some v \<Rightarrow> ''='' @ encodeUnless encodeWwwForm opts v)"

fun queryText :: "bool \<Rightarrow> url_options \<Rightarrow> query_param list \<Rightarrow> string" where
  "queryText first opts [] = []"
| "queryText first opts (p # ps) = (if first then ''?'' else ''&'') @ paramText opts p @ queryText False opts ps"

definition fragmentText :: "url_options \<Rightarrow> string option \<Rightarrow> string" where
  "fragmentText opts f = (case f of None \<Rightarrow> [] | Some f \<Rightarrow> ''#'' @ encodeUnless encodeUriFragment opts f)"

definition toString :: "Url \<Rightarrow> url_context \<Rightarrow> url_error + string" where
  "toString u context =
     (case authorityText u context of
        Inl e \<Rightarrow> Inl e
      | Inr start \<Rightarrow>
          (case pathText (urlOptions u) (urlPath u) of
             Inl e \<Rightarrow> Inl e
           | Inr p \<Rightarrow>
               Inr (start @ p @
                 (if hasTrailingSlash u \<or> (urlPath u = [] \<and> context = HTTP_REQUEST) then ''/'' else []) @
                 queryText True (urlOptions u) (query u) @
                 (if context = REMOTE_HREF then fragmentText (urlOptions u) (fragment u) else []))))"

section \<open>Reading back printed parts\<close>

lemma splitAny_append:
  assumes "\<forall>c \<in> set s. \<not> contains g c" and "rest = [] \<or> contains g (hd rest)"
  shows "splitAny (s @ rest) g = (s, rest)"
  using assms by (cases rest) (auto simp: splitAny_def)

lemma trySplit_append: "c \<notin> set s \<Longrightarrow> trySplit (s @ c # rest) c = Some (s, rest)"
  by (induction s) (auto simp: trySplit_def split: if_splits)

lemma trySplit_none: "c \<notin> set s \<Longrightarrow> trySplit s c = None"
  by (simp add: trySplit_def)

lemma groups [simp]:
  "wfGroup ALPHAS" "wfGroup DIGITS" "wfGroup SCHEME_CHARS" "wfGroup HOST_CHARS"
  by (simp_all add: ALPHAS_def DIGITS_def SCHEME_CHARS_def HOST_CHARS_def)

lemma contains_groups:
  "contains ALPHAS c \<longleftrightarrow> (CHR ''a'' \<le> c \<and> c \<le> CHR ''z'') \<or> (CHR ''A'' \<le> c \<and> c \<le> CHR ''Z'')"
  "contains DIGITS c \<longleftrightarrow> CHR ''0'' \<le> c \<and> c \<le> CHR ''9''"
  "contains END_AUTHORITY c \<longleftrightarrow> c \<in> set ''/?#''"
  "contains (getEndPathPart ctx) c \<longleftrightarrow> c \<in> set (if ctx = REMOTE_HREF then ''/?#'' else ''/?'')"
  "contains (getEndQueryPart ctx) c \<longleftrightarrow> c \<in> set (if ctx = REMOTE_HREF then ''&#'' else ''&'')"
  by (cases ctx; auto simp: ALPHAS_def DIGITS_def END_AUTHORITY_def)+

lemma contains_scheme: "contains SCHEME_CHARS c \<longleftrightarrow> contains ALPHAS c \<or> contains DIGITS c \<or> c \<in> set ''+-.''"
  unfolding SCHEME_CHARS_def by (auto simp: contains_orChar)

lemma contains_host: "contains HOST_CHARS c \<longleftrightarrow> contains ALPHAS c \<or> contains DIGITS c \<or> c \<in> set ''.-:[]_''"
  unfolding HOST_CHARS_def by (auto simp: contains_orChar)

lemma host_chars: "containsAll HOST_CHARS s \<Longrightarrow> c \<in> set s \<Longrightarrow> c \<notin> set ''/?#@%''"
  by (auto simp: containsAll_iff contains_host contains_groups less_eq_char_def)

lemma scheme_chars: "contains SCHEME_CHARS c \<Longrightarrow> c \<noteq> CHR '':''"
  by (auto simp: contains_scheme contains_groups less_eq_char_def)

lemma decodeUri_plain:
  assumes "CHR ''%'' \<notin> set s"
  shows "decodeUriComponent s = encResult s False"
proof -
  have "decodeUri_loop False s = (asBytes s, False)"
    using assms by (induction s) auto
  then show ?thesis by (simp add: decodeUriComponent_def decodeBinaryUriComponent_def comp_def)
qed

lemma percentDecode_encode:
  assumes "opt_percentDecode opts"
  shows "percentDecode opts (encodeUnless encodeUriUserInfo opts s) = (s, False)"
    and "percentDecode opts (encodeUnless encodeUriPath opts s) = (s, False)"
    and "percentDecode opts (encodeUnless encodeUriFragment opts s) = (s, False)"
    and "percentDecodeQuery opts (encodeUnless encodeWwwForm opts s) = (s, False)"
    and "CHR ''%'' \<notin> set s \<Longrightarrow> percentDecode opts s = (s, False)"
  using assms
  by (simp_all add: percentDecode_def percentDecodeQuery_def encodeUnless_def uriUserInfo.decodeUri_encode
      uriPath.decodeUri_encode uriFragment.decodeUri_encode wwwForm.decodeUri_encode decodeUri_plain)

lemma encoded_avoids:
  assumes "opt_percentDecode opts"
  shows "c \<in> set (encodeUnless encodeUriPath opts s) \<Longrightarrow> c \<notin> set ''/?#''"
    and "c \<in> set (encodeUnless encodeUriUserInfo opts s) \<Longrightarrow> c \<notin> set '':@/?#''"
    and "c \<in> set (encodeUnless encodeWwwForm opts s) \<Longrightarrow> c \<notin> set ''&=#''"
  using uriPath.encode_avoids [of "set ''/?#''" "asBytes s"]
    uriUserInfo.encode_avoids [of "set '':@/?#''" "asBytes s"]
    wwwForm.encode_avoids [of "set ''&=#''" "asBytes s"] assms
  by (auto simp: encodeUnless_def keep_defs escapeChars_def)

section \<open>The path\<close>

definition goodPart :: "string \<Rightarrow> bool" where
  "goodPart p \<longleftrightarrow> p \<noteq> [] \<and> p \<noteq> ''.'' \<and> p \<noteq> ''..''"

lemma pathStep_encoded:
  assumes "opt_percentDecode (urlOptions u)" and "goodPart p"
  shows "pathStep skip (encodeUnless encodeUriPath (urlOptions u) p) (u, err) =
    (u\<lparr>urlPath := urlPath u @ [p], hasTrailingSlash := False\<rparr>, err)"
proof -
  let ?enc = "encodeUnless encodeUriPath (urlOptions u) p"
  note d = percentDecode_encode [OF assms(1)]
  have "?enc \<noteq> s" if "s \<in> {[], ''.'', ''..''}" for s
  proof
    assume "?enc = s"
    with d(2) [of p] have "percentDecode (urlOptions u) s = (p, False)" by simp
    moreover have "percentDecode (urlOptions u) s = (s, False)" by (rule d(5)) (use that in auto)
    ultimately show False using that assms(2) by (auto simp: goodPart_def)
  qed
  then show ?thesis by (simp add: pathStep_def d(2))
qed

text \<open>The printed path: the parts, each after a slash, and the trailing slash.\<close>

definition pathString :: "url_options \<Rightarrow> string list \<Rightarrow> bool \<Rightarrow> string" where
  "pathString opts parts slash =
     concat (map (\<lambda>p. ''/'' @ encodeUnless encodeUriPath opts p) parts) @ (if slash then ''/'' else [])"

lemma pathText_good:
  "\<forall>p \<in> set parts. goodPart p \<Longrightarrow>
     pathText opts parts = Inr (concat (map (\<lambda>p. ''/'' @ encodeUnless encodeUriPath opts p) parts))"
  by (induction parts) (simp_all add: goodPart_def)

lemma pathString_ends:
  assumes "rest = [] \<or> contains (getEndPathPart ctx) (hd rest)"
  shows "pathString opts parts slash @ rest = [] \<or>
    contains (getEndPathPart ctx) (hd (pathString opts parts slash @ rest))"
proof (cases parts)
  case Nil
  with assms show ?thesis by (auto simp: pathString_def contains_groups)
next
  case (Cons p ps)
  then show ?thesis by (simp add: pathString_def contains_groups)
qed

lemma encoded_path_split:
  assumes "opt_percentDecode opts" and "rest = [] \<or> contains (getEndPathPart ctx) (hd rest)"
  shows "splitAny (encodeUnless encodeUriPath opts p @ rest) (getEndPathPart ctx) = (encodeUnless encodeUriPath opts p, rest)"
  using encoded_avoids(1) [OF assms(1), of _ p] by (intro splitAny_append [OF _ assms(2)]) (auto simp: contains_groups)

lemma parsePath_printed:
  assumes "\<forall>p \<in> set parts. goodPart p" and "rest = [] \<or> contains (getEndPathPart ctx) (hd rest)"
    and "\<not> startsWithChars rest ''/''" and "opt_percentDecode (urlOptions u)" and "\<not> allowEmpty (urlOptions u)"
  shows "parsePath (getEndPathPart ctx) (pathString (urlOptions u) parts slash @ rest) (u, err) =
    (rest, u\<lparr>urlPath := urlPath u @ parts, hasTrailingSlash := slash \<or> (parts = [] \<and> hasTrailingSlash u)\<rparr>, err)"
  using assms(1,4,5)
proof (induction parts arbitrary: u)
  case Nil
  have s: "splitAny rest (getEndPathPart ctx) = ([], rest)"
    using splitAny_append [of "[]" "getEndPathPart ctx" rest] assms(2) by simp
  show ?case
  proof (cases slash)
    case True
    then show ?thesis using assms(3) Nil.prems
      by (simp add: pathString_def parsePath.simps [of _ "CHR ''/'' # rest"] parsePath.simps [of _ rest] s pathStep_def)
  next
    case False
    then show ?thesis using assms(3) by (simp add: pathString_def parsePath.simps [of _ rest])
  qed
next
  case (Cons p parts)
  let ?more = "pathString (urlOptions u) parts slash @ rest"
  let ?u = "u\<lparr>urlPath := urlPath u @ [p], hasTrailingSlash := False\<rparr>"
  have t: "pathString (urlOptions u) (p # parts) slash @ rest =
      CHR ''/'' # encodeUnless encodeUriPath (urlOptions u) p @ ?more"
    by (simp add: pathString_def)
  have "splitAny (encodeUnless encodeUriPath (urlOptions u) p @ ?more) (getEndPathPart ctx) =
      (encodeUnless encodeUriPath (urlOptions u) p, ?more)"
    by (rule encoded_path_split [OF Cons.prems(2) pathString_ends [OF assms(2)]])
  then have "parsePath (getEndPathPart ctx) (pathString (urlOptions u) (p # parts) slash @ rest) (u, err) =
      parsePath (getEndPathPart ctx) ?more (?u, err)"
    unfolding t using Cons.prems
    by (subst parsePath.simps) (simp add: pathStep_encoded)
  also have "\<dots> = (rest, ?u\<lparr>urlPath := urlPath ?u @ parts, hasTrailingSlash := slash \<or> (parts = [] \<and> hasTrailingSlash ?u)\<rparr>, err)"
    using Cons.IH [of ?u] Cons.prems by simp
  finally show ?case by simp
qed

lemma parseRelativePath_printed:
  assumes "\<forall>p \<in> set parts. goodPart p" and "rest = [] \<or> contains (getEndPathPart ctx) (hd rest)"
    and "\<not> startsWithChars rest ''/''" and "opt_percentDecode (urlOptions u)"
    and "pathString (urlOptions u) parts slash \<noteq> []"
  shows "parseRelativePath (getEndPathPart ctx) (tl (pathString (urlOptions u) parts slash @ rest)) (u, err) =
    (rest, u\<lparr>urlPath := urlPath u @ parts, hasTrailingSlash := slash\<rparr>, err)"
  using assms(1,4,5)
proof (induction parts arbitrary: u)
  case Nil
  have s: "splitAny rest (getEndPathPart ctx) = ([], rest)"
    using splitAny_append [of "[]" "getEndPathPart ctx" rest] assms(2) by simp
  from Nil.prems show ?case using assms(3)
    by (cases slash) (simp_all add: pathString_def parseRelativePath.simps [of _ rest] s pathStep_def)
next
  case (Cons p parts)
  let ?more = "pathString (urlOptions u) parts slash @ rest"
  let ?u = "u\<lparr>urlPath := urlPath u @ [p], hasTrailingSlash := False\<rparr>"
  have t: "tl (pathString (urlOptions u) (p # parts) slash @ rest) =
      encodeUnless encodeUriPath (urlOptions u) p @ ?more"
    by (simp add: pathString_def)
  have s: "splitAny (encodeUnless encodeUriPath (urlOptions u) p @ ?more) (getEndPathPart ctx) =
      (encodeUnless encodeUriPath (urlOptions u) p, ?more)"
    by (rule encoded_path_split [OF Cons.prems(2) pathString_ends [OF assms(2)]])
  show ?case
  proof (cases "pathString (urlOptions u) parts slash = []")
    case True
    then have "parts = []" "\<not> slash" by (cases parts; auto simp: pathString_def split: if_splits)+
    with True s show ?thesis unfolding t using Cons.prems assms(3)
      by (subst parseRelativePath.simps) (simp add: pathStep_encoded Let_def)
  next
    case False
    then have "startsWithChars ?more ''/''" by (cases parts; cases slash) (simp_all add: pathString_def)
    with s have "parseRelativePath (getEndPathPart ctx) (tl (pathString (urlOptions u) (p # parts) slash @ rest)) (u, err) =
        parseRelativePath (getEndPathPart ctx) (tl ?more) (?u, err)"
      unfolding t using Cons.prems by (subst parseRelativePath.simps) (simp add: pathStep_encoded Let_def)
    also have "\<dots> = (rest, ?u\<lparr>urlPath := urlPath ?u @ parts, hasTrailingSlash := slash\<rparr>, err)"
      using Cons.IH [of ?u] Cons.prems False by simp
    finally show ?thesis by simp
  qed
qed

section \<open>The query\<close>

definition goodParam :: "query_param \<Rightarrow> bool" where
  "goodParam p \<longleftrightarrow> param_name p \<noteq> [] \<or> param_value p \<noteq> None"

lemma paramText_facts:
  assumes "opt_percentDecode opts" and "goodParam p"
  shows "paramText opts p \<noteq> []" and "\<forall>c \<in> set (paramText opts p). c \<notin> set ''&#''"
    and "urlOptions u = opts \<Longrightarrow> addParam (paramText opts p) (u, err) = (u\<lparr>query := query u @ [p]\<rparr>, err)"
proof -
  note d = percentDecode_encode(4) [OF assms(1)] and a = encoded_avoids(3) [OF assms(1)]
  let ?enc = "encodeUnless encodeWwwForm opts"
  show "paramText opts p \<noteq> []"
  proof (cases "param_value p")
    case None
    then have "param_name p \<noteq> []" using assms(2) by (simp add: goodParam_def)
    moreover have "?enc (param_name p) \<noteq> []" if "param_name p \<noteq> []"
    proof
      assume "?enc (param_name p) = []"
      moreover have "?enc [] = []" by (simp add: encodeUnless_def)
      ultimately show False using d [of "param_name p"] d [of "[]"] that by simp
    qed
    ultimately show ?thesis by (simp add: paramText_def)
  qed (simp add: paramText_def)
  show "\<forall>c \<in> set (paramText opts p). c \<notin> set ''&#''"
    using a by (fastforce simp: paramText_def split: option.splits)
  assume u: "urlOptions u = opts"
  have e: "CHR ''='' \<notin> set (?enc s)" for s using a [of "CHR ''=''" s] by auto
  obtain n v where p: "p = \<lparr>param_name = n, param_value = v\<rparr>" by (cases p)
  show "addParam (paramText opts p) (u, err) = (u\<lparr>query := query u @ [p]\<rparr>, err)"
    by (cases v) (simp_all add: p paramText_def addParam_def trySplit_none trySplit_append e d u)
qed

lemma parseQuery_printed:
  assumes "\<forall>p \<in> set (q # qs). goodParam p" and "rest = [] \<or> (ctx = REMOTE_HREF \<and> hd rest = CHR ''#'')"
    and "opt_percentDecode (urlOptions u)"
  shows "parseQuery (getEndQueryPart ctx) False (queryText first (urlOptions u) (q # qs) @ rest) (u, err) =
    (rest, u\<lparr>query := query u @ q # qs\<rparr>, err)"
  using assms(1,3)
proof (induction qs arbitrary: q u first)
  case Nil
  have "splitAny (paramText (urlOptions u) q @ rest) (getEndQueryPart ctx) = (paramText (urlOptions u) q, rest)"
    by (rule splitAny_append)
       (use paramText_facts(2) [of "urlOptions u" q] Nil.prems assms(2) in \<open>auto simp: contains_groups\<close>)
  moreover have "\<not> startsWithChars rest ''&''" using assms(2) by (cases rest) auto
  ultimately show ?case using Nil.prems
    by (subst parseQuery.simps) (simp add: paramText_facts Let_def)
next
  case (Cons q' qs)
  let ?more = "queryText False (urlOptions u) (q' # qs) @ rest"
  let ?u = "u\<lparr>query := query u @ [q]\<rparr>"
  have s: "splitAny (paramText (urlOptions u) q @ ?more) (getEndQueryPart ctx) = (paramText (urlOptions u) q, ?more)"
    by (rule splitAny_append)
       (use paramText_facts(2) [of "urlOptions u" q] Cons.prems in \<open>auto simp: contains_groups\<close>)
  have "parseQuery (getEndQueryPart ctx) False (queryText first (urlOptions u) (q # q' # qs) @ rest) (u, err) =
      parseQuery (getEndQueryPart ctx) False ?more (?u, err)"
    using s Cons.prems by (subst parseQuery.simps) (simp add: paramText_facts Let_def)
  also have "\<dots> = (rest, ?u\<lparr>query := query ?u @ q' # qs\<rparr>, err)"
    using Cons.IH [where first = False and u = ?u and q = q'] Cons.prems by simp
  finally show ?case by simp
qed

section \<open>The authority\<close>

definition goodHost :: "string \<Rightarrow> bool" where
  "goodHost h \<longleftrightarrow> containsAll HOST_CHARS h \<and> toLower h = h"

definition goodScheme :: "string \<Rightarrow> bool" where
  "goodScheme s \<longleftrightarrow> s \<noteq> [] \<and> contains ALPHAS (hd s) \<and> containsAll SCHEME_CHARS (tl s) \<and> toLower s = s"

lemma goodScheme_chars: "goodScheme s \<Longrightarrow> c \<in> set s \<Longrightarrow> contains SCHEME_CHARS c"
  by (cases s) (auto simp: goodScheme_def containsAll_iff contains_scheme)

lemma parseScheme_printed: "goodScheme s \<Longrightarrow> parseScheme (s @ ''://'' @ rest) = Some (s, rest)"
proof -
  assume s: "goodScheme s"
  have "CHR '':'' \<notin> set s" using goodScheme_chars [OF s] scheme_chars by blast
  then have "trySplit (s @ CHR '':'' # CHR ''/'' # CHR ''/'' # rest) CHR '':'' = Some (s, CHR ''/'' # CHR ''/'' # rest)"
    by (rule trySplit_append)
  with s show ?thesis by (simp add: parseScheme_def goodScheme_def)
qed

lemma relativeScheme_printed:
  assumes "\<forall>c \<in> set s. contains SCHEME_CHARS c"
  shows "relativeScheme seen (s @ CHR '':'' # rest) = Some (seen @ s, rest)"
  using assms
proof (induction s arbitrary: seen)
  case (Cons c s)
  then have "c \<noteq> CHR '':''" "\<not> contains NOT_SCHEME_CHARS c"
    using scheme_chars by (auto simp: NOT_SCHEME_CHARS_def)
  with Cons show ?case by simp
qed simp

lemma parseHost_printed:
  assumes "goodHost h" and "opt_percentDecode opts"
  shows "parseHost opts h = Some (h, False)"
proof -
  have "CHR ''%'' \<notin> set h" using host_chars [of h "CHR ''%''"] assms(1) by (auto simp: goodHost_def)
  then show ?thesis using assms by (simp add: parseHost_def percentDecode_encode goodHost_def)
qed

lemma parseAuthority_printed:
  assumes "goodHost (host u)" and "opt_percentDecode (urlOptions u)" and "urlOptions u0 = urlOptions u"
    and "userInfo u0 = None"
  shows "parseAuthority allowed u0 (userInfoText (urlOptions u) (if allowed then userInfo u else None) @ host u) =
    Some (u0\<lparr>userInfo := (if allowed then userInfo u else None), host := host u\<rparr>, False)"
proof -
  have h: "CHR ''@'' \<notin> set (host u)" using host_chars [of "host u" "CHR ''@''"] assms(1) by (auto simp: goodHost_def)
  note d = percentDecode_encode(1) [OF assms(2)] and ph = parseHost_printed [OF assms(1,2)]
  let ?enc = "encodeUnless encodeUriUserInfo (urlOptions u)"
  have e: "CHR '':'' \<notin> set (?enc s)" "CHR ''@'' \<notin> set (?enc s)" for s
    using encoded_avoids(2) [OF assms(2), of _ s] by auto
  show ?thesis
  proof (cases "if allowed then userInfo u else None")
    case None
    then show ?thesis using h ph assms(3,4)
      by (cases u0) (simp add: userInfoText_def parseAuthority_def trySplit_none)
  next
    case (Some ui)
    obtain n pw where ui: "ui = \<lparr>username = n, password = pw\<rparr>" by (cases ui)
    let ?t = "?enc n @ (case pw of None \<Rightarrow> [] | Some pass \<Rightarrow> '':'' @ ?enc pass)"
    have "CHR ''@'' \<notin> set ?t" using e(2) by (auto split: option.split)
    from trySplit_append [OF this, of "host u"]
    have t: "trySplit (userInfoText (urlOptions u) (Some ui) @ host u) CHR ''@'' = Some (?t, host u)"
      by (simp add: userInfoText_def ui)
    have "parseUserInfo (urlOptions u) ?t = (ui, False)"
      by (cases pw) (simp_all add: parseUserInfo_def ui trySplit_none trySplit_append e d)
    with t ph assms(3) Some show ?thesis by (auto simp: parseAuthority_def split: if_splits)
  qed
qed

section \<open>Whole URLs\<close>

definition wfUrl :: "Url \<Rightarrow> bool" where
  "wfUrl u \<longleftrightarrow> opt_percentDecode (urlOptions u) \<and> \<not> allowEmpty (urlOptions u) \<and> goodScheme (scheme u) \<and>
     goodHost (host u) \<and> list_all goodPart (urlPath u) \<and> list_all goodParam (query u)"

text \<open>What a context keeps of a URL.\<close>

fun forContext :: "url_context \<Rightarrow> Url \<Rightarrow> Url" where
  "forContext REMOTE_HREF u = u"
| "forContext HTTP_PROXY_REQUEST u = u\<lparr>userInfo := None, fragment := None\<rparr>"
| "forContext HTTP_REQUEST u = u\<lparr>scheme := [], userInfo := None, host := [], fragment := None,
     hasTrailingSlash := hasTrailingSlash u \<or> urlPath u = []\<rparr>"

definition tailText :: "url_context \<Rightarrow> Url \<Rightarrow> string" where
  "tailText ctx u = queryText True (urlOptions u) (query u) @
     (if ctx = REMOTE_HREF then fragmentText (urlOptions u) (fragment u) else [])"

lemma toString_wf:
  assumes "wfUrl u"
  shows "toString u ctx = Inr ((if ctx = HTTP_REQUEST then [] else scheme u @ ''://'' @
      userInfoText (urlOptions u) (if ctx = REMOTE_HREF then userInfo u else None) @ host u) @
    pathString (urlOptions u) (urlPath u) (hasTrailingSlash (forContext ctx u)) @ tailText ctx u)"
proof -
  from assms have "pathText (urlOptions u) (urlPath u) =
      Inr (concat (map (\<lambda>p. ''/'' @ encodeUnless encodeUriPath (urlOptions u) p) (urlPath u)))"
    by (intro pathText_good) (simp add: wfUrl_def list_all_iff)
  with assms show ?thesis
    by (cases ctx) (auto simp: toString_def authorityText_def wfUrl_def goodHost_def pathString_def
        tailText_def userInfoText_def)
qed

lemma tailText_head:
  "tailText ctx u = [] \<or> hd (tailText ctx u) = CHR ''?'' \<or> (ctx = REMOTE_HREF \<and> hd (tailText ctx u) = CHR ''#'')"
  by (cases "query u") (auto simp: tailText_def fragmentText_def split: option.split)

lemma finish_printed:
  assumes "wfUrl u" and "urlOptions v = urlOptions u" and "query v = []" and "fragment v = None"
  shows "finishParse (ctx = REMOTE_HREF)
      (if startsWithChars (tailText ctx u) ''?'' then parseQuery (getEndQueryPart ctx) False (tailText ctx u) (v, False)
       else (tailText ctx u, v, False)) =
    Inr (Some (v\<lparr>query := query u, fragment := (if ctx = REMOTE_HREF then fragment u else None)\<rparr>))"
proof -
  let ?frag = "if ctx = REMOTE_HREF then fragmentText (urlOptions u) (fragment u) else []"
  have o: "opt_percentDecode (urlOptions u)" "opt_percentDecode (urlOptions v)" using assms by (simp_all add: wfUrl_def)
  have f: "finishParse (ctx = REMOTE_HREF) (?frag, w, False) =
      Inr (Some (w\<lparr>fragment := (if ctx = REMOTE_HREF then fragment u else None)\<rparr>))"
    if "urlOptions w = urlOptions u" "fragment w = None" for w
    using that percentDecode_encode(3) [OF o(1)]
    by (cases w) (auto simp: finishParse_def fragmentText_def split: option.split)
  have r: "?frag = [] \<or> (ctx = REMOTE_HREF \<and> hd ?frag = CHR ''#'')"
    by (auto simp: fragmentText_def split: option.split)
  show ?thesis
  proof (cases "query u")
    case Nil
    moreover from r have "\<not> startsWithChars ?frag ''?''" by (cases ?frag) auto
    ultimately show ?thesis using f [of v] assms(2-4) by (cases v) (simp add: tailText_def)
  next
    case (Cons q qs)
    have g: "\<forall>p \<in> set (q # qs). goodParam p" using assms(1) Cons by (simp add: wfUrl_def list_all_iff)
    have "parseQuery (getEndQueryPart ctx) False (tailText ctx u) (v, False) = (?frag, v\<lparr>query := query u\<rparr>, False)"
      using parseQuery_printed [OF g r o(2), of True False] assms(2,3) Cons by (simp add: tailText_def)
    moreover have "startsWithChars (tailText ctx u) ''?''" by (simp add: tailText_def Cons)
    ultimately show ?thesis using f [of "v\<lparr>query := query u\<rparr>"] assms(2,4) by simp
  qed
qed

lemma path_tail:
  "tailText ctx u = [] \<or> contains (getEndPathPart ctx) (hd (tailText ctx u))"
  "\<not> startsWithChars (tailText ctx u) ''/''"
  using tailText_head [of ctx u] by (cases "tailText ctx u"; auto simp: contains_groups)+

lemma pathString_tail_head:
  "pathString opts parts slash @ tailText ctx u = [] \<or> contains END_AUTHORITY (hd (pathString opts parts slash @ tailText ctx u))"
  using tailText_head [of ctx u] by (cases parts; cases slash) (auto simp: pathString_def contains_groups)

lemma authority_split:
  assumes "wfUrl u" and "rest = [] \<or> contains END_AUTHORITY (hd rest)"
  shows "splitAny ((userInfoText (urlOptions u) ui @ host u) @ rest) END_AUTHORITY = (userInfoText (urlOptions u) ui @ host u, rest)"
proof (rule splitAny_append [OF _ assms(2)])
  have "c \<notin> set ''/?#''" if "c \<in> set (host u)" for c
    using host_chars [OF _ that] assms(1) by (auto simp: wfUrl_def goodHost_def)
  moreover have "c \<notin> set ''/?#''" if "c \<in> set (encodeUnless encodeUriUserInfo (urlOptions u) s)" for c s
    using encoded_avoids(2) [OF _ that] assms(1) by (auto simp: wfUrl_def)
  ultimately show "\<forall>c \<in> set (userInfoText (urlOptions u) ui @ host u). \<not> contains END_AUTHORITY c"
    by (auto simp: contains_groups userInfoText_def split: option.splits)
qed

lemma printed_parses:
  assumes "wfUrl u"
  shows "\<exists>s. toString u ctx = Inr s \<and> tryParse s ctx (urlOptions u) = Inr (Some (forContext ctx u))"
proof -
  let ?o = "urlOptions u" and ?slash = "hasTrailingSlash (forContext ctx u)"
  let ?tail = "tailText ctx u" and ?path = "pathString ?o (urlPath u) ?slash"
  from assms have w: "opt_percentDecode ?o" "\<not> allowEmpty ?o" "\<forall>p \<in> set (urlPath u). goodPart p"
    "goodScheme (scheme u)" "goodHost (host u)" by (simp_all add: wfUrl_def list_all_iff)
  define s where "s = (if ctx = HTTP_REQUEST then [] else scheme u @ ''://'' @
      userInfoText ?o (if ctx = REMOTE_HREF then userInfo u else None) @ host u) @ ?path @ ?tail"
  define v where "v = (emptyUrl ?o)\<lparr>scheme := scheme (forContext ctx u), userInfo := userInfo (forContext ctx u),
      host := host (forContext ctx u)\<rparr>"
  have v: "urlOptions v = ?o" "urlPath v = []" "query v = []" "fragment v = None" "\<not> hasTrailingSlash v"
    by (simp_all add: v_def emptyUrl_def)
  have start: "parseStart s ctx ?o = Some (?path @ ?tail, v, False)"
  proof (cases "ctx = HTTP_REQUEST")
    case True
    then have "startsWithChars (?path @ ?tail) ''/''" by (cases "urlPath u") (simp_all add: pathString_def)
    with True show ?thesis by (simp add: parseStart_def s_def v_def emptyUrl_def)
  next
    case False
    let ?a = "userInfoText ?o (if ctx = REMOTE_HREF then userInfo u else None) @ host u"
    have "parseScheme s = Some (scheme u, ?a @ ?path @ ?tail)"
      using parseScheme_printed [OF w(4), of "?a @ ?path @ ?tail"] False by (simp add: s_def)
    moreover have "splitAny (?a @ ?path @ ?tail) END_AUTHORITY = (?a, ?path @ ?tail)"
      by (rule authority_split [OF assms pathString_tail_head])
    ultimately show ?thesis
      using parseAuthority_printed [OF w(5,1), of "(emptyUrl ?o)\<lparr>scheme := scheme u\<rparr>" "ctx = REMOTE_HREF"] False
      by (cases ctx) (simp_all add: parseStart_def v_def emptyUrl_def)
  qed
  let ?v = "v\<lparr>urlPath := urlPath u, hasTrailingSlash := ?slash\<rparr>"
  have "parsePath (getEndPathPart ctx) (?path @ ?tail) (v, False) = (?tail, ?v, False)"
    using parsePath_printed [OF w(3) path_tail(1) [of ctx u] path_tail(2) [of ctx u], of v ?slash False] v w by simp
  with start have "tryParse s ctx ?o =
      Inr (Some (?v\<lparr>query := query u, fragment := (if ctx = REMOTE_HREF then fragment u else None)\<rparr>))"
    using finish_printed [OF assms, of ?v ctx] v w(2)
    by (cases "startsWithChars ?tail ''?''"; cases ctx) (simp_all add: tryParse_def)
  moreover have "?v\<lparr>query := query u, fragment := (if ctx = REMOTE_HREF then fragment u else None)\<rparr> = forContext ctx u"
    by (cases ctx; cases u) (simp_all add: v_def emptyUrl_def)
  moreover have "toString u ctx = Inr s" using toString_wf [OF assms, of ctx] by (simp add: s_def)
  ultimately show ?thesis by auto
qed
text \<open>
  C12. URLs round-trip in every context: a well-formed URL is printed, and parsing the text gives the
  URL back, without the parts that the context omits, whatever bytes its user information, path,
  query and fragment contain.
\<close>

theorem url_roundtrip:
  assumes "wfUrl u"
  shows "\<exists>s. toString u ctx = Inr s \<and> tryParse s ctx (urlOptions u) = Inr (Some (forContext ctx u))"
  using assms by (rule printed_parses)

text \<open>An example of a well-formed URL.\<close>

definition exampleUrl :: Url where
  "exampleUrl =
     \<lparr>scheme = ''http'', userInfo = Some \<lparr>username = ''a@b'', password = None\<rparr>, host = ''h:80'',
      urlPath = [''x/y''], hasTrailingSlash = False, query = [\<lparr>param_name = ''k'', param_value = Some ''&''\<rparr>],
      fragment = None, urlOptions = \<lparr>opt_percentDecode = True, allowEmpty = False\<rparr>\<rparr>"

lemma exampleUrl_wf: "wfUrl exampleUrl"
  by (simp add: exampleUrl_def wfUrl_def goodScheme_def goodHost_def goodPart_def goodParam_def contains_groups
      contains_scheme contains_host toLower_def toLowerChar_def less_eq_char_def)

theorem url_roundtrip_witness:
  "\<exists>s. toString exampleUrl REMOTE_HREF = Inr s \<and>
     tryParse s REMOTE_HREF (urlOptions exampleUrl) = Inr (Some (forContext REMOTE_HREF exampleUrl))"
  by (rule url_roundtrip [OF exampleUrl_wf])

lemma clone_id: "clone u = u"
proof -
  have ui: "(\<lambda>ui :: user_info. \<lparr>username = username ui, password = password ui\<rparr>) = (\<lambda>ui. ui)"
  proof
    show "\<lparr>username = username ui, password = password ui\<rparr> = ui" for ui :: user_info by (cases ui) simp
  qed
  have p: "(\<lambda>p :: query_param. \<lparr>param_name = param_name p, param_value = param_value p\<rparr>) = (\<lambda>p. p)"
  proof
    show "\<lparr>param_name = param_name p, param_value = param_value p\<rparr> = p" for p :: query_param by (cases p) simp
  qed
  show ?thesis by (cases u) (simp add: clone_def option.map_id0 ui p option.map_ident)
qed

text \<open>
  An absolute URL does not depend on the base: resolving the text of a well-formed URL against
  any base with the same options gives that URL, and resolving the empty text gives the base.
\<close>

theorem relative_absolute:
  assumes "wfUrl u" and "urlOptions base = urlOptions u"
  shows "(\<exists>s. toString u REMOTE_HREF = Inr s \<and> tryParseRelative base s = Inr (Some u)) \<and>
    tryParseRelative base [] = Inr (Some base)"
proof -
  let ?o = "urlOptions u" and ?tail = "tailText REMOTE_HREF u"
  let ?path = "pathString ?o (urlPath u) (hasTrailingSlash u)"
  from assms have w: "opt_percentDecode ?o" "\<not> allowEmpty ?o" "\<forall>p \<in> set (urlPath u). goodPart p"
    "goodScheme (scheme u)" "goodHost (host u)" by (simp_all add: wfUrl_def list_all_iff)
  let ?a = "userInfoText ?o (userInfo u) @ host u"
  define s where "s = scheme u @ ''://'' @ ?a @ ?path @ ?tail"
  define v where "v = (emptyUrl ?o)\<lparr>scheme := scheme u, userInfo := userInfo u, host := host u\<rparr>"
  let ?v = "v\<lparr>urlPath := urlPath u, hasTrailingSlash := hasTrailingSlash u\<rparr>"
  have v: "urlOptions v = ?o" "urlPath v = []" "query v = []" "fragment v = None" "\<not> hasTrailingSlash v"
    by (simp_all add: v_def emptyUrl_def)
  have "relativeScheme [] s = Some (scheme u, ''//'' @ ?a @ ?path @ ?tail)"
    using relativeScheme_printed [of "scheme u" "[]" "''//'' @ ?a @ ?path @ ?tail"] goodScheme_chars [OF w(4)]
    by (simp add: s_def)
  moreover have "splitAny (?a @ ?path @ ?tail) END_AUTHORITY = (?a, ?path @ ?tail)"
    by (rule authority_split [OF assms(1) pathString_tail_head])
  then have "relativeAuthority base (''//'' @ ?a @ ?path @ ?tail) ((emptyUrl ?o)\<lparr>scheme := scheme u\<rparr>) =
      Some (?path @ ?tail, v, False)"
    using parseAuthority_printed [OF w(5,1), of "(emptyUrl ?o)\<lparr>scheme := scheme u\<rparr>" True]
    by (simp add: relativeAuthority_def v_def emptyUrl_def)
  moreover have "relativePath base True (?path @ ?tail) (v, False) = (?tail, ?v, False)"
  proof (cases "?path = []")
    case True
    then have "urlPath u = []" "\<not> hasTrailingSlash u" by (cases "urlPath u"; auto simp: pathString_def split: if_splits)+
    then have "?v = v" using v by (cases v) simp
    moreover have "\<not> hasNewPath ?tail" using tailText_head [of REMOTE_HREF u] by (auto simp: hasNewPath_def)
    ultimately show ?thesis using True by (simp add: relativePath_def)
  next
    case False
    then have h: "hd (?path @ ?tail) = CHR ''/''" "?path @ ?tail \<noteq> []"
      by (cases "urlPath u"; cases "hasTrailingSlash u"; simp add: pathString_def)+
    let ?w = "v\<lparr>hasTrailingSlash := True\<rparr>"
    have "parseRelativePath (getEndPathPart REMOTE_HREF) (tl (?path @ ?tail)) (?w, False) = (?tail, ?v, False)"
      using parseRelativePath_printed [OF w(3) path_tail(1) [of REMOTE_HREF u] path_tail(2) [of REMOTE_HREF u],
          of ?w "hasTrailingSlash u" False] v(1,2) w(1) False by simp
    with h show ?thesis by (simp add: relativePath_def hasNewPath_def)
  qed
  moreover
  have u: "?v\<lparr>query := query u, fragment := fragment u\<rparr> = u"
    by (cases u) (simp add: v_def emptyUrl_def)
  have "finishParse True (relativeQuery base False (?tail, ?v, False)) = Inr (Some u)"
    using finish_printed [OF assms(1), of ?v REMOTE_HREF] v u
    by (cases "startsWithChars ?tail ''?''") (simp_all add: relativeQuery_def)
  moreover have "s \<noteq> []" by (simp add: s_def)
  ultimately have "tryParseRelative base s = Inr (Some u)"
    by (simp add: tryParseRelative_def assms(2))
  moreover have "toString u REMOTE_HREF = Inr s" using toString_wf [OF assms(1), of REMOTE_HREF] by (simp add: s_def)
  moreover have "clone base = base" by (rule clone_id)
  ultimately show ?thesis by (auto simp: tryParseRelative_def)
qed

theorem relative_absolute_witness:
  "\<exists>s. toString exampleUrl REMOTE_HREF = Inr s \<and> tryParseRelative (emptyUrl (urlOptions exampleUrl)) s = Inr (Some exampleUrl)"
  using relative_absolute [OF exampleUrl_wf, of "emptyUrl (urlOptions exampleUrl)"] by (simp add: emptyUrl_def)

section \<open>What the parsers return\<close>

text \<open>Every loop stops at a character that the code after it handles.\<close>

definition stopsAt :: "string \<Rightarrow> string \<Rightarrow> bool" where
  "stopsAt chars s \<longleftrightarrow> s = [] \<or> hd s \<in> set chars"

lemma splitAny_rest: "snd (splitAny s g) = [] \<or> contains g (hd (snd (splitAny s g)))"
  using hd_dropWhile [of "\<lambda>c. \<not> contains g c" s] by (auto simp: splitAny_def)

lemma startsWith_hd: "startsWithChars s [c] \<longleftrightarrow> s \<noteq> [] \<and> hd s = c"
  by (cases s) auto

lemma parsePath_rest:
  "stopsAt ''/?#'' s \<Longrightarrow> stopsAt ''?#'' (fst (parsePath (getEndPathPart ctx) s st))"
proof (induction "getEndPathPart ctx" s st rule: parsePath.induct)
  case (1 s st)
  show ?case
  proof (cases "startsWithChars s ''/''")
    case True
    have "stopsAt ''/?#'' (snd (splitAny (tl s) (getEndPathPart ctx)))"
      using splitAny_rest [of "tl s" "getEndPathPart ctx"] by (auto simp: stopsAt_def contains_groups split: if_splits)
    with "1.hyps" [OF _ refl] True show ?thesis
      by (subst parsePath.simps) (simp add: Let_def)
  next
    case False
    with "1.prems" show ?thesis
      by (subst parsePath.simps) (auto simp: stopsAt_def startsWith_hd)
  qed
qed

lemma parseRelativePath_rest:
  "stopsAt ''?#'' (fst (parseRelativePath (getEndPathPart ctx) s st))"
proof (induction "getEndPathPart ctx" s st rule: parseRelativePath.induct)
  case (1 s st)
  have "stopsAt ''/?#'' (snd (splitAny s (getEndPathPart ctx)))"
    using splitAny_rest [of s "getEndPathPart ctx"] by (auto simp: stopsAt_def contains_groups split: if_splits)
  with "1.hyps" [OF refl refl] show ?case
    by (subst parseRelativePath.simps) (auto simp: Let_def stopsAt_def startsWith_hd)
qed

lemma parseQuery_rest:
  "stopsAt ''#'' (fst (parseQuery (getEndQueryPart ctx) keepEmpty s st))"
proof (induction "getEndQueryPart ctx" keepEmpty s st rule: parseQuery.induct)
  case (1 keepEmpty s st)
  have "stopsAt ''&#'' (snd (splitAny (tl s) (getEndQueryPart ctx)))"
    using splitAny_rest [of "tl s" "getEndQueryPart ctx"] by (auto simp: stopsAt_def contains_groups split: if_splits)
  with "1.hyps" [OF refl refl] show ?case
    by (subst parseQuery.simps) (auto simp: Let_def stopsAt_def startsWith_hd)
qed

lemma finishParse_rest: "stopsAt ''#'' (fst st) \<Longrightarrow> finishParse allowed st \<noteq> Inl e"
  by (auto simp: finishParse_def stopsAt_def startsWith_hd Let_def split: prod.split)

lemma authority_rest: "splitAny s END_AUTHORITY = (a, s') \<Longrightarrow> stopsAt ''/?#'' s'"
  using splitAny_rest [of s END_AUTHORITY] by (auto simp: stopsAt_def contains_groups)

lemma parseStart_rest: "parseStart s ctx opts = Some (s', st) \<Longrightarrow> stopsAt ''/?#'' s'"
  by (auto simp: parseStart_def startsWith_hd split: if_splits option.splits prod.splits dest: authority_rest)
     (simp add: stopsAt_def)

lemma relativePath_rest: "stopsAt ''?#'' (fst (relativePath base new s st))"
  using parseRelativePath_rest [of REMOTE_HREF]
  by (auto simp: relativePath_def hasNewPath_def stopsAt_def split: prod.split)

lemma relativeQuery_rest: "stopsAt ''?#'' (fst st) \<Longrightarrow> stopsAt ''#'' (fst (relativeQuery base copy st))"
  using parseQuery_rest [of REMOTE_HREF False]
  by (auto simp: relativeQuery_def stopsAt_def startsWith_hd split: prod.split)

text \<open>
  C30. Neither parser ever fails its assertion that all of the text was read: on every text, in every
  context and for every base URL it returns a URL or rejects the text.
\<close>

theorem url_parsers_total:
  "(\<exists>r. tryParse s ctx opts = Inr r) \<and> (\<exists>r. tryParseRelative base s = Inr r)"
proof
  show "\<exists>r. tryParse s ctx opts = Inr r"
  proof (cases "parseStart s ctx opts")
    case (Some st)
    obtain s1 u where st: "st = (s1, u)" by (cases st)
    let ?p = "parsePath (getEndPathPart ctx) s1 u"
    have p: "stopsAt ''?#'' (fst ?p)" using parsePath_rest [OF parseStart_rest] Some st by blast
    let ?q = "if startsWithChars (fst ?p) ''?'' then parseQuery (getEndQueryPart ctx) (allowEmpty opts) (fst ?p) (snd ?p) else ?p"
    have "stopsAt ''#'' (fst ?q)" using p parseQuery_rest by (auto simp: stopsAt_def startsWith_hd)
    from finishParse_rest [OF this] have "\<exists>r. finishParse (ctx = REMOTE_HREF) ?q = Inr r"
      by (cases "finishParse (ctx = REMOTE_HREF) ?q") auto
    with Some st show ?thesis by (simp add: tryParse_def case_prod_unfold Let_def split: if_splits)
  qed (simp add: tryParse_def)
  show "\<exists>r. tryParseRelative base s = Inr r"
  proof (cases "s = []")
    case False
    obtain sch s1 where r: "(case relativeScheme [] s of Some r \<Rightarrow> r | None \<Rightarrow> (scheme base, s)) = (sch, s1)"
      by fastforce
    let ?new = "startsWithChars s1 ''//''"
    let ?a = "relativeAuthority base s1 ((emptyUrl (urlOptions base))\<lparr>scheme := sch\<rparr>)"
    have t: "tryParseRelative base s = (case ?a of None \<Rightarrow> Inr None
        | Some (s, st) \<Rightarrow> finishParse True (relativeQuery base (\<not> ?new \<and> \<not> hasNewPath s) (relativePath base ?new s st)))"
      using False by (simp add: tryParseRelative_def r Let_def)
    show ?thesis
    proof (cases ?a)
      case (Some r)
      obtain s2 st where r: "r = (s2, st)" by (cases r)
      from finishParse_rest [OF relativeQuery_rest [OF relativePath_rest]]
      show ?thesis unfolding t Some r by (cases "finishParse True (relativeQuery base (\<not> ?new \<and> \<not> hasNewPath s2)
          (relativePath base ?new s2 st))") auto
    qed (simp add: t)
  qed (simp add: tryParseRelative_def)
qed

section \<open>Parsed URLs are in normal form\<close>

lemma decode_nonempty:
  assumes "s \<noteq> []"
  shows "decodeUri_loop pts s \<noteq> ([], False)"
proof -
  from assms obtain c cs where s: "s = c # cs" by (cases s) simp_all
  show ?thesis unfolding s decodeUri_loop.simps(2) [of pts c cs]
    by (auto simp del: decodeUri_loop.simps split: list.split option.split prod.split)
qed

lemma percentDecode_nonempty:
  assumes "s \<noteq> []"
  shows "percentDecode opts s \<noteq> ([], False)" and "percentDecodeQuery opts s \<noteq> ([], False)"
  using assms decode_nonempty [OF assms, of True] decode_nonempty [OF assms, of False]
  by (auto simp: percentDecode_def percentDecodeQuery_def decodeUriComponent_def decodeWwwForm_def
      decodeBinaryUriComponent_def Let_def simp del: decodeUri_loop.simps split: prod.splits)

definition normal :: "Url \<times> bool \<Rightarrow> bool" where
  "normal st \<longleftrightarrow> (case st of (u, err) \<Rightarrow>
     goodScheme (scheme u) \<and> goodHost (host u) \<and> \<not> allowEmpty (urlOptions u) \<and>
     (\<not> err \<longrightarrow> [] \<notin> set (urlPath u) \<and> list_all goodParam (query u)))"

lemma normal_pathStep: "normal st \<Longrightarrow> normal (pathStep True part st)"
  using percentDecode_nonempty(1) [of part "urlOptions (fst st)"]
  by (auto simp: normal_def pathStep_def Let_def dest: in_set_butlastD split: prod.splits if_splits)

lemma normal_addParam: "part \<noteq> [] \<Longrightarrow> normal st \<Longrightarrow> normal (addParam part st)"
  using percentDecode_nonempty(2) [of part "urlOptions (fst st)"]
  by (auto simp: normal_def addParam_def goodParam_def Let_def split: prod.splits option.splits)

lemma normal_parsePath: "normal st \<Longrightarrow> normal (snd (parsePath g s st))"
proof (induction g s st rule: parsePath.induct)
  case (1 g s st)
  have "\<not> allowEmpty (urlOptions (fst st))" using "1.prems" by (simp add: normal_def split: prod.splits)
  then show ?case
    using 1 normal_pathStep by (subst parsePath.simps) (simp add: Let_def)
qed

lemma normal_parseQuery: "normal st \<Longrightarrow> normal (snd (parseQuery g False s st))"
proof (induction g False s st rule: parseQuery.induct)
  case (1 g s st)
  then show ?case using normal_addParam by (subst parseQuery.simps) (simp add: Let_def)
qed

lemma options_preserved:
  "urlOptions (fst (snd (parsePath g s st))) = urlOptions (fst st)"
  "urlOptions (fst (snd (parseQuery g k s st))) = urlOptions (fst st)"
proof -
  have p: "urlOptions (fst (pathStep b part st)) = urlOptions (fst st)" for b part st
    by (auto simp: pathStep_def Let_def split: prod.split)
  show "urlOptions (fst (snd (parsePath g s st))) = urlOptions (fst st)"
    by (induction g s st rule: parsePath.induct) (subst parsePath.simps, simp add: Let_def p)
  have a: "urlOptions (fst (addParam part st)) = urlOptions (fst st)" for part st
    by (auto simp: addParam_def Let_def split: prod.split option.split)
  show "urlOptions (fst (snd (parseQuery g k s st))) = urlOptions (fst st)"
    by (induction g k s st rule: parseQuery.induct) (subst parseQuery.simps, simp add: Let_def a)
qed

lemma toLowerChar_facts:
  "toLowerChar (toLowerChar c) = toLowerChar c"
  "contains HOST_CHARS c \<Longrightarrow> contains HOST_CHARS (toLowerChar c)"
proof -
  define n :: nat where "n = of_char c"
  have c: "c = char_of n" "n < 256" by (simp_all add: n_def)
  then show "toLowerChar (toLowerChar c) = toLowerChar c"
    by (auto simp: toLowerChar_def less_eq_char_def)
  show "contains HOST_CHARS c \<Longrightarrow> contains HOST_CHARS (toLowerChar c)"
    using c(2) by (auto simp: toLowerChar_def contains_host contains_groups less_eq_char_def c(1))
qed

lemma goodHost_toLower: "containsAll HOST_CHARS h \<Longrightarrow> goodHost (toLower h)"
  by (auto simp: goodHost_def containsAll_iff toLower_def toLowerChar_facts)

lemma parseScheme_good: "parseScheme s = Some (sch, s') \<Longrightarrow> goodScheme sch"
  by (auto simp: parseScheme_def goodScheme_def toLower_def toLowerChar_facts Let_def comp_def
      split: option.splits if_splits)

lemma parseAuthority_normal:
  assumes "parseAuthority allowed v a = Some (u, err)"
  shows "goodHost (host u) \<and> scheme u = scheme v \<and> urlPath u = urlPath v \<and> query u = query v \<and> urlOptions u = urlOptions v"
  using assms goodHost_toLower
  by (auto simp: parseAuthority_def parseHost_def Let_def split: option.splits if_splits prod.splits)

lemma parseStart_normal:
  assumes "parseStart s REMOTE_HREF opts = Some (s', u, err)" and "\<not> allowEmpty opts"
  shows "normal (u, err)" and "urlOptions u = opts"
proof -
  from assms(1) obtain sch s1 a where "parseScheme s = Some (sch, s1)" and
    a: "parseAuthority True ((emptyUrl opts)\<lparr>scheme := sch\<rparr>) a = Some (u, err)"
    by (auto simp: parseStart_def split: option.splits prod.splits)
  with parseScheme_good parseAuthority_normal [OF a] assms(2)
  show "normal (u, err)" "urlOptions u = opts" by (auto simp: normal_def emptyUrl_def)
qed

lemma tryParse_normal:
  assumes "tryParse s REMOTE_HREF opts = Inr (Some u)" and "\<not> allowEmpty opts"
  shows "normal (u, False) \<and> urlOptions u = opts"
proof -
  from assms(1) obtain s1 v e where start: "parseStart s REMOTE_HREF opts = Some (s1, v, e)"
    by (auto simp: tryParse_def split: option.splits prod.splits)
  note v = parseStart_normal [OF start assms(2)]
  let ?p = "parsePath (getEndPathPart REMOTE_HREF) s1 (v, e)"
  let ?q = "if startsWithChars (fst ?p) ''?'' then parseQuery (getEndQueryPart REMOTE_HREF) False (fst ?p) (snd ?p) else ?p"
  have q: "normal (snd ?q)" "urlOptions (fst (snd ?q)) = opts"
    using normal_parsePath [OF v(1)] normal_parseQuery v(2) by (auto simp: options_preserved)
  have "finishParse True ?q = Inr (Some u)"
    using assms start by (simp add: tryParse_def case_prod_unfold Let_def split: if_splits)
  moreover obtain s2 w err where r: "?q = (s2, w, err)" by (metis prod.exhaust)
  ultimately have "\<not> err \<and> (\<exists>f. u = w\<lparr>fragment := f\<rparr>)"
    by (cases w) (auto simp: finishParse_def Let_def split: if_splits prod.splits)
  with q r show ?thesis by (auto simp: normal_def)
qed



lemmas url_eval = splitAny_def trySplit_def contains_groups contains_scheme contains_host NOT_SCHEME_CHARS_def
  parseAuthority_def parseHost_def percentDecode_def decodeUri_plain toLower_def toLowerChar_def less_eq_char_def
  emptyUrl_def finishParse_def char_of_def tryParseRelative_def relativeAuthority_def relativePath_def
  hasNewPath_def relativeQuery_def tryParse_def parseStart_def parseScheme_def parsePath.simps pathStep_def

text \<open>
  Dot components are compared before they are decoded: an escaped double dot ends up in the path
  of the parsed URL, which then cannot be printed.
\<close>

theorem escaped_dots_not_resolved:
  "\<exists>u. tryParse ''http://h/%2e%2e'' REMOTE_HREF \<lparr>opt_percentDecode = True, allowEmpty = False\<rparr> = Inr (Some u) \<and>
     urlPath u = [''..''] \<and> toString u REMOTE_HREF = Inl InvalidPathName"
proof -
  let ?o = "\<lparr>opt_percentDecode = True, allowEmpty = False\<rparr>"
  let ?u = "(emptyUrl ?o)\<lparr>scheme := ''http'', host := ''h'', urlPath := [''..'']\<rparr>"
  have "decodeUriComponent ''%2e%2e'' = encResult ''..'' False"
    by code_simp
  then have "tryParse ''http://h/%2e%2e'' REMOTE_HREF ?o = Inr (Some ?u)" by (simp add: url_eval)
  moreover have "toString ?u REMOTE_HREF = Inl InvalidPathName"
    by (simp add: toString_def authorityText_def emptyUrl_def contains_host contains_groups less_eq_char_def)
  moreover have "urlPath ?u = [''..'']" by simp
  ultimately show ?thesis by blast
qed

text \<open>
  \<open>tryParseRelative\<close> neither checks the scheme nor turns it into lower case: the same absolute
  text gives different URLs from the two parsers, and an empty scheme is accepted.
\<close>

theorem relative_scheme_unchecked:
  "map_sum id (map_option scheme) (tryParseRelative (emptyUrl opts) ''HTTP://h'') = Inr (Some ''HTTP'') \<and>
   map_sum id (map_option scheme) (tryParse ''HTTP://h'' REMOTE_HREF opts) = Inr (Some ''http'') \<and>
   map_sum id (map_option scheme) (tryParseRelative (emptyUrl opts) ''://h'') = Inr (Some [])"
  by (simp add: url_eval bit_0)

end
