(* ===== verification/Glob_Filter.thy ===== *)
theory Glob_Filter
  imports Prelude
begin

text \<open>
  File name patterns: \<open>zc/core/glob-filter.cc\<close>. The filter runs a nondeterministic automaton with a
  state for each position of the pattern; the list of its states is a field of the object, which
  \<open>matches\<close> overwrites. The reference is a recursive matcher on the pattern itself.
\<close>

section \<open>The automaton\<close>

record GlobFilter =
  pattern :: string
  states :: "nat list"

definition GlobFilter_new :: "string \<Rightarrow> GlobFilter" where
  "GlobFilter_new p = \<lparr>pattern = p, states = []\<rparr>"

definition isSlash :: "char \<Rightarrow> bool" where
  "isSlash c \<longleftrightarrow> c = CHR ''/'' \<or> c = CHR 0x5c"

function applyState :: "string \<Rightarrow> char \<Rightarrow> nat \<Rightarrow> nat list \<Rightarrow> nat list" where
  "applyState p c state sts =
     (if state < length p then
        (if p ! state = CHR ''*'' then
           applyState p c (state + 1) (if \<not> isSlash c then sts @ [state] else sts)
         else if p ! state = CHR ''?'' then (if \<not> isSlash c then sts @ [state + 1] else sts)
         else if c = p ! state then sts @ [state + 1] else sts)
      else sts)"
  by pat_completeness auto
termination by (relation "measure (\<lambda>(p, c, state, sts). length p - state)") auto

declare applyState.simps [simp del]

definition stepStates :: "string \<Rightarrow> char \<Rightarrow> nat list \<Rightarrow> nat list" where
  "stepStates p c oldStates =
     fold (applyState p c) oldStates (if c = CHR ''/'' \<or> c = CHR 0x5c then [0] else [])"

function skipStars :: "string \<Rightarrow> nat \<Rightarrow> nat" where
  "skipStars p state = (if state < length p \<and> p ! state = CHR ''*'' then skipStars p (state + 1) else state)"
  by pat_completeness auto
termination by (relation "measure (\<lambda>(p, state). length p - state)") auto

declare skipStars.simps [simp del]

fun anyAtEnd :: "string \<Rightarrow> nat list \<Rightarrow> bool" where
  "anyAtEnd p [] = False"
| "anyAtEnd p (state # sts) = (if skipStars p state = length p then True else anyAtEnd p sts)"

definition matches :: "string \<Rightarrow> GlobFilter \<Rightarrow> bool \<times> GlobFilter" where
  "matches name g =
     (let sts = fold (stepStates (pattern g)) name [0]
      in (anyAtEnd (pattern g) sts, g\<lparr>states := sts\<rparr>))"

section \<open>The reference matcher\<close>

fun globMatch :: "string \<Rightarrow> string \<Rightarrow> bool" where
  "globMatch [] s \<longleftrightarrow> s = []"
| "globMatch (x # p) [] \<longleftrightarrow> x = CHR ''*'' \<and> globMatch p []"
| "globMatch (x # p) (c # s) \<longleftrightarrow>
     (if x = CHR ''*'' then (\<not> isSlash c \<and> globMatch (x # p) s) \<or> globMatch p (c # s)
      else if x = CHR ''?'' then \<not> isSlash c \<and> globMatch p s
      else c = x \<and> globMatch p s)"

section \<open>Equivalence\<close>

text \<open>A state list stands for the texts that the reference matches from one of its positions.\<close>

definition accepts :: "string \<Rightarrow> nat list \<Rightarrow> string \<Rightarrow> bool" where
  "accepts p sts s \<longleftrightarrow> (\<exists>i \<in> set sts. globMatch (drop i p) s)"

lemma accepts_simps [simp]:
  "\<not> accepts p [] s" "accepts p (i # sts) s \<longleftrightarrow> globMatch (drop i p) s \<or> accepts p sts s"
  by (simp_all add: accepts_def)

lemma drop_nth_Cons: "i < length p \<Longrightarrow> drop i p = p ! i # drop (Suc i) p"
  by (rule Cons_nth_drop_Suc [symmetric])

lemma applyState_accepts:
  "accepts p (applyState p c i sts) s \<longleftrightarrow> accepts p sts s \<or> globMatch (drop i p) (c # s)"
proof (induction p c i sts rule: applyState.induct)
  case (1 p c i sts)
  show ?case
  proof (cases "i < length p \<and> p ! i = CHR ''*''")
    case True
    then have "accepts p (applyState p c i sts) s \<longleftrightarrow>
        accepts p (if \<not> isSlash c then sts @ [i] else sts) s \<or> globMatch (drop (i + 1) p) (c # s)"
      by (subst applyState.simps) (use "1.IH" in simp)
    moreover have "globMatch (drop i p) (c # s) \<longleftrightarrow> (\<not> isSlash c \<and> globMatch (drop i p) s) \<or> globMatch (drop (i + 1) p) (c # s)"
      using True drop_nth_Cons [of i p] by simp
    ultimately show ?thesis by (auto simp: accepts_def)
  next
    case False
    show ?thesis
    proof (cases "i < length p")
      case True
      with False drop_nth_Cons [of i p] show ?thesis
        by (subst applyState.simps) (auto simp: accepts_def)
    qed (simp add: applyState.simps [of p c i])
  qed
qed

lemma fold_applyState_accepts:
  "accepts p (fold (applyState p c) sts acc) s \<longleftrightarrow> accepts p acc s \<or> accepts p sts (c # s)"
  by (induction sts arbitrary: acc) (auto simp: applyState_accepts)

lemma skipStars_end: "skipStars p i = length p \<longleftrightarrow> i \<le> length p \<and> globMatch (drop i p) []"
proof (induction p i rule: skipStars.induct)
  case (1 p i)
  show ?case
  proof (cases "i < length p")
    case True
    with 1 show ?thesis using drop_nth_Cons [of i p] by (subst skipStars.simps) auto
  qed (subst skipStars.simps, auto)
qed

text \<open>Every state is a position of the pattern or its end.\<close>

lemma applyState_bound:
  "\<forall>j \<in> set sts. j \<le> length p \<Longrightarrow> \<forall>j \<in> set (applyState p c i sts). j \<le> length p"
proof (induction p c i sts rule: applyState.induct)
  case (1 p c i sts)
  show ?case
  proof (cases "i < length p \<and> p ! i = CHR ''*''")
    case True
    let ?sts = "if \<not> isSlash c then sts @ [i] else sts"
    from True "1.prems" have "\<forall>j \<in> set ?sts. j \<le> length p" by simp
    with True "1.IH" have "\<forall>j \<in> set (applyState p c (i + 1) ?sts). j \<le> length p" by blast
    with True show ?thesis by (subst applyState.simps) simp
  next
    case False
    then show ?thesis by (subst applyState.simps) (use "1.prems" in auto)
  qed
qed

lemma run_bound:
  assumes "\<forall>i \<in> set sts. i \<le> length p"
  shows "\<forall>i \<in> set (fold (stepStates p) name sts). i \<le> length p"
  using assms
proof (induction name arbitrary: sts)
  case (Cons c name)
  have "\<forall>i \<in> set (fold (applyState p c) xs acc). i \<le> length p" if "\<forall>i \<in> set acc. i \<le> length p" for xs acc
    using that
  proof (induction xs arbitrary: acc)
    case (Cons x xs)
    from Cons.IH [OF applyState_bound [OF Cons.prems]] show ?case by simp
  qed simp
  then have "\<forall>i \<in> set (stepStates p c sts). i \<le> length p" unfolding stepStates_def by force
  with Cons.IH show ?case by simp
qed simp

lemma anyAtEnd_accepts: "\<forall>i \<in> set sts. i \<le> length p \<Longrightarrow> anyAtEnd p sts \<longleftrightarrow> accepts p sts []"
  by (induction sts) (auto simp: accepts_def skipStars_end)

text \<open>The parts of a name that begin after a slash.\<close>

fun tailsAfterSlash :: "string \<Rightarrow> string list" where
  "tailsAfterSlash [] = []"
| "tailsAfterSlash (c # s) = (if isSlash c then s # tailsAfterSlash s else tailsAfterSlash s)"

lemma run_accepts:
  "accepts p (fold (stepStates p) name sts) [] \<longleftrightarrow>
     accepts p sts name \<or> (\<exists>t \<in> set (tailsAfterSlash name). globMatch p t)"
proof (induction name arbitrary: sts)
  case (Cons c name)
  have "accepts p (if isSlash c then [0] else []) name \<longleftrightarrow> isSlash c \<and> globMatch p name"
    by (simp add: accepts_def)
  then have "accepts p (stepStates p c sts) name \<longleftrightarrow> (isSlash c \<and> globMatch p name) \<or> accepts p sts (c # name)"
    by (simp add: stepStates_def fold_applyState_accepts flip: isSlash_def)
  with Cons show ?case by auto
qed simp

text \<open>
  C31. The automaton decides the pattern language: \<open>matches\<close> holds exactly when the pattern matches the
  whole name, or what follows one of its slashes, with a star standing for any characters but
  slashes and a question mark for one such character. What an earlier call left in the state list
  has no influence.
\<close>

theorem glob_matches_iff:
  "fst (matches name g) \<longleftrightarrow> (\<exists>t \<in> set (name # tailsAfterSlash name). globMatch (pattern g) t)"
proof -
  have "\<forall>i \<in> set (fold (stepStates (pattern g)) name [0]). i \<le> length (pattern g)"
    by (rule run_bound) simp
  then show ?thesis
    using run_accepts [of "pattern g" name "[0]"]
    by (simp add: matches_def Let_def anyAtEnd_accepts accepts_def)
qed
end
