(* ===== verification/Cidr.thy ===== *)
theory Cidr
  imports Number_Text
begin

text \<open>
  Ranges of network addresses: \<open>zc/core/cidr.cc\<close>. The conversions \<open>inet_pton\<close> and \<open>inet_ntop\<close> of the C
  library are parameters. The string constructor leaves the bytes that \<open>inet_pton\<close> does not write
  uninitialized; what they hold is a parameter as well. A socket address is its address bytes and
  the bytes that follow them in memory, since the last comparison may read one of those.
\<close>

section \<open>Ranges\<close>

datatype ip_family = AF_INET | AF_INET6

datatype cidr_error = InvalidCidr | BadNumber parse_error | TooFewBits | TooManyWords | NotPrintable

record CidrRange =
  range_family :: ip_family
  range_bits :: "byte list"
  bitCount :: nat

datatype sockaddr =
  SockaddrIn "byte list" "byte list"
  | SockaddrIn6 "byte list" "byte list"
  | SockaddrOther

definition partialMask :: "nat \<Rightarrow> uint32" where
  "partialMask n = drop_bit (n mod 8) 0xff00"

definition zeroIrrelevantBits :: "nat \<Rightarrow> byte list \<Rightarrow> byte list" where
  "zeroIrrelevantBits n bs =
     (if n < 128 then
        (let bs = bs[n div 8 := ucast ((ucast (bs ! (n div 8)) :: uint32) AND partialMask n)];
             k = n div 8 + 1
         in take k bs @ replicate (16 - k) 0)
      else bs)"

definition maxBits :: "ip_family \<Rightarrow> nat" where
  "maxBits f = (case f of AF_INET \<Rightarrow> 32 | AF_INET6 \<Rightarrow> 128)"

definition CidrRange_make :: "ip_family \<Rightarrow> byte list \<Rightarrow> nat \<Rightarrow> cidr_error + CidrRange" where
  "CidrRange_make f bs n =
     (if \<not> n \<le> maxBits f then Inl InvalidCidr
      else if \<not> length bs * 8 \<ge> n then Inl TooFewBits
      else let byteCount = (n + 7) div 8;
               stored = take byteCount bs @ replicate (16 - byteCount) 0
           in Inr \<lparr>range_family = f, range_bits = zeroIrrelevantBits n stored, bitCount = n\<rparr>)"

definition inet4 :: "byte list \<Rightarrow> nat \<Rightarrow> cidr_error + CidrRange" where
  "inet4 bs n = CidrRange_make AF_INET bs n"

fun storeWords :: "nat \<Rightarrow> char16 list \<Rightarrow> byte list \<Rightarrow> byte list" where
  "storeWords pos [] bs = bs"
| "storeWords pos (w # ws) bs =
     storeWords (pos + 2) ws (bs[pos := ucast (drop_bit 8 w), pos + 1 := ucast (w AND 0xff)])"

definition inet6 :: "char16 list \<Rightarrow> char16 list \<Rightarrow> nat \<Rightarrow> cidr_error + CidrRange" where
  "inet6 pre suf n =
     (if \<not> length pre + length suf \<le> 8 then Inl TooManyWords
      else CidrRange_make AF_INET6
             (storeWords (16 - length suf * 2) suf (storeWords 0 pre (replicate 16 0))) n)"

definition uintType :: int_type where
  "uintType = \<lparr>bytes_of = 4, is_signed = False\<rparr>"

definition CidrRange_parse ::
    "(ip_family \<Rightarrow> string \<Rightarrow> byte list option) \<Rightarrow> byte list \<Rightarrow> string \<Rightarrow> cidr_error + CidrRange" where
  "CidrRange_parse inet_pton uninitialized pattern =
     (if CHR ''/'' \<notin> set pattern then Inl InvalidCidr
      else case parseInteger uintType (tl (dropWhile (\<lambda>c. c \<noteq> CHR ''/'') pattern)) of
             Inl e \<Rightarrow> Inl (BadNumber e)
           | Inr count \<Rightarrow>
               (let n = nat count; addr = takeWhile (\<lambda>c. c \<noteq> CHR ''/'') pattern;
                    f = (if CHR '':'' \<notin> set pattern then AF_INET else AF_INET6)
                in if \<not> n \<le> maxBits f then Inl InvalidCidr
                   else case inet_pton f addr of
                          None \<Rightarrow> Inl InvalidCidr
                        | Some bs \<Rightarrow>
                            Inr \<lparr>range_family = f,
                                 range_bits = zeroIrrelevantBits n (bs @ drop (length bs) uninitialized),
                                 bitCount = n\<rparr>))"

section \<open>Matching\<close>

definition V6MAPPED :: "byte list" where
  "V6MAPPED = replicate 10 0 @ [0xff, 0xff]"

definition otherBits :: "ip_family \<Rightarrow> sockaddr \<Rightarrow> byte list option" where
  "otherBits f addr =
     (case (f, addr) of
        (AF_INET, SockaddrIn6 a following) \<Rightarrow>
          (if take 12 (a @ following) = V6MAPPED then Some (drop 12 (a @ following)) else None)
      | (AF_INET, SockaddrIn a following) \<Rightarrow> Some (a @ following)
      | (AF_INET6, SockaddrIn6 a following) \<Rightarrow> Some (a @ following)
      | _ \<Rightarrow> None)"

definition cidr_matches :: "CidrRange \<Rightarrow> sockaddr \<Rightarrow> bool" where
  "cidr_matches r addr =
     (case otherBits (range_family r) addr of
        None \<Rightarrow> False
      | Some other \<Rightarrow>
          (let n = bitCount r
           in if take (n div 8) (range_bits r) \<noteq> take (n div 8) other then False
              else n = 128 \<or>
                (ucast (range_bits r ! (n div 8)) :: uint32) = ucast (other ! (n div 8)) AND partialMask n))"

datatype family_query = FamilyInet | FamilyInet6 | FamilyOther

definition matchesFamily :: "CidrRange \<Rightarrow> family_query \<Rightarrow> bool" where
  "matchesFamily r q =
     (case q of FamilyInet \<Rightarrow> range_family r = AF_INET | FamilyInet6 \<Rightarrow> True | FamilyOther \<Rightarrow> False)"

definition cidr_toString :: "(ip_family \<Rightarrow> byte list \<Rightarrow> string option) \<Rightarrow> CidrRange \<Rightarrow> cidr_error + string" where
  "cidr_toString inet_ntop r =
     (case (inet_ntop (range_family r) (range_bits r), stringify uintType (int (bitCount r))) of
        (Some s, Some digits) \<Rightarrow> Inr (s @ ''/'' @ digits)
      | _ \<Rightarrow> Inl NotPrintable)"

section \<open>Bits of an address\<close>

text \<open>The bits of a byte string, the most significant bit of the first byte first.\<close>

definition addressBit :: "byte list \<Rightarrow> nat \<Rightarrow> bool" where
  "addressBit bs i = bit (bs ! (i div 8)) (7 - i mod 8)"

definition samePrefix :: "nat \<Rightarrow> byte list \<Rightarrow> byte list \<Rightarrow> bool" where
  "samePrefix n a b \<longleftrightarrow> (\<forall>i < n. addressBit a i = addressBit b i)"

lemma partialMask_bit: "m < 8 \<Longrightarrow> bit (partialMask n) m \<longleftrightarrow> 8 - n mod 8 \<le> m"
proof -
  have e: "(0xff00 :: uint32) = push_bit 8 (mask 8)" by (simp add: mask_eq_exp_minus_1)
  assume "m < 8"
  moreover have "n mod 8 < 8" by simp
  ultimately show ?thesis unfolding partialMask_def e by (auto simp: bit_simps)
qed

lemma masked_byte_eq:
  fixes a b :: byte
  shows "(ucast (ucast ((ucast a :: uint32) AND partialMask n) :: byte) :: uint32) = ucast b AND partialMask n \<longleftrightarrow>
    (\<forall>j < n mod 8. bit a (7 - j) = bit b (7 - j))"
proof -
  let ?l = "ucast (ucast ((ucast a :: uint32) AND partialMask n) :: byte) :: uint32"
  let ?r = "ucast b AND partialMask n"
  have bound: "bit (w :: byte) m \<Longrightarrow> m < 8" for w m using bit_imp_le_length [of w m] by simp
  have l: "bit ?l m \<longleftrightarrow> bit a m \<and> 8 - n mod 8 \<le> m" for m
    using bound [of a m] partialMask_bit [of m n] by (cases "m < 8") (auto simp: bit_simps)
  have r: "bit ?r m \<longleftrightarrow> bit b m \<and> 8 - n mod 8 \<le> m" for m
    using bound [of b m] partialMask_bit [of m n] by (cases "m < 8") (auto simp: bit_simps)
  have "?l = ?r \<longleftrightarrow> (\<forall>m < 8. 8 - n mod 8 \<le> m \<longrightarrow> bit a m = bit b m)"
  proof -
    have "?l = ?r \<longleftrightarrow> (\<forall>m. bit ?l m = bit ?r m)" by (metis bit_word_eqI)
    also have "\<dots> \<longleftrightarrow> (\<forall>m < 8. 8 - n mod 8 \<le> m \<longrightarrow> bit a m = bit b m)"
      unfolding l r using bound by blast
    finally show ?thesis .
  qed
  also have "\<dots> \<longleftrightarrow> (\<forall>j < n mod 8. bit a (7 - j) = bit b (7 - j))"
  proof (rule iffI; intro allI impI)
    fix j assume "\<forall>m < 8. 8 - n mod 8 \<le> m \<longrightarrow> bit a m = bit b m" and "j < n mod 8"
    then show "bit a (7 - j) = bit b (7 - j)" by auto
  next
    fix m assume h: "\<forall>j < n mod 8. bit a (7 - j) = bit b (7 - j)" and m: "m < 8" "8 - n mod 8 \<le> m"
    then have "7 - m < n mod 8" by linarith
    with h have "bit a (7 - (7 - m)) = bit b (7 - (7 - m))" by blast
    with m show "bit a m = bit b m" by simp
  qed
  finally show ?thesis .
qed

lemma byte_eq_iff: "a = b \<longleftrightarrow> (\<forall>j < 8. bit a (7 - j) = bit (b :: byte) (7 - j))"
proof
  assume h: "\<forall>j < 8. bit a (7 - j) = bit b (7 - j)"
  show "a = b"
  proof (rule bit_word_eqI)
    fix m assume "m < LENGTH(8)"
    then have "7 - m < 8" "7 - (7 - m) = m" by simp_all
    with h show "bit a m = bit b m" by metis
  qed
qed simp

text \<open>Whole bytes and the partial byte after them, together, are a prefix of bits.\<close>

lemma samePrefix_bytes:
  assumes "n div 8 \<le> length a" and "n div 8 \<le> length b"
  shows "samePrefix n a b \<longleftrightarrow> take (n div 8) a = take (n div 8) b \<and>
    (\<forall>j < n mod 8. bit (a ! (n div 8)) (7 - j) = bit (b ! (n div 8)) (7 - j))"
proof -
  have "take (n div 8) a = take (n div 8) b \<longleftrightarrow> (\<forall>k < n div 8. \<forall>j < 8. bit (a ! k) (7 - j) = bit (b ! k) (7 - j))"
    using assms by (simp add: list_eq_iff_nth_eq byte_eq_iff)
  also have "\<dots> \<longleftrightarrow> (\<forall>i < 8 * (n div 8). addressBit a i = addressBit b i)"
  proof (rule iffI; intro allI impI)
    fix i assume h: "\<forall>k < n div 8. \<forall>j < 8. bit (a ! k) (7 - j) = bit (b ! k) (7 - j)" and i: "i < 8 * (n div 8)"
    have "i div 8 < n div 8" using i by (simp add: div_less_iff_less_mult)
    with h show "addressBit a i = addressBit b i" by (simp add: addressBit_def)
  next
    fix k j :: nat
    assume h: "\<forall>i < 8 * (n div 8). addressBit a i = addressBit b i" and k: "k < n div 8" "j < 8"
    have "8 * k + j < 8 * (n div 8)" using k by linarith
    with h have "addressBit a (8 * k + j) = addressBit b (8 * k + j)" by blast
    with k show "bit (a ! k) (7 - j) = bit (b ! k) (7 - j)" by (simp add: addressBit_def)
  qed
  finally have bytes: "take (n div 8) a = take (n div 8) b \<longleftrightarrow> (\<forall>i < 8 * (n div 8). addressBit a i = addressBit b i)" .
  have part: "addressBit c (8 * (n div 8) + j) = bit (c ! (n div 8)) (7 - j)" if "j < n mod 8" for c j
    using that by (simp add: addressBit_def)
  have "samePrefix n a b \<longleftrightarrow> (\<forall>i < 8 * (n div 8). addressBit a i = addressBit b i) \<and>
      (\<forall>j < n mod 8. addressBit a (8 * (n div 8) + j) = addressBit b (8 * (n div 8) + j))"
  proof -
    have n: "n = 8 * (n div 8) + n mod 8" by simp
    have "(\<forall>i < p + q. P i) \<longleftrightarrow> (\<forall>i < p. P i) \<and> (\<forall>j < q. P (p + j))" for p q :: nat and P
      by (metis add_diff_inverse_nat nat_add_left_cancel_less trans_less_add1)
    from this [of "8 * (n div 8)" "n mod 8"] n show ?thesis unfolding samePrefix_def by simp
  qed
  with bytes part show ?thesis by simp
qed

section \<open>Which addresses match\<close>

definition wfSockaddr :: "sockaddr \<Rightarrow> bool" where
  "wfSockaddr addr = (case addr of
     SockaddrIn a following \<Rightarrow> length a = 4 \<and> following \<noteq> []
   | SockaddrIn6 a following \<Rightarrow> length a = 16 \<and> following \<noteq> []
   | SockaddrOther \<Rightarrow> True)"

text \<open>The address that a range of a family compares with.\<close>

definition addressFor :: "ip_family \<Rightarrow> sockaddr \<Rightarrow> byte list option" where
  "addressFor f addr = (case (f, addr) of
     (AF_INET, SockaddrIn a _) \<Rightarrow> Some a
   | (AF_INET, SockaddrIn6 a _) \<Rightarrow> if take 12 a = V6MAPPED then Some (drop 12 a) else None
   | (AF_INET6, SockaddrIn6 a _) \<Rightarrow> Some a
   | _ \<Rightarrow> None)"

lemma otherBits_addressFor:
  assumes "wfSockaddr addr"
  shows "case addressFor f addr of
      None \<Rightarrow> otherBits f addr = None
    | Some a \<Rightarrow> length a * 8 = maxBits f \<and> (\<exists>following. following \<noteq> [] \<and> otherBits f addr = Some (a @ following))"
  using assms by (cases f; cases addr) (auto simp: wfSockaddr_def addressFor_def otherBits_def maxBits_def)

lemma zeroed_matches:
  assumes "length bs = 16" and "n \<le> 128" and "n div 8 \<le> length other"
  shows "(take (n div 8) (zeroIrrelevantBits n bs) = take (n div 8) other \<and>
     (n = 128 \<or> (ucast (zeroIrrelevantBits n bs ! (n div 8)) :: uint32) = ucast (other ! (n div 8)) AND partialMask n)) \<longleftrightarrow>
    samePrefix n bs other"
proof (cases "n = 128")
  case True
  then show ?thesis using assms by (simp add: zeroIrrelevantBits_def samePrefix_bytes)
next
  case False
  then have k: "n < 128" "n div 8 < 16" using assms(2) by (simp, linarith)
  let ?b = "ucast ((ucast (bs ! (n div 8)) :: uint32) AND partialMask n) :: byte"
  have "take (n div 8) (zeroIrrelevantBits n bs) = take (n div 8) bs"
    using k assms(1) by (simp add: zeroIrrelevantBits_def Let_def min_def)
  moreover have "zeroIrrelevantBits n bs ! (n div 8) = ?b"
    using k assms(1) by (simp add: zeroIrrelevantBits_def Let_def nth_append)
  ultimately show ?thesis
    using False k assms(1,3) by (simp add: masked_byte_eq samePrefix_bytes)
qed

text \<open>
  C32. A range matches exactly the addresses whose first \<open>bitCount\<close> bits are those it was made from: for
  every prefix length, including whole bytes and the full address, and whatever bytes follow the
  address in memory. An IPv4 range also matches the addresses that are mapped into IPv6.
\<close>

theorem cidr_matches_prefix:
  assumes "CidrRange_make f bs n = Inr r" and "wfSockaddr addr"
  shows "cidr_matches r addr \<longleftrightarrow> (\<exists>a. addressFor f addr = Some a \<and> samePrefix n bs a)"
proof -
  let ?k = "(n + 7) div 8" let ?stored = "take ?k bs @ replicate (16 - ?k) 0"
  from assms(1) have n: "n \<le> maxBits f" "n \<le> length bs * 8"
    and r: "r = \<lparr>range_family = f, range_bits = zeroIrrelevantBits n ?stored, bitCount = n\<rparr>"
    by (auto simp: CidrRange_make_def Let_def split: if_splits)
  have n128: "n \<le> 128" using n(1) by (cases f) (simp_all add: maxBits_def)
  have k: "?k \<le> length bs" "?k \<le> 16" using n(2) n128 by linarith+
  have len: "length ?stored = 16" using k by simp
  show ?thesis
  proof (cases "addressFor f addr")
    case None
    with otherBits_addressFor [OF assms(2), of f] show ?thesis by (simp add: r cidr_matches_def)
  next
    case (Some a)
    with otherBits_addressFor [OF assms(2), of f] obtain following where
      o: "otherBits f addr = Some (a @ following)" and l: "length a * 8 = maxBits f" by auto
    have d: "n div 8 \<le> length (a @ following)" "n div 8 \<le> length a" using n(1) l by simp_all
    have "cidr_matches r addr \<longleftrightarrow> samePrefix n ?stored (a @ following)"
      using zeroed_matches [OF len n128 d(1)] by (auto simp: r cidr_matches_def o Let_def)
    also have "\<dots> \<longleftrightarrow> samePrefix n bs a"
    proof -
      have "addressBit ?stored i = addressBit bs i" "addressBit (a @ following) i = addressBit a i" if "i < n" for i
      proof -
        have "i div 8 < ?k" "i div 8 < length a" using that n(1) l by linarith+
        then show "addressBit ?stored i = addressBit bs i" "addressBit (a @ following) i = addressBit a i"
          using k by (simp_all add: addressBit_def nth_append)
      qed
      then show ?thesis by (simp add: samePrefix_def)
    qed
    finally show ?thesis using Some by simp
  qed
qed

theorem cidr_matches_prefix_witness:
  "\<exists>r. CidrRange_make AF_INET [10, 0, 0, 0] 8 = Inr r \<and>
     (cidr_matches r (SockaddrIn [10, 1, 2, 3] [0]) \<longleftrightarrow>
      (\<exists>a. addressFor AF_INET (SockaddrIn [10, 1, 2, 3] [0]) = Some a \<and> samePrefix 8 [10, 0, 0, 0] a))"
proof -
  obtain r where r: "CidrRange_make AF_INET [10, 0, 0, 0] 8 = Inr r"
    by (simp add: CidrRange_make_def maxBits_def)
  with cidr_matches_prefix [OF r, of "SockaddrIn [10, 1, 2, 3] [0]"] show ?thesis by (auto simp: wfSockaddr_def)
qed

lemma zeroIrrelevantBits_parts:
  assumes "length bs = 16" and "n < 128"
  shows "zeroIrrelevantBits n bs = take (n div 8) bs @
    ucast ((ucast (bs ! (n div 8)) :: uint32) AND partialMask n) # replicate (15 - n div 8) 0"
proof -
  have "n div 8 < 16" using assms(2) by linarith
  then show ?thesis using assms
    by (simp add: zeroIrrelevantBits_def Let_def take_Suc_conv_app_nth)
qed

lemma zeroIrrelevantBits_cong:
  assumes "length xs = 16" and "length ys = 16" and "n \<le> 128" and same: "\<forall>i < (n + 7) div 8. xs ! i = ys ! i"
  shows "zeroIrrelevantBits n xs = zeroIrrelevantBits n ys"
proof (cases "n = 128")
  case True
  with assms have "xs = ys" by (simp add: list_eq_iff_nth_eq)
  then show ?thesis by simp
next
  case False
  then have n: "n < 128" using assms(3) by simp
  have "take (n div 8) xs = take (n div 8) ys"
    using same assms(1,2) n by (simp add: list_eq_iff_nth_eq)
  moreover have "(ucast ((ucast (xs ! (n div 8)) :: uint32) AND partialMask n) :: byte) =
      ucast ((ucast (ys ! (n div 8)) :: uint32) AND partialMask n)"
  proof (cases "n mod 8 = 0")
    case True
    then have "\<not> bit (partialMask n) m" if "m < 8" for m using partialMask_bit [OF that, of n] that by simp
    then show ?thesis by (intro bit_word_eqI) (simp add: bit_simps)
  next
    case False
    then have "n div 8 < (n + 7) div 8" by presburger
    with same show ?thesis by simp
  qed
  ultimately show ?thesis using assms(1,2) n by (simp add: zeroIrrelevantBits_parts)
qed

text \<open>
  C33. Uninitialized memory never gets into a range: the range that a text denotes is the one made from
  the bytes that \<open>inet_pton\<close> wrote, whatever the object held before.
\<close>

theorem cidr_parse_initializes:
  assumes "\<And>f s bs. inet_pton f s = Some bs \<Longrightarrow> length bs * 8 = maxBits f"
    and "length uninitialized = 16"
    and "CidrRange_parse inet_pton uninitialized pattern = Inr r"
  shows "\<exists>bs. inet_pton (range_family r) (takeWhile (\<lambda>c. c \<noteq> CHR ''/'') pattern) = Some bs \<and>
    CidrRange_make (range_family r) bs (bitCount r) = Inr r"
proof -
  from assms(3) obtain bs where bs: "inet_pton (range_family r) (takeWhile (\<lambda>c. c \<noteq> CHR ''/'') pattern) = Some bs"
    and n: "bitCount r \<le> maxBits (range_family r)"
    and r: "range_bits r = zeroIrrelevantBits (bitCount r) (bs @ drop (length bs) uninitialized)"
    by (auto simp: CidrRange_parse_def Let_def split: if_splits sum.splits option.splits)
  let ?n = "bitCount r" let ?k = "(?n + 7) div 8"
  have l: "length bs * 8 = maxBits (range_family r)" using assms(1) bs by blast
  have n128: "?n \<le> 128" using n by (cases "range_family r") (simp_all add: maxBits_def)
  have k: "?k \<le> length bs" using n l by linarith
  have l16: "length bs \<le> 16" using l by (cases "range_family r") (simp_all add: maxBits_def)
  have "zeroIrrelevantBits ?n (bs @ drop (length bs) uninitialized) =
      zeroIrrelevantBits ?n (take ?k bs @ replicate (16 - ?k) 0)"
  proof (rule zeroIrrelevantBits_cong [OF _ _ n128])
    show "\<forall>i < ?k. (bs @ drop (length bs) uninitialized) ! i = (take ?k bs @ replicate (16 - ?k) 0) ! i"
      using k by (simp add: nth_append)
  qed (use k l16 assms(2) in simp_all)
  then have "CidrRange_make (range_family r) bs ?n = Inr r"
    using n l r by (cases r) (simp add: CidrRange_make_def Let_def)
  with bs show ?thesis by blast
qed

theorem cidr_parse_initializes_witness:
  "\<exists>r. CidrRange_parse (\<lambda>f s. if f = AF_INET then Some [10, 0, 0, 1] else None) (replicate 16 0xcc) ''10.0.0.1/8'' = Inr r \<and>
     CidrRange_make (range_family r) [10, 0, 0, 1] (bitCount r) = Inr r"
proof -
  let ?pton = "\<lambda>f s. if f = AF_INET then Some [10, 0, 0, 1 :: byte] else None"
  have l: "\<And>f s bs. ?pton f s = Some bs \<Longrightarrow> length bs * 8 = maxBits f" by (auto simp: maxBits_def split: if_splits)
  have "parseInteger uintType ''8'' = Inr 8"
    by (simp add: uintType_def parseInteger_def minValue_def parseUnsigned_def baseOfText_def isHex_def strtoull_def
        strtoSubject_def isSpace_def skipBasePrefix_def isDigit_def digitValue_def less_eq_char_def maxValue_def bits_of_def)
  then obtain r where r: "CidrRange_parse ?pton (replicate 16 0xcc) ''10.0.0.1/8'' = Inr r"
    by (simp add: CidrRange_parse_def maxBits_def)
  from cidr_parse_initializes [OF l _ r] show ?thesis using r by (auto split: if_splits)
qed

definition wordBytes :: "char16 \<Rightarrow> byte list" where
  "wordBytes w = [ucast (drop_bit 8 w), ucast (w AND 0xff)]"

lemma storeWords_concat:
  assumes "pos + 2 * length ws \<le> length bs"
  shows "storeWords pos ws bs = take pos bs @ concat (map wordBytes ws) @ drop (pos + 2 * length ws) bs"
  using assms
proof (induction pos ws bs rule: storeWords.induct)
  case (2 pos w ws bs)
  let ?bs = "bs[pos := ucast (drop_bit 8 w), pos + 1 := ucast (w AND 0xff)]"
  have "take (pos + 2) ?bs = take pos bs @ wordBytes w"
    using "2.prems" by (simp add: take_Suc_conv_app_nth wordBytes_def)
  moreover have "drop (pos + 2 + 2 * length ws) ?bs = drop (pos + 2 * length (w # ws)) bs" by simp
  ultimately show ?case using "2.IH" "2.prems" by (simp add: add.assoc)
qed simp

lemma length_wordBytes: "length (concat (map wordBytes ws)) = 2 * length ws"
  by (induction ws) (simp_all add: wordBytes_def)

text \<open>
  \<open>inet6\<close> stores the address with zeros between the two groups of words, the high byte of each
  word first.
\<close>

theorem inet6_bytes:
  assumes "length pre + length suf \<le> 8"
  shows "inet6 pre suf n = CidrRange_make AF_INET6
    (concat (map wordBytes (pre @ replicate (8 - (length pre + length suf)) 0 @ suf))) n"
proof -
  let ?z = "replicate 16 0 :: byte list"
  have zeros: "concat (replicate k (wordBytes 0)) = replicate (2 * k) 0" for k
    by (induction k) (simp_all add: wordBytes_def)
  have 1: "storeWords 0 pre ?z = concat (map wordBytes pre) @ replicate (16 - 2 * length pre) 0"
    using storeWords_concat [of 0 pre ?z] assms by simp
  have l: "length (storeWords 0 pre ?z) = 16" unfolding 1 using assms by (simp add: length_wordBytes del: length_concat)
  have e: "16 - length suf * 2 - 2 * length pre = 2 * (8 - (length pre + length suf))" using assms by simp
  have "storeWords (16 - length suf * 2) suf (storeWords 0 pre ?z) =
      take (16 - length suf * 2) (storeWords 0 pre ?z) @ concat (map wordBytes suf)"
    using storeWords_concat [of "16 - length suf * 2" suf "storeWords 0 pre ?z"] l assms by simp
  also have "take (16 - length suf * 2) (storeWords 0 pre ?z) =
      concat (map wordBytes pre) @ replicate (2 * (8 - (length pre + length suf))) 0"
    unfolding 1 using assms e by (simp add: length_wordBytes min_def del: length_concat)
  finally show ?thesis using assms by (simp add: inet6_def zeros)
qed

theorem inet6_bytes_witness: "inet6 [0x2001] [1] 128 = CidrRange_make AF_INET6
    (concat (map wordBytes ([0x2001] @ replicate (8 - (length [0x2001 :: char16] + length [1 :: char16])) 0 @ [1]))) 128"
  by (rule inet6_bytes) simp
end
