(* ===== verification/Table.thy ===== *)
theory Table
  imports Prelude "HOL-Library.Multiset"
begin

text \<open>
  The table of \<open>zc/core/table.h\<close>: a vector of rows with any number of indexes over it.

  An index is known to the table by its operations only, as the template parameters \<open>Indexes\<close> of the
  code; they are the record \<open>Index\<close>, and what the documentation of the class asks of them is the locale
  \<open>table_index\<close>. Every operation that can throw returns the state that it leaves behind, because
  a failed insertion is rolled back by the code and not by the language. \<open>Endless\<close> stands for a loop
  of an index that does not return; the results of \<open>erase\<close> and \<open>move\<close> carry a flag that is set when the
  index logs an inconsistency.
\<close>

section \<open>Rows and indexes\<close>

datatype table_error = DuplicateRow | TooBig | CreateFailed | Endless

type_synonym 'a outcome = "table_error + 'a"

record ('row, 'key, 'ix) Index =
  ix_keyForRow :: "'row \<Rightarrow> 'key"
  ix_reserve :: "nat \<Rightarrow> 'ix \<Rightarrow> 'ix outcome"
  ix_clear :: "'ix \<Rightarrow> 'ix"
  ix_insert :: "'row list \<Rightarrow> nat \<Rightarrow> 'key \<Rightarrow> 'ix \<Rightarrow> (nat option \<times> 'ix) outcome"
  ix_erase :: "'row list \<Rightarrow> nat \<Rightarrow> 'key \<Rightarrow> 'ix \<Rightarrow> ('ix \<times> bool) outcome"
  ix_move :: "'row list \<Rightarrow> nat \<Rightarrow> nat \<Rightarrow> 'key \<Rightarrow> 'ix \<Rightarrow> ('ix \<times> bool) outcome"
  ix_find :: "'row list \<Rightarrow> 'key \<Rightarrow> 'ix \<Rightarrow> nat option outcome"

record ('row, 'ix) Table =
  rows :: "'row list"
  indexes :: "'ix list"

text \<open>
  The recursion \<open>Impl<index>\<close> over the tuple of indexes. When a later index reports a duplicate or
  throws, the row is erased again from the earlier ones; \<open>skip\<close> is the number of an index that has
  the row already.
\<close>

fun Impl_insert ::
    "('row, 'key, 'ix) Index list \<Rightarrow> 'row list \<Rightarrow> nat \<Rightarrow> 'row \<Rightarrow> nat option \<Rightarrow> nat \<Rightarrow> 'ix list \<Rightarrow>
     nat option outcome \<times> 'ix list" where
  "Impl_insert (op # ops) rs pos row skip index (ix # ixs) =
     (if skip = Some index then
        (case Impl_insert ops rs pos row skip (index + 1) ixs of (r, ixs') \<Rightarrow> (r, ix # ixs'))
      else case ix_insert op rs pos (ix_keyForRow op row) ix of
        Inl e \<Rightarrow> (Inl e, ix # ixs)
      | Inr (Some existing, ix') \<Rightarrow> (Inr (Some existing), ix' # ixs)
      | Inr (None, ix') \<Rightarrow>
          (case Impl_insert ops rs pos row skip (index + 1) ixs of
             (Inr None, ixs') \<Rightarrow> (Inr None, ix' # ixs')
           | (r, ixs') \<Rightarrow>
               (case ix_erase op rs pos (ix_keyForRow op row) ix' of
                  Inl e \<Rightarrow> (Inl e, ix' # ixs')
                | Inr (ix'', logged) \<Rightarrow> (r, ix'' # ixs'))))"
| "Impl_insert _ rs pos row skip index ixs = (Inr None, ixs)"

fun Impl_erase ::
    "('row, 'key, 'ix) Index list \<Rightarrow> 'row list \<Rightarrow> nat \<Rightarrow> 'row \<Rightarrow> 'ix list \<Rightarrow> ('ix list \<times> bool) outcome" where
  "Impl_erase (op # ops) rs pos row (ix # ixs) =
     (case ix_erase op rs pos (ix_keyForRow op row) ix of
        Inl e \<Rightarrow> Inl e
      | Inr (ix', l) \<Rightarrow>
          (case Impl_erase ops rs pos row ixs of Inl e \<Rightarrow> Inl e | Inr (ixs', l') \<Rightarrow> Inr (ix' # ixs', l \<or> l')))"
| "Impl_erase _ rs pos row ixs = Inr (ixs, False)"

fun Impl_move ::
    "('row, 'key, 'ix) Index list \<Rightarrow> 'row list \<Rightarrow> nat \<Rightarrow> nat \<Rightarrow> 'row \<Rightarrow> 'ix list \<Rightarrow>
     ('ix list \<times> bool) outcome" where
  "Impl_move (op # ops) rs oldPos newPos row (ix # ixs) =
     (case ix_move op rs oldPos newPos (ix_keyForRow op row) ix of
        Inl e \<Rightarrow> Inl e
      | Inr (ix', l) \<Rightarrow>
          (case Impl_move ops rs oldPos newPos row ixs of
             Inl e \<Rightarrow> Inl e
           | Inr (ixs', l') \<Rightarrow> Inr (ix' # ixs', l \<or> l')))"
| "Impl_move _ rs oldPos newPos row ixs = Inr (ixs, False)"

fun Impl_reserve ::
    "('row, 'key, 'ix) Index list \<Rightarrow> nat \<Rightarrow> 'ix list \<Rightarrow> unit outcome \<times> 'ix list" where
  "Impl_reserve (op # ops) n (ix # ixs) =
     (case ix_reserve op n ix of
        Inl e \<Rightarrow> (Inl e, ix # ixs)
      | Inr ix' \<Rightarrow> (case Impl_reserve ops n ixs of (r, ixs') \<Rightarrow> (r, ix' # ixs')))"
| "Impl_reserve _ n ixs = (Inr (), ixs)"

fun Impl_clear :: "('row, 'key, 'ix) Index list \<Rightarrow> 'ix list \<Rightarrow> 'ix list" where
  "Impl_clear (op # ops) (ix # ixs) = ix_clear op ix # Impl_clear ops ixs"
| "Impl_clear _ ixs = ixs"

section \<open>The operations of the table\<close>

definition table_reserve ::
    "('row, 'key, 'ix) Index list \<Rightarrow> nat \<Rightarrow> ('row, 'ix) Table \<Rightarrow> unit outcome \<times> ('row, 'ix) Table" where
  "table_reserve ops n t = (case Impl_reserve ops n (indexes t) of (r, ixs) \<Rightarrow> (r, t\<lparr>indexes := ixs\<rparr>))"

definition table_clear :: "('row, 'key, 'ix) Index list \<Rightarrow> ('row, 'ix) Table \<Rightarrow> ('row, 'ix) Table" where
  "table_clear ops t = \<lparr>rows = [], indexes = Impl_clear ops (indexes t)\<rparr>"

text \<open>An insertion returns the position of the row to which the code returns a reference.\<close>

definition table_insert ::
    "('row, 'key, 'ix) Index list \<Rightarrow> 'row \<Rightarrow> ('row, 'ix) Table \<Rightarrow> nat outcome \<times> ('row, 'ix) Table" where
  "table_insert ops row t =
     (case Impl_insert ops (rows t) (length (rows t)) row None 0 (indexes t) of
        (Inl e, ixs) \<Rightarrow> (Inl e, t\<lparr>indexes := ixs\<rparr>)
      | (Inr (Some existing), ixs) \<Rightarrow> (Inl DuplicateRow, t\<lparr>indexes := ixs\<rparr>)
      | (Inr None, ixs) \<Rightarrow> (Inr (length (rows t)), \<lparr>rows = rows t @ [row], indexes = ixs\<rparr>))"

fun insertRows ::
    "('row, 'key, 'ix) Index list \<Rightarrow> 'row list \<Rightarrow> ('row, 'ix) Table \<Rightarrow> unit outcome \<times> ('row, 'ix) Table" where
  "insertRows ops [] t = (Inr (), t)"
| "insertRows ops (row # rs) t =
     (case table_insert ops row t of
        (Inl e, t') \<Rightarrow> (Inl e, t')
      | (Inr _, t') \<Rightarrow> insertRows ops rs t')"

text \<open>\<open>tryReserveSize\<close> reserves room if the collection has a size.\<close>

definition table_insertAll ::
    "('row, 'key, 'ix) Index list \<Rightarrow> bool \<Rightarrow> 'row list \<Rightarrow> ('row, 'ix) Table \<Rightarrow>
     unit outcome \<times> ('row, 'ix) Table" where
  "table_insertAll ops hasSize collection t =
     (case (if hasSize then table_reserve ops (length (rows t) + length collection) t else (Inr (), t)) of
        (Inl e, t') \<Rightarrow> (Inl e, t')
      | (Inr _, t') \<Rightarrow> insertRows ops collection t')"

definition table_upsert ::
    "('row, 'key, 'ix) Index list \<Rightarrow> ('row \<Rightarrow> 'row \<Rightarrow> 'row) \<Rightarrow> 'row \<Rightarrow> ('row, 'ix) Table \<Rightarrow>
     nat outcome \<times> ('row, 'ix) Table" where
  "table_upsert ops update row t =
     (case Impl_insert ops (rows t) (length (rows t)) row None 0 (indexes t) of
        (Inl e, ixs) \<Rightarrow> (Inl e, t\<lparr>indexes := ixs\<rparr>)
      | (Inr (Some existing), ixs) \<Rightarrow>
          (Inr existing, \<lparr>rows = (rows t)[existing := update (rows t ! existing) row], indexes = ixs\<rparr>)
      | (Inr None, ixs) \<Rightarrow> (Inr (length (rows t)), \<lparr>rows = rows t @ [row], indexes = ixs\<rparr>))"

definition table_find ::
    "('row, 'key, 'ix) Index list \<Rightarrow> nat \<Rightarrow> 'key \<Rightarrow> ('row, 'ix) Table \<Rightarrow> 'row option outcome" where
  "table_find ops index key t =
     (case ix_find (ops ! index) (rows t) key (indexes t ! index) of
        Inl e \<Rightarrow> Inl e
      | Inr (Some pos) \<Rightarrow> Inr (Some (rows t ! pos))
      | Inr None \<Rightarrow> Inr None)"

definition table_eraseImpl ::
    "('row, 'key, 'ix) Index list \<Rightarrow> nat \<Rightarrow> ('row, 'ix) Table \<Rightarrow> (('row, 'ix) Table \<times> bool) outcome" where
  "table_eraseImpl ops pos t =
     (case Impl_erase ops (rows t) pos (rows t ! pos) (indexes t) of
        Inl e \<Rightarrow> Inl e
      | Inr (ixs, l) \<Rightarrow>
          (let back = length (rows t) - 1
           in if pos \<noteq> back then
                (case Impl_move ops (rows t) back pos (rows t ! back) ixs of
                   Inl e \<Rightarrow> Inl e
                 | Inr (ixs', l') \<Rightarrow>
                     Inr (\<lparr>rows = butlast ((rows t)[pos := rows t ! back]), indexes = ixs'\<rparr>, l \<or> l'))
              else Inr (\<lparr>rows = butlast (rows t), indexes = ixs\<rparr>, l)))"

definition table_eraseMatch ::
    "('row, 'key, 'ix) Index list \<Rightarrow> nat \<Rightarrow> 'key \<Rightarrow> ('row, 'ix) Table \<Rightarrow>
     (bool \<times> ('row, 'ix) Table \<times> bool) outcome" where
  "table_eraseMatch ops index key t =
     (case ix_find (ops ! index) (rows t) key (indexes t ! index) of
        Inl e \<Rightarrow> Inl e
      | Inr (Some pos) \<Rightarrow>
          (case table_eraseImpl ops pos t of Inl e \<Rightarrow> Inl e | Inr (t', l) \<Rightarrow> Inr (True, t', l))
      | Inr None \<Rightarrow> Inr (False, t, False))"

definition table_release ::
    "('row, 'key, 'ix) Index list \<Rightarrow> nat \<Rightarrow> ('row, 'ix) Table \<Rightarrow> ('row \<times> ('row, 'ix) Table \<times> bool) outcome" where
  "table_release ops pos t =
     (case Impl_erase ops (rows t) pos (rows t ! pos) (indexes t) of
        Inl e \<Rightarrow> Inl e
      | Inr (ixs, l) \<Rightarrow>
          (let result = rows t ! pos; back = length (rows t) - 1
           in if pos \<noteq> back then
                (case Impl_move ops (rows t) back pos (rows t ! back) ixs of
                   Inl e \<Rightarrow> Inl e
                 | Inr (ixs', l') \<Rightarrow>
                     Inr (result, \<lparr>rows = butlast ((rows t)[pos := rows t ! back]), indexes = ixs'\<rparr>, l \<or> l'))
              else Inr (result, \<lparr>rows = butlast (rows t), indexes = ixs\<rparr>, l)))"

text \<open>\<open>createFunc\<close> makes the new row, or throws; then the key that was inserted for it is erased again.\<close>

definition table_findOrCreate ::
    "('row, 'key, 'ix) Index list \<Rightarrow> nat \<Rightarrow> 'key \<Rightarrow> 'row option \<Rightarrow> ('row, 'ix) Table \<Rightarrow>
     nat outcome \<times> ('row, 'ix) Table" where
  "table_findOrCreate ops index key created t =
     (let pos = length (rows t); op = ops ! index
      in case ix_insert op (rows t) pos key (indexes t ! index) of
           Inl e \<Rightarrow> (Inl e, t)
         | Inr (Some existing, ix) \<Rightarrow> (Inr existing, t\<lparr>indexes := (indexes t)[index := ix]\<rparr>)
         | Inr (None, ix) \<Rightarrow>
             (let ixs = (indexes t)[index := ix];
                  undo = (\<lambda>ixs e. case ix_erase op (rows t) pos key (ixs ! index) of
                            Inl e' \<Rightarrow> (Inl e', \<lparr>rows = rows t, indexes = ixs\<rparr>)
                          | Inr (ix', l) \<Rightarrow> (Inl e, \<lparr>rows = rows t, indexes = ixs[index := ix']\<rparr>))
              in case created of
                   None \<Rightarrow> undo ixs CreateFailed
                 | Some newRow \<Rightarrow>
                     (case Impl_insert ops (rows t @ [newRow]) pos newRow (Some index) 0 ixs of
                        (Inr None, ixs') \<Rightarrow> (Inr pos, \<lparr>rows = rows t @ [newRow], indexes = ixs'\<rparr>)
                      | (Inr (Some _), ixs') \<Rightarrow> undo ixs' DuplicateRow
                      | (Inl e, ixs') \<Rightarrow> undo ixs' e)))"

text \<open>\<open>eraseAll\<close> by a predicate; an erasure puts the last row into the place of the erased one.\<close>

lemma table_eraseImpl_length:
  "table_eraseImpl ops pos t = Inr (t', l) \<Longrightarrow> length (rows t') = length (rows t) - 1"
  by (auto simp: table_eraseImpl_def Let_def split: sum.splits prod.splits if_splits)

function eraseWhere ::
    "('row, 'key, 'ix) Index list \<Rightarrow> ('row \<Rightarrow> bool) \<Rightarrow> nat \<Rightarrow> nat \<Rightarrow> bool \<Rightarrow> ('row, 'ix) Table \<Rightarrow>
     (nat \<times> ('row, 'ix) Table \<times> bool) outcome" where
  "eraseWhere ops predicate i cnt logged t =
     (if i < length (rows t) then
        if predicate (rows t ! i) then
          (case table_eraseImpl ops i t of
             Inl e \<Rightarrow> Inl e
           | Inr (t', l) \<Rightarrow> eraseWhere ops predicate i (cnt + 1) (logged \<or> l) t')
        else eraseWhere ops predicate (i + 1) cnt logged t
      else Inr (cnt, t, logged))"
  by pat_completeness auto

termination
  by (relation "measure (\<lambda>(ops, predicate, i, cnt, logged, t). length (rows t) - i)")
     (auto dest!: table_eraseImpl_length)

declare eraseWhere.simps [simp del]

definition table_eraseAll ::
    "('row, 'key, 'ix) Index list \<Rightarrow> ('row \<Rightarrow> bool) \<Rightarrow> ('row, 'ix) Table \<Rightarrow>
     (nat \<times> ('row, 'ix) Table \<times> bool) outcome" where
  "table_eraseAll ops predicate t = eraseWhere ops predicate 0 0 False t"

text \<open>
  \<open>eraseAllImpl\<close> first turns the numbers of the rows into a sequence of erasures. The inner loop can
  run forever if a row is named twice; it does not if the position gets smaller in each round.
\<close>

fun relocate :: "nat \<Rightarrow> nat list \<Rightarrow> nat \<Rightarrow> nat \<Rightarrow> nat option" where
  "relocate n erased 0 pos = None"
| "relocate n erased (Suc left) pos =
     (if n - length erased \<le> pos then
        if n \<le> pos then None
        else relocate n erased left (erased ! (n - pos - 1))
      else Some pos)"

fun erasures :: "nat \<Rightarrow> nat list \<Rightarrow> nat list \<Rightarrow> nat list option" where
  "erasures n erased [] = Some erased"
| "erasures n erased (pos # collection) =
     (case relocate n erased (Suc pos) pos of
        None \<Rightarrow> None
      | Some pos' \<Rightarrow> erasures n (erased @ [pos']) collection)"

fun eraseEach ::
    "('row, 'key, 'ix) Index list \<Rightarrow> nat list \<Rightarrow> bool \<Rightarrow> ('row, 'ix) Table \<Rightarrow>
     (('row, 'ix) Table \<times> bool) outcome" where
  "eraseEach ops [] logged t = Inr (t, logged)"
| "eraseEach ops (pos # erased) logged t =
     (case table_eraseImpl ops pos t of
        Inl e \<Rightarrow> Inl e
      | Inr (t', l) \<Rightarrow> eraseEach ops erased (logged \<or> l) t')"

definition table_eraseAllImpl ::
    "('row, 'key, 'ix) Index list \<Rightarrow> nat list \<Rightarrow> ('row, 'ix) Table \<Rightarrow>
     (nat \<times> ('row, 'ix) Table \<times> bool) outcome" where
  "table_eraseAllImpl ops collection t =
     (case erasures (length (rows t)) [] collection of
        None \<Rightarrow> Inl Endless
      | Some erased \<Rightarrow>
          (case eraseEach ops erased False t of
             Inl e \<Rightarrow> Inl e
           | Inr (t', l) \<Rightarrow> Inr (length erased, t', l)))"

section \<open>What an index promises\<close>

text \<open>
  The content of an index is a map from positions to keys. A key occurs once in it, and the rows of
  the table are those that the content says they are.
\<close>

type_synonym 'key content = "nat \<rightharpoonup> 'key"

definition rowsHold :: "('row \<Rightarrow> 'key) \<Rightarrow> 'row list \<Rightarrow> 'key content \<Rightarrow> bool" where
  "rowsHold keyForRow rs c \<longleftrightarrow> inj_on c (dom c) \<and>
     (\<forall>p k. c p = Some k \<longrightarrow> p < length rs \<and> keyForRow (rs ! p) = k)"

definition contentOf :: "('row \<Rightarrow> 'key) \<Rightarrow> 'row list \<Rightarrow> 'key content" where
  "contentOf keyForRow rs p = (if p < length rs then Some (keyForRow (rs ! p)) else None)"

text \<open>
  The documented contract of the index classes, for an index that allows no duplicates: \<open>insert\<close>
  returns the row with the same key or notes the new position, \<open>erase\<close> and \<open>move\<close> find the row that they are
  given and do not look at the rows in motion, \<open>find\<close> returns the row with the key. An
  insertion throws only when the table is at its maximum size.
\<close>

locale table_index =
  fixes op :: "('row, 'key, 'ix) Index"
    and valid :: "'key content \<Rightarrow> 'ix \<Rightarrow> bool"
    and limit :: nat
  assumes insert_law:
    "valid c ix \<Longrightarrow> rowsHold (ix_keyForRow op) rs c \<Longrightarrow> card (dom c) \<le> length rs \<Longrightarrow> c pos = None \<Longrightarrow>
     (case ix_insert op rs pos key ix of
        Inl e \<Rightarrow> e = TooBig \<and> limit \<le> length rs
      | Inr (Some p, ix') \<Rightarrow> c p = Some key \<and> valid c ix'
      | Inr (None, ix') \<Rightarrow> key \<notin> ran c \<and> valid (c(pos \<mapsto> key)) ix')"
    and erase_law:
    "valid c ix \<Longrightarrow> c p = Some key \<Longrightarrow> inj_on c (dom c) \<Longrightarrow> rowsHold (ix_keyForRow op) rs (c(p := None)) \<Longrightarrow>
     \<exists>ix'. ix_erase op rs p key ix = Inr (ix', False) \<and> valid (c(p := None)) ix'"
    and move_law:
    "valid c ix \<Longrightarrow> c old = Some key \<Longrightarrow> c new = None \<Longrightarrow> inj_on c (dom c) \<Longrightarrow>
     rowsHold (ix_keyForRow op) rs (c(old := None)) \<Longrightarrow>
     \<exists>ix'. ix_move op rs old new key ix = Inr (ix', False) \<and> valid (c(old := None, new \<mapsto> key)) ix'"
    and find_law:
    "valid c ix \<Longrightarrow> rowsHold (ix_keyForRow op) rs c \<Longrightarrow>
     \<exists>r. ix_find op rs key ix = Inr r \<and> (\<forall>p. r = Some p \<longleftrightarrow> c p = Some key)"
    and clear_law: "valid c ix \<Longrightarrow> valid Map.empty (ix_clear op ix)"
    and reserve_law:
    "valid c ix \<Longrightarrow> (case ix_reserve op n ix of Inl e \<Rightarrow> e = TooBig \<and> limit \<le> n | Inr ix' \<Rightarrow> valid c ix')"

text \<open>
  A table has indexes that come with their representation invariants. They are all valid for the rows if
  each is valid for the keys that it gives to the rows. \<open>readyFor\<close> is the state during an insertion, when
  the index \<open>skip\<close> has the new row already.
\<close>

type_synonym ('row, 'key, 'ix) spec = "('row, 'key, 'ix) Index \<times> ('key content \<Rightarrow> 'ix \<Rightarrow> bool)"

fun readyFor ::
    "nat option \<Rightarrow> nat \<Rightarrow> 'row list \<Rightarrow> 'row list \<Rightarrow> ('row, 'key, 'ix) spec list \<Rightarrow> 'ix list \<Rightarrow> bool" where
  "readyFor skip i rs rs' ((op, valid) # sp) (ix # ixs) \<longleftrightarrow>
     valid (contentOf (ix_keyForRow op) (if skip = Some i then rs' else rs)) ix \<and> readyFor skip (i + 1) rs rs' sp ixs"
| "readyFor skip i rs rs' [] ixs \<longleftrightarrow> ixs = []"
| "readyFor skip i rs rs' (s # sp) [] \<longleftrightarrow> False"

definition allValid :: "('row, 'key, 'ix) spec list \<Rightarrow> 'row list \<Rightarrow> 'ix list \<Rightarrow> bool" where
  "allValid sp rs ixs \<longleftrightarrow> list_all2 (\<lambda>(op, valid) ix. valid (contentOf (ix_keyForRow op) rs) ix) sp ixs"

definition keysDistinct :: "('row, 'key, 'ix) spec list \<Rightarrow> 'row list \<Rightarrow> bool" where
  "keysDistinct sp rs \<longleftrightarrow> (\<forall>(op, valid) \<in> set sp. distinct (map (ix_keyForRow op) rs))"

definition tableValid :: "('row, 'key, 'ix) spec list \<Rightarrow> ('row, 'ix) Table \<Rightarrow> bool" where
  "tableValid sp t \<longleftrightarrow> allValid sp (rows t) (indexes t) \<and> keysDistinct sp (rows t)"

definition swapRemove :: "nat \<Rightarrow> 'a list \<Rightarrow> 'a list" where
  "swapRemove pos xs = butlast (xs[pos := last xs])"

lemma contentOf_Some: "contentOf k rs p = Some x \<longleftrightarrow> p < length rs \<and> k (rs ! p) = x"
  by (simp add: contentOf_def)

lemma contentOf_None: "contentOf k rs p = None \<longleftrightarrow> length rs \<le> p"
  by (simp add: contentOf_def)

lemma dom_contentOf: "dom (contentOf k rs) = {..<length rs}"
  by (auto simp: contentOf_def dom_def)

lemma ran_contentOf: "ran (contentOf k rs) = k ` set rs"
  by (auto simp: contentOf_def ran_def set_conv_nth)

lemma contentOf_Nil: "contentOf k [] = Map.empty"
  by (simp add: contentOf_def fun_eq_iff)

lemma contentOf_append: "contentOf k (rs @ [row]) = (contentOf k rs)(length rs \<mapsto> k row)"
  by (auto simp: contentOf_def fun_eq_iff nth_append)

lemma contentOf_map_upd:
  "p < length rs \<Longrightarrow> k row = k (rs ! p) \<Longrightarrow> contentOf k (rs[p := row]) = contentOf k rs"
  by (auto simp: contentOf_def fun_eq_iff nth_list_update)

lemma inj_contentOf: "distinct (map k rs) \<Longrightarrow> inj_on (contentOf k rs) (dom (contentOf k rs))"
  by (auto simp: inj_on_def dom_contentOf contentOf_def distinct_conv_nth)

lemma rowsHold_contentOf: "distinct (map k rs) \<Longrightarrow> rowsHold k (rs @ zs) (contentOf k rs)"
  by (simp add: rowsHold_def inj_contentOf contentOf_Some nth_append)

lemma rowsHold_erased:
  "rowsHold k rs c \<Longrightarrow> rowsHold k rs (c(p := None))"
  by (auto simp: rowsHold_def inj_on_def)

lemma contentOf_swapRemove:
  assumes "pos < length rs" and "pos \<noteq> length rs - 1"
  shows "contentOf k (swapRemove pos rs) =
    ((contentOf k rs)(pos := None))(length rs - 1 := None, pos \<mapsto> k (rs ! (length rs - 1)))"
proof -
  have "last rs = rs ! (length rs - 1)" using assms by (intro last_conv_nth) auto
  then show ?thesis using assms
    by (auto simp: fun_eq_iff contentOf_def swapRemove_def nth_butlast nth_list_update)
qed

lemma contentOf_butlast: "rs \<noteq> [] \<Longrightarrow> contentOf k (butlast rs) = (contentOf k rs)(length rs - 1 := None)"
  by (auto simp: fun_eq_iff contentOf_def nth_butlast)

lemma swapRemove_last: "rs \<noteq> [] \<Longrightarrow> swapRemove (length rs - 1) rs = butlast rs"
  by (simp add: swapRemove_def last_conv_nth)

lemma mset_swapRemove:
  assumes "pos < length rs"
  shows "mset (swapRemove pos rs) = mset rs - {#rs ! pos#}"
proof -
  have ne: "rs \<noteq> []" using assms by auto
  let ?xs = "rs[pos := last rs]"
  have "last ?xs = last rs" using assms ne by (simp add: last_conv_nth nth_list_update)
  moreover have "?xs \<noteq> []" using ne by simp
  ultimately have "mset ?xs = mset (butlast ?xs) + {#last rs#}" 
    by (metis append_butlast_last_id mset.simps mset_append)
  moreover have "mset ?xs = mset rs - {#rs ! pos#} + {#last rs#}" using assms by (simp add: mset_update)
  ultimately show ?thesis by (simp add: swapRemove_def)
qed

text \<open>
  A table whose indexes all keep the contract. An index comes with its representation invariant.
\<close>

locale table_indexes =
  fixes specs :: "('row, 'key, 'ix) spec list"
    and limit :: nat
  assumes laws: "(op, valid) \<in> set specs \<Longrightarrow> table_index op valid limit"

section \<open>The recursion over the indexes\<close>

lemma inj_on_map_upd:
  assumes "inj_on c (dom c)" and "v \<notin> ran c"
  shows "inj_on (c(p \<mapsto> v)) (dom (c(p \<mapsto> v)))"
proof (rule inj_onI)
  fix x y assume *: "x \<in> dom (c(p \<mapsto> v))" "y \<in> dom (c(p \<mapsto> v))" "(c(p \<mapsto> v)) x = (c(p \<mapsto> v)) y"
  have "c z \<noteq> Some v" for z using assms(2) by (auto simp: ran_def)
  then show "x = y" using * assms(1) by (cases "x = p"; cases "y = p") (auto simp: inj_on_def)
qed

context table_indexes
begin

lemmas insert_law = table_index.insert_law [OF laws]
lemmas erase_law = table_index.erase_law [OF laws]
lemmas move_law = table_index.move_law [OF laws]
lemmas find_law = table_index.find_law [OF laws]
lemmas clear_law = table_index.clear_law [OF laws]
lemmas reserve_law = table_index.reserve_law [OF laws]

lemma readyFor_None: "readyFor None i rs rs' sp ixs \<longleftrightarrow> allValid sp rs ixs"
  by (induction sp ixs arbitrary: i rule: list_induct2') (auto simp: allValid_def)

text \<open>One index notes a new row, and forgets it again if it has to.\<close>

lemma undo_one:
  assumes "(op, valid) \<in> set specs" and "distinct (map (ix_keyForRow op) rs)"
    and "valid ((contentOf (ix_keyForRow op) rs)(length rs \<mapsto> key)) ix" and "key \<notin> ix_keyForRow op ` set rs"
  shows "\<exists>ix'. ix_erase op (rs @ zs) (length rs) key ix = Inr (ix', False) \<and> valid (contentOf (ix_keyForRow op) rs) ix'"
proof -
  let ?c = "(contentOf (ix_keyForRow op) rs)(length rs \<mapsto> key)"
  have undone: "?c(length rs := None) = contentOf (ix_keyForRow op) rs"
    by (auto simp: fun_eq_iff) (simp add: contentOf_def)
  have "inj_on ?c (dom ?c)"
    using inj_contentOf [OF assms(2)] assms(4) by (intro inj_on_map_upd) (simp_all add: ran_contentOf)
  from erase_law [OF assms(1,3) _ this, of "length rs" key "rs @ zs"] show ?thesis
    using rowsHold_contentOf [OF assms(2), of zs] unfolding undone by simp
qed

lemma insert_one:
  assumes "(op, valid) \<in> set specs" and "valid (contentOf (ix_keyForRow op) rs) ix"
    and "distinct (map (ix_keyForRow op) rs)"
  shows "case ix_insert op (rs @ zs) (length rs) key ix of
      Inl e \<Rightarrow> e = TooBig \<and> limit \<le> length (rs @ zs)
    | Inr (Some p, ix') \<Rightarrow> p < length rs \<and> ix_keyForRow op (rs ! p) = key \<and> valid (contentOf (ix_keyForRow op) rs) ix'
    | Inr (None, ix') \<Rightarrow> key \<notin> ix_keyForRow op ` set rs \<and>
        valid ((contentOf (ix_keyForRow op) rs)(length rs \<mapsto> key)) ix'"
proof -
  let ?c = "contentOf (ix_keyForRow op) rs"
  have "case ix_insert op (rs @ zs) (length rs) key ix of
      Inl e \<Rightarrow> e = TooBig \<and> limit \<le> length (rs @ zs)
    | Inr (Some p, ix') \<Rightarrow> ?c p = Some key \<and> valid ?c ix'
    | Inr (None, ix') \<Rightarrow> key \<notin> ran ?c \<and> valid (?c(length rs \<mapsto> key)) ix'"
    using assms by (intro insert_law [OF assms(1)])
      (simp_all add: rowsHold_contentOf dom_contentOf contentOf_None)
  then show ?thesis by (auto simp: contentOf_Some ran_contentOf split: sum.splits option.splits)
qed

lemma Impl_insert_cases:
  assumes "set sp \<subseteq> set specs" and "readyFor skip i rs (rs @ [row]) sp ixs" and "keysDistinct sp rs"
  shows "case Impl_insert (map fst sp) (rs @ zs) (length rs) row skip i ixs of
      (Inl e, ixs') \<Rightarrow> e = TooBig \<and> limit \<le> length (rs @ zs) \<and> readyFor skip i rs (rs @ [row]) sp ixs'
    | (Inr (Some p), ixs') \<Rightarrow> readyFor skip i rs (rs @ [row]) sp ixs' \<and> p < length rs \<and>
        (\<exists>j < length sp. skip \<noteq> Some (i + j) \<and>
           ix_keyForRow (fst (sp ! j)) (rs ! p) = ix_keyForRow (fst (sp ! j)) row)
    | (Inr None, ixs') \<Rightarrow> allValid sp (rs @ [row]) ixs' \<and>
        (\<forall>j < length sp. skip \<noteq> Some (i + j) \<longrightarrow>
           ix_keyForRow (fst (sp ! j)) row \<notin> ix_keyForRow (fst (sp ! j)) ` set rs)"
  using assms
proof (induction sp arbitrary: i ixs)
  case Nil
  then show ?case by (simp add: allValid_def)
next
  case (Cons s sp)
  obtain op valid where s: "s = (op, valid)" by (cases s)
  obtain ix ixt where ixs: "ixs = ix # ixt" using Cons.prems(2) s by (cases ixs) auto
  let ?k = "ix_keyForRow op"
  let ?rest = "Impl_insert (map fst sp) (rs @ zs) (length rs) row skip (i + 1) ixt"
  have sp: "(op, valid) \<in> set specs" "set sp \<subseteq> set specs" "readyFor skip (i + 1) rs (rs @ [row]) sp ixt"
    "keysDistinct sp rs" and d: "distinct (map ?k rs)"
    using Cons.prems s ixs by (auto simp: keysDistinct_def)
  note IH = Cons.IH [OF sp(2-4)]
  show ?case
  proof (cases "skip = Some i")
    case True
    have v: "valid (contentOf ?k (rs @ [row])) ix" using Cons.prems(2) True s ixs by simp
    then show ?thesis using IH True s ixs
      by (auto simp: less_Suc_eq_0_disj allValid_def split: prod.splits sum.splits option.splits)
  next
    case False
    have v: "valid (contentOf ?k rs) ix" using Cons.prems(2) False s ixs by simp
    note one = insert_one [OF sp(1) v d, of zs "?k row"]
    show ?thesis
    proof (cases "ix_insert op (rs @ zs) (length rs) (?k row) ix")
      case (Inl e)
      then show ?thesis using one False Cons.prems(2) s ixs by simp
    next
      case (Inr r)
      then obtain o' ix' where r: "ix_insert op (rs @ zs) (length rs) (?k row) ix = Inr (o', ix')" by (cases r) simp
      show ?thesis
      proof (cases o')
        case (Some p)
        then show ?thesis using one r False sp(3) s ixs by auto
      next
        case None
        have new: "valid (contentOf ?k (rs @ [row])) ix'" "?k row \<notin> ?k ` set rs"
          using one r None by (simp_all add: contentOf_append)
        obtain ix'' where "ix_erase op (rs @ zs) (length rs) (?k row) ix' = Inr (ix'', False)" "valid (contentOf ?k rs) ix''"
          using undo_one [OF sp(1) d new(1) [unfolded contentOf_append] new(2)] by blast
        then show ?thesis using IH new False s ixs r None
          by (auto simp: less_Suc_eq_0_disj allValid_def split: prod.splits sum.splits option.splits)
      qed
    qed
  qed
qed
end

section \<open>The operations keep the table valid\<close>

text \<open>The state between the two steps of an erasure, when every index has forgotten the row.\<close>

definition erasedContent :: "('row \<Rightarrow> 'key) \<Rightarrow> 'row list \<Rightarrow> nat \<Rightarrow> 'key content" where
  "erasedContent k rs pos = (contentOf k rs)(pos := None)"

definition allErased :: "('row, 'key, 'ix) spec list \<Rightarrow> 'row list \<Rightarrow> nat \<Rightarrow> 'ix list \<Rightarrow> bool" where
  "allErased sp rs pos ixs \<longleftrightarrow>
     list_all2 (\<lambda>(op, valid) ix. valid (erasedContent (ix_keyForRow op) rs pos) ix) sp ixs"

context table_indexes
begin

lemma keysDistinct_append:
  "keysDistinct sp (rs @ [row]) \<longleftrightarrow>
   keysDistinct sp rs \<and> (\<forall>j < length sp. ix_keyForRow (fst (sp ! j)) row \<notin> ix_keyForRow (fst (sp ! j)) ` set rs)"
  by (auto simp: keysDistinct_def all_set_conv_all_nth split_beta)

lemma insert_cases:
  assumes "tableValid specs t"
  shows "case Impl_insert (map fst specs) (rows t) (length (rows t)) row None 0 (indexes t) of
      (Inl e, ixs) \<Rightarrow> e = TooBig \<and> limit \<le> length (rows t) \<and> allValid specs (rows t) ixs
    | (Inr (Some p), ixs) \<Rightarrow> allValid specs (rows t) ixs \<and> p < length (rows t) \<and>
        (\<exists>(op, valid) \<in> set specs. ix_keyForRow op (rows t ! p) = ix_keyForRow op row)
    | (Inr None, ixs) \<Rightarrow> allValid specs (rows t @ [row]) ixs \<and> keysDistinct specs (rows t @ [row])"
  using assms Impl_insert_cases [of specs None 0 "rows t" row "indexes t" "[]"]
  by (fastforce simp: tableValid_def readyFor_None keysDistinct_append split_beta in_set_conv_nth
      split: prod.splits sum.splits option.splits)

lemma table_insert_cases:
  assumes "tableValid specs t"
  obtains (Failed) e ixs where "table_insert (map fst specs) row t = (Inl e, t\<lparr>indexes := ixs\<rparr>)"
      "tableValid specs (t\<lparr>indexes := ixs\<rparr>)"
      "e = DuplicateRow \<and> (\<exists>(op, valid) \<in> set specs. ix_keyForRow op row \<in> ix_keyForRow op ` set (rows t)) \<or>
       e = TooBig \<and> limit \<le> length (rows t)"
  | (Inserted) t' where "table_insert (map fst specs) row t = (Inr (length (rows t)), t')"
      "tableValid specs t'" "rows t' = rows t @ [row]"
proof -
  obtain r ixs where r: "Impl_insert (map fst specs) (rows t) (length (rows t)) row None 0 (indexes t) = (r, ixs)"
    by (metis surj_pair)
  note c = insert_cases [OF assms, of row, unfolded r]
  show thesis
  proof (cases r)
    case (Inl e)
    then show thesis using c r assms by (intro Failed [of e ixs]) (auto simp: table_insert_def tableValid_def)
  next
    case (Inr p)
    show thesis
    proof (cases p)
      case None
      then show thesis using c r Inr
        by (intro Inserted [of "\<lparr>rows = rows t @ [row], indexes = ixs\<rparr>"]) (simp_all add: table_insert_def tableValid_def)
    next
      case (Some q)
      then have "\<exists>(op, valid) \<in> set specs. ix_keyForRow op row \<in> ix_keyForRow op ` set (rows t)"
        using c Inr by (force intro: image_eqI [where x = "rows t ! q"] nth_mem)
      then show thesis using Some c r Inr assms
        by (intro Failed [of DuplicateRow ixs]) (simp_all add: table_insert_def tableValid_def)
    qed
  qed
qed

lemma Impl_erase_correct:
  assumes "set sp \<subseteq> set specs" and "allValid sp rs ixs" and "keysDistinct sp rs" and "pos < length rs"
  shows "\<exists>ixs'. Impl_erase (map fst sp) rs pos (rs ! pos) ixs = Inr (ixs', False) \<and>
    allErased sp rs pos ixs'"
  using assms
proof (induction sp arbitrary: ixs)
  case (Cons s sp)
  obtain op valid where s: "s = (op, valid)" by (cases s)
  obtain ix ixt where ixs: "ixs = ix # ixt" using Cons.prems(2) s by (cases ixs) (auto simp: allValid_def)
  have op: "(op, valid) \<in> set specs" "valid (contentOf (ix_keyForRow op) rs) ix" "distinct (map (ix_keyForRow op) rs)"
    "allValid sp rs ixt" "keysDistinct sp rs" "set sp \<subseteq> set specs"
    using Cons.prems s ixs by (auto simp: allValid_def keysDistinct_def)
  have "\<exists>ix'. ix_erase op rs pos (ix_keyForRow op (rs ! pos)) ix = Inr (ix', False) \<and>
      valid ((contentOf (ix_keyForRow op) rs)(pos := None)) ix'"
    using op assms(4) rowsHold_contentOf [of "ix_keyForRow op" rs "[]"]
    by (intro erase_law [OF op(1)]) (simp_all add: contentOf_Some inj_contentOf rowsHold_erased)
  then show ?case using Cons.IH [OF op(6,4,5) assms(4)] s ixs by (auto simp: allErased_def erasedContent_def)
qed (auto simp: allValid_def allErased_def)

lemma Impl_move_correct:
  assumes "set sp \<subseteq> set specs" and "keysDistinct sp rs" and "pos < length rs" and "pos \<noteq> length rs - 1"
    and "allErased sp rs pos ixs"
  shows "\<exists>ixs'. Impl_move (map fst sp) rs (length rs - 1) pos (rs ! (length rs - 1)) ixs = Inr (ixs', False) \<and>
    allValid sp (swapRemove pos rs) ixs'"
  using assms
proof (induction sp arbitrary: ixs)
  case (Cons s sp)
  obtain op valid where s: "s = (op, valid)" by (cases s)
  obtain ix ixt where ixs: "ixs = ix # ixt" using Cons.prems(5) s by (cases ixs) (auto simp: allErased_def)
  let ?k = "ix_keyForRow op"
  let ?c = "(contentOf ?k rs)(pos := None)"
  have op: "(op, valid) \<in> set specs" "valid (erasedContent ?k rs pos) ix" "distinct (map ?k rs)" "keysDistinct sp rs" "set sp \<subseteq> set specs"
    using Cons.prems s ixs by (auto simp: keysDistinct_def allErased_def)
  have hold: "rowsHold ?k rs ?c" using rowsHold_erased [OF rowsHold_contentOf [OF op(3), of "[]"]] by simp
  have "\<exists>ix'. ix_move op rs (length rs - 1) pos (?k (rs ! (length rs - 1))) ix = Inr (ix', False) \<and>
      valid (?c(length rs - 1 := None, pos \<mapsto> ?k (rs ! (length rs - 1)))) ix'"
  proof (rule move_law [OF op(1) op(2) [unfolded erasedContent_def]])
    show "?c (length rs - 1) = Some (?k (rs ! (length rs - 1)))" using assms(3,4) by (auto simp: contentOf_Some)
    show "inj_on ?c (dom ?c)" using hold by (simp only: rowsHold_def)
    show "rowsHold ?k rs (?c(length rs - 1 := None))" using hold by (rule rowsHold_erased)
  qed simp
  then obtain ix' where ix': "ix_move op rs (length rs - 1) pos (?k (rs ! (length rs - 1))) ix = Inr (ix', False)"
    "valid (contentOf ?k (swapRemove pos rs)) ix'"
    unfolding contentOf_swapRemove [OF assms(3,4)] by blast
  have "allErased sp rs pos ixt" using Cons.prems(5) s ixs by (simp add: allErased_def)
  from Cons.IH [OF op(5,4) assms(3,4) this] obtain ixs' where
    "Impl_move (map fst sp) rs (length rs - 1) pos (rs ! (length rs - 1)) ixt = Inr (ixs', False)"
    "allValid sp (swapRemove pos rs) ixs'" by blast
  then show ?case using ix' s ixs by (simp add: allValid_def)
qed (auto simp: allValid_def allErased_def)

lemma keysDistinct_swapRemove:
  assumes "keysDistinct sp rs" and "pos < length rs"
  shows "keysDistinct sp (swapRemove pos rs)"
proof -
  have "distinct (map k (swapRemove pos rs))" if "distinct (map k rs)" for k :: "'a \<Rightarrow> 'b"
  proof -
    have "mset rs = mset (rs ! pos # swapRemove pos rs)"
      using mset_swapRemove [OF assms(2)] assms(2) by (simp add: nth_mem_mset)
    then have "mset (map k rs) = mset (map k (rs ! pos # swapRemove pos rs))" by (simp only: mset_map)
    then have "distinct (map k (rs ! pos # swapRemove pos rs))" using that mset_eq_imp_distinct_iff by blast
    then show ?thesis by simp
  qed
  then show ?thesis using assms(1) by (auto simp: keysDistinct_def)
qed

lemma table_eraseImpl_correct:
  assumes "tableValid specs t" and "pos < length (rows t)"
  obtains t' where "table_eraseImpl (map fst specs) pos t = Inr (t', False)" and "tableValid specs t'"
    and "rows t' = swapRemove pos (rows t)"
proof -
  let ?rs = "rows t"
  have v: "allValid specs ?rs (indexes t)" "keysDistinct specs ?rs" using assms(1) by (simp_all add: tableValid_def)
  obtain ixs where ixs: "Impl_erase (map fst specs) ?rs pos (?rs ! pos) (indexes t) = Inr (ixs, False)"
    "allErased specs ?rs pos ixs"
    using Impl_erase_correct [OF order.refl v assms(2)] by blast
  have ne: "?rs \<noteq> []" using assms(2) by auto
  note kd = keysDistinct_swapRemove [OF v(2) assms(2)]
  show thesis
  proof (cases "pos = length ?rs - 1")
    case True
    then have "swapRemove pos ?rs = butlast ?rs" using ne swapRemove_last by blast
    moreover have "allValid specs (butlast ?rs) ixs"
      using ixs(2) ne True by (simp add: allValid_def contentOf_butlast allErased_def erasedContent_def)
    ultimately show thesis using that [of "\<lparr>rows = butlast ?rs, indexes = ixs\<rparr>"] ixs(1) True kd
      by (simp add: table_eraseImpl_def tableValid_def)
  next
    case False
    obtain ixs' where "Impl_move (map fst specs) ?rs (length ?rs - 1) pos (?rs ! (length ?rs - 1)) ixs = Inr (ixs', False)"
      "allValid specs (swapRemove pos ?rs) ixs'"
      using Impl_move_correct [OF order.refl v(2) assms(2) False ixs(2)] by blast
    moreover have "swapRemove pos ?rs = butlast (?rs[pos := ?rs ! (length ?rs - 1)])"
      using ne by (simp add: swapRemove_def last_conv_nth)
    ultimately show thesis using that [of "\<lparr>rows = swapRemove pos ?rs, indexes = ixs'\<rparr>"] ixs(1) False kd
      by (simp add: table_eraseImpl_def tableValid_def)
  qed
qed
end

lemma find_unique:
  "distinct (map k xs) \<Longrightarrow> p < length xs \<Longrightarrow> List.find (\<lambda>x. k x = k (xs ! p)) xs = Some (xs ! p)"
  by (auto simp: find_Some_iff distinct_conv_nth)

context table_indexes
begin

lemma nth_spec:
  assumes "tableValid specs t" and "index < length specs"
  obtains op valid where "specs ! index = (op, valid)" and "(op, valid) \<in> set specs"
    and "valid (contentOf (ix_keyForRow op) (rows t)) (indexes t ! index)"
    and "distinct (map (ix_keyForRow op) (rows t))" and "index < length (indexes t)"
proof -
  obtain op valid where s: "specs ! index = (op, valid)" by (cases "specs ! index")
  then have "(op, valid) \<in> set specs" using assms(2) by (metis nth_mem)
  moreover have "length specs = length (indexes t)" "valid (contentOf (ix_keyForRow op) (rows t)) (indexes t ! index)"
    using assms s list_all2_nthD [of _ specs "indexes t" index]
    by (auto simp: tableValid_def allValid_def dest: list_all2_lengthD)
  ultimately show thesis using that s assms by (auto simp: tableValid_def keysDistinct_def)
qed

lemma allValid_cong:
  "\<forall>(op, valid) \<in> set sp. contentOf (ix_keyForRow op) rs = contentOf (ix_keyForRow op) rs' \<Longrightarrow>
   allValid sp rs ixs \<longleftrightarrow> allValid sp rs' ixs"
  unfolding allValid_def by (rule list.rel_cong) auto

lemma ix_find_correct:
  assumes "tableValid specs t" and "index < length specs"
  shows "\<exists>r. ix_find (fst (specs ! index)) (rows t) key (indexes t ! index) = Inr r \<and>
    (case r of Some p \<Rightarrow> p < length (rows t) \<and> ix_keyForRow (fst (specs ! index)) (rows t ! p) = key
     | None \<Rightarrow> key \<notin> ix_keyForRow (fst (specs ! index)) ` set (rows t))"
proof -
  obtain op valid where s: "specs ! index = (op, valid)" "(op, valid) \<in> set specs"
    "valid (contentOf (ix_keyForRow op) (rows t)) (indexes t ! index)" "distinct (map (ix_keyForRow op) (rows t))"
    using nth_spec [OF assms] by blast
  obtain r where r: "ix_find op (rows t) key (indexes t ! index) = Inr r"
    "\<forall>p. r = Some p \<longleftrightarrow> contentOf (ix_keyForRow op) (rows t) p = Some key"
    using find_law [OF s(2,3), of "rows t" key] rowsHold_contentOf [OF s(4), of "[]"] by auto
  have "key \<notin> ix_keyForRow op ` set (rows t)" if "r = None"
    using r(2) that by (auto simp: contentOf_Some in_set_conv_nth)
  then show ?thesis using r s(1) by (auto simp: contentOf_Some split: option.splits)
qed

lemma table_find_correct:
  assumes "tableValid specs t" and "index < length specs"
  shows "table_find (map fst specs) index key t =
    Inr (List.find (\<lambda>row. ix_keyForRow (fst (specs ! index)) row = key) (rows t))"
proof -
  let ?k = "ix_keyForRow (fst (specs ! index))"
  obtain r where r: "ix_find (fst (specs ! index)) (rows t) key (indexes t ! index) = Inr r"
    "case r of Some p \<Rightarrow> p < length (rows t) \<and> ?k (rows t ! p) = key | None \<Rightarrow> key \<notin> ?k ` set (rows t)"
    using ix_find_correct [OF assms] by blast
  have d: "distinct (map ?k (rows t))" using nth_spec [OF assms] by (metis fst_conv)
  show ?thesis
  proof (cases r)
    case None
    then have "List.find (\<lambda>row. ?k row = key) (rows t) = None" using r(2) by (auto simp: find_None_iff)
    then show ?thesis using r(1) None assms(2) by (simp add: table_find_def)
  next
    case (Some p)
    then show ?thesis using r d assms(2) find_unique [of ?k "rows t" p] by (auto simp: table_find_def)
  qed
qed

lemma table_eraseMatch_correct:
  assumes "tableValid specs t" and "index < length specs"
  shows "case List.find (\<lambda>row. ix_keyForRow (fst (specs ! index)) row = key) (rows t) of
      None \<Rightarrow> table_eraseMatch (map fst specs) index key t = Inr (False, t, False)
    | Some row \<Rightarrow> \<exists>t'. table_eraseMatch (map fst specs) index key t = Inr (True, t', False) \<and>
        tableValid specs t' \<and> mset (rows t') = mset (rows t) - {#row#}"
proof -
  let ?k = "ix_keyForRow (fst (specs ! index))"
  obtain r where r: "ix_find (fst (specs ! index)) (rows t) key (indexes t ! index) = Inr r"
    "case r of Some p \<Rightarrow> p < length (rows t) \<and> ?k (rows t ! p) = key | None \<Rightarrow> key \<notin> ?k ` set (rows t)"
    using ix_find_correct [OF assms] by blast
  have d: "distinct (map ?k (rows t))" using nth_spec [OF assms] by (metis fst_conv)
  show ?thesis
  proof (cases r)
    case None
    then have "List.find (\<lambda>row. ?k row = key) (rows t) = None" using r(2) by (auto simp: find_None_iff)
    then show ?thesis using r(1) None assms(2) by (simp add: table_eraseMatch_def)
  next
    case (Some p)
    then have p: "p < length (rows t)" "?k (rows t ! p) = key" using r(2) by auto
    from table_eraseImpl_correct [OF assms(1) p(1)] obtain t' where
      "table_eraseImpl (map fst specs) p t = Inr (t', False)" "tableValid specs t'" "rows t' = swapRemove p (rows t)" .
    then show ?thesis using r Some p assms(2) find_unique [OF d p(1)] mset_swapRemove [OF p(1)]
      by (auto simp: table_eraseMatch_def)
  qed
qed

lemma table_upsert_cases:
  assumes "tableValid specs t"
    and "\<forall>(op, valid) \<in> set specs. \<forall>old. ix_keyForRow op (update old row) = ix_keyForRow op old"
  obtains (Failed) ixs where "table_upsert (map fst specs) update row t = (Inl TooBig, t\<lparr>indexes := ixs\<rparr>)"
      "tableValid specs (t\<lparr>indexes := ixs\<rparr>)" "limit \<le> length (rows t)"
  | (Updated) p t' where "table_upsert (map fst specs) update row t = (Inr p, t')" "tableValid specs t'"
      "p < length (rows t)" "\<exists>(op, valid) \<in> set specs. ix_keyForRow op (rows t ! p) = ix_keyForRow op row"
      "rows t' = (rows t)[p := update (rows t ! p) row]"
  | (Inserted) t' where "table_upsert (map fst specs) update row t = (Inr (length (rows t)), t')"
      "tableValid specs t'" "rows t' = rows t @ [row]"
proof -
  obtain r ixs where r: "Impl_insert (map fst specs) (rows t) (length (rows t)) row None 0 (indexes t) = (r, ixs)"
    by (metis surj_pair)
  note c = insert_cases [OF assms(1), of row, unfolded r]
  show thesis
  proof (cases r)
    case (Inl e)
    then show thesis using c r assms(1) by (intro Failed [of ixs]) (auto simp: table_upsert_def tableValid_def)
  next
    case (Inr q)
    show thesis
    proof (cases q)
      case None
      then show thesis using c r Inr
        by (intro Inserted [of "\<lparr>rows = rows t @ [row], indexes = ixs\<rparr>"]) (simp_all add: table_upsert_def tableValid_def)
    next
      case (Some p)
      let ?rs = "(rows t)[p := update (rows t ! p) row]"
      have p: "p < length (rows t)" "allValid specs (rows t) ixs" using c Inr Some by auto
      have same: "contentOf (ix_keyForRow op) ?rs = contentOf (ix_keyForRow op) (rows t)"
        "map (ix_keyForRow op) ?rs = map (ix_keyForRow op) (rows t)" if "(op, valid) \<in> set specs" for op valid
        using assms(2) that p(1) by (auto simp: contentOf_map_upd map_update list_update_same_conv)
      have "allValid specs ?rs ixs" using p(2) same(1) allValid_cong [of specs ?rs "rows t"] by blast
      moreover have "keysDistinct specs ?rs" using assms(1) same(2) by (auto simp: tableValid_def keysDistinct_def)
      ultimately show thesis using c r Inr Some
        by (intro Updated [of p "\<lparr>rows = ?rs, indexes = ixs\<rparr>"]) (simp_all add: table_upsert_def tableValid_def)
    qed
  qed
qed

lemma Impl_clear_correct: "set sp \<subseteq> set specs \<Longrightarrow> allValid sp rs ixs \<Longrightarrow> allValid sp [] (Impl_clear (map fst sp) ixs)"
proof (induction sp arbitrary: ixs)
  case (Cons s sp)
  then show ?case by (cases s; cases ixs) (auto simp: allValid_def contentOf_Nil intro: clear_law)
qed (auto simp: allValid_def)

lemma table_clear_correct: "tableValid specs t \<Longrightarrow> tableValid specs (table_clear (map fst specs) t)"
  using Impl_clear_correct [of specs] by (auto simp: tableValid_def table_clear_def keysDistinct_def)

lemma Impl_reserve_correct:
  "set sp \<subseteq> set specs \<Longrightarrow> allValid sp rs ixs \<Longrightarrow>
   allValid sp rs (snd (Impl_reserve (map fst sp) n ixs)) \<and>
   (case fst (Impl_reserve (map fst sp) n ixs) of Inl e \<Rightarrow> e = TooBig \<and> limit \<le> n | Inr _ \<Rightarrow> True)"
proof (induction sp arbitrary: ixs)
  case (Cons s sp)
  obtain op valid where s: "s = (op, valid)" by (cases s)
  obtain ix ixt where ixs: "ixs = ix # ixt" using Cons.prems(2) s by (cases ixs) (auto simp: allValid_def)
  have "(op, valid) \<in> set specs" "valid (contentOf (ix_keyForRow op) rs) ix" "allValid sp rs ixt"
    using Cons.prems s ixs by (auto simp: allValid_def)
  then show ?case using reserve_law [of op valid "contentOf (ix_keyForRow op) rs" ix n] Cons.IH [of ixt] Cons.prems s ixs
    by (auto simp: allValid_def split: sum.splits prod.splits)
qed (auto simp: allValid_def)

lemma table_reserve_correct:
  assumes "tableValid specs t" and "table_reserve (map fst specs) n t = (r, t')"
  shows "tableValid specs t'" and "rows t' = rows t" and "case r of Inl e \<Rightarrow> e = TooBig \<and> limit \<le> n | Inr _ \<Rightarrow> True"
  using assms Impl_reserve_correct [of specs "rows t" "indexes t" n]
  by (auto simp: tableValid_def table_reserve_def split: prod.splits)
end

section \<open>Erasing many rows\<close>

text \<open>
  The rows after a sequence of erasures, and the loop that finds where a row is by then. A row moves only
  when it is the last one, to the place of the row that is erased then.
\<close>

definition afterErasures :: "nat list \<Rightarrow> 'a list \<Rightarrow> 'a list" where
  "afterErasures er xs = fold swapRemove er xs"

definition inBounds :: "nat \<Rightarrow> nat list \<Rightarrow> bool" where
  "inBounds n er \<longleftrightarrow> length er \<le> n \<and> (\<forall>j < length er. er ! j < n - j)"

lemma length_swapRemove: "length (swapRemove pos xs) = length xs - 1"
  by (simp add: swapRemove_def)

lemma length_afterErasures: "length (afterErasures er xs) = length xs - length er"
  unfolding afterErasures_def by (induction er arbitrary: xs) (simp_all add: length_swapRemove)

lemma swapRemove_nth:
  "q < length xs - 1 \<Longrightarrow> swapRemove pos xs ! q = (if q = pos then last xs else xs ! q)"
  by (simp add: swapRemove_def nth_butlast nth_list_update)

lemma swapRemove_map: "xs \<noteq> [] \<Longrightarrow> swapRemove pos (map f xs) = map f (swapRemove pos xs)"
  by (simp add: swapRemove_def map_butlast map_update last_map)

lemma swapRemove_distinct:
  assumes "distinct xs" and "pos < length xs"
  shows "distinct (swapRemove pos xs)" and "set (swapRemove pos xs) = set xs - {xs ! pos}"
proof -
  have m: "mset xs = mset (xs ! pos # swapRemove pos xs)"
    using mset_swapRemove [OF assms(2)] assms(2) by (simp add: nth_mem_mset)
  then have "distinct (xs ! pos # swapRemove pos xs)" using assms(1) mset_eq_imp_distinct_iff by blast
  moreover have "set xs = set (xs ! pos # swapRemove pos xs)" using m by (rule mset_eq_setD)
  ultimately show "distinct (swapRemove pos xs)" "set (swapRemove pos xs) = set xs - {xs ! pos}" by auto
qed

lemma afterErasures_snoc: "afterErasures (er @ [pos]) xs = swapRemove pos (afterErasures er xs)"
  by (simp add: afterErasures_def)

lemma take_inBounds: "inBounds n er \<Longrightarrow> inBounds n (take j er)"
  by (auto simp: inBounds_def)

lemma afterErasures_distinct:
  "distinct xs \<Longrightarrow> inBounds (length xs) er \<Longrightarrow> distinct (afterErasures er xs) \<and> set (afterErasures er xs) \<subseteq> set xs"
proof (induction er rule: rev_induct)
  case (snoc pos er)
  have ib: "inBounds (length xs) er" "pos < length xs - length er"
    using snoc.prems(2) by (auto simp: inBounds_def nth_append split: if_splits)
  then show ?case using snoc.IH [OF snoc.prems(1) ib(1)] swapRemove_distinct [of "afterErasures er xs" pos]
    by (auto simp: afterErasures_snoc length_afterErasures)
qed (simp add: afterErasures_def)

lemma afterErasures_step:
  "j < length er \<Longrightarrow> afterErasures (take (Suc j) er) xs = swapRemove (er ! j) (afterErasures (take j er) xs)"
  by (simp add: take_Suc_conv_app_nth afterErasures_snoc)

lemma step_distinct:
  assumes "distinct xs" and "inBounds (length xs) er" and "j < length er"
  shows "set (afterErasures (take (Suc j) er) xs) =
    set (afterErasures (take j er) xs) - {afterErasures (take j er) xs ! (er ! j)}"
  using assms afterErasures_distinct [OF assms(1) take_inBounds [OF assms(2), of j]]
  by (simp add: afterErasures_step swapRemove_distinct length_afterErasures inBounds_def)

lemma afterErasures_mono:
  assumes "distinct xs" and "inBounds (length xs) er" and "i \<le> j" and "j \<le> length er"
  shows "set (afterErasures (take j er) xs) \<subseteq> set (afterErasures (take i er) xs)"
  using assms(3,4)
proof (induction j rule: dec_induct)
  case (step m)
  then show ?case using step_distinct [OF assms(1,2), of m] by auto
qed simp

text \<open>A row stays where it is as long as the table is long enough.\<close>

lemma row_stays:
  assumes "distinct xs" and "inBounds (length xs) er" and "i \<le> j" and "j \<le> length er"
    and "q < length xs - j" and "afterErasures (take i er) xs ! q = p" and "p \<in> set (afterErasures (take j er) xs)"
  shows "afterErasures (take j er) xs ! q = p"
  using assms(3-7)
proof (induction j rule: dec_induct)
  case (step m)
  let ?m = "afterErasures (take m er) xs"
  have pm: "p \<in> set ?m" using step afterErasures_mono [OF assms(1,2), of m "Suc m"] by auto
  have q: "?m ! q = p" using step pm by simp
  then have "er ! m \<noteq> q" using step.prems step_distinct [OF assms(1,2), of m] by auto
  moreover have "q < length ?m - 1" using step.prems by (simp add: length_afterErasures)
  ultimately show ?case using q step.prems by (simp add: afterErasures_step swapRemove_nth)
qed simp

lemma relocate_correct:
  assumes "inBounds n er" and "j \<le> length er" and "q < n - j" and "q < left"
    and "afterErasures (take j er) [0..<n] ! q = p" and "p \<in> set (afterErasures er [0..<n])"
  shows "\<exists>r. relocate n er left q = Some r \<and> r < n - length er \<and> afterErasures er [0..<n] ! r = p"
  using assms(2-5)
proof (induction left arbitrary: j q)
  case (Suc left)
  let ?xs = "[0..<n]"
  have d: "distinct ?xs" "inBounds (length ?xs) er" using assms(1) by simp_all
  show ?case
  proof (cases "q < n - length er")
    case True
    then have "afterErasures er ?xs ! q = p"
      using row_stays [OF d, of j "length er" q p] Suc.prems assms(6) by simp
    then show ?thesis using True by simp
  next
    case False
    define i where "i = n - q - 1"
    have i: "j \<le> i" "i < length er" "q = n - i - 1" using False Suc.prems by (auto simp: i_def)
    let ?i = "afterErasures (take i er) ?xs"
    have p: "p \<in> set (afterErasures (take (Suc i) er) ?xs)" "p \<in> set ?i"
      using assms(6) afterErasures_mono [OF d, of "Suc i" "length er"] afterErasures_mono [OF d, of i "length er"] i by auto
    have len: "length ?i = n - i" using i(2) by (simp add: length_afterErasures)
    have qi: "q < n - i" using i assms(1) by (auto simp: inBounds_def)
    then have "?i ! q = p" using row_stays [OF d i(1), of q p] i(2) Suc.prems p by simp
    then have lastp: "last ?i = p" using len i(3) qi by (subst last_conv_nth) auto
    have "er ! i \<noteq> q" using p(1) step_distinct [OF d i(2)] \<open>?i ! q = p\<close> by auto
    moreover have "er ! i < n - i" using assms(1) i(2) by (simp add: inBounds_def)
    ultimately have e: "er ! i < q" using i(3) by linarith
    then have "afterErasures (take (Suc i) er) ?xs ! (er ! i) = p"
      using i len lastp by (simp add: afterErasures_step swapRemove_nth)
    then have "\<exists>r. relocate n er left (er ! i) = Some r \<and> r < n - length er \<and> afterErasures er ?xs ! r = p"
      using i e Suc.prems by (intro Suc.IH [of "Suc i"]) auto
    then show ?thesis using False Suc.prems by (simp add: i_def)
  qed
qed simp

lemma erasures_correct:
  assumes "inBounds n er" and "distinct collection" and "set collection \<subseteq> set (afterErasures er [0..<n])"
  shows "\<exists>er'. erasures n er collection = Some er' \<and> length er' = length er + length collection \<and> inBounds n er' \<and>
    set (afterErasures er' [0..<n]) = set (afterErasures er [0..<n]) - set collection"
  using assms
proof (induction collection arbitrary: er)
  case (Cons pos collection)
  have d: "distinct [0..<n]" "inBounds (length [0..<n]) er" using Cons.prems(1) by simp_all
  note ad = afterErasures_distinct [OF d]
  have pos: "pos \<in> set (afterErasures er [0..<n])" "pos < n" using Cons.prems(3) ad by auto
  obtain r where r: "relocate n er (Suc pos) pos = Some r" "r < n - length er" "afterErasures er [0..<n] ! r = pos"
    using relocate_correct [OF Cons.prems(1), of 0 pos "Suc pos" pos] pos by (auto simp: afterErasures_def)
  have ib: "inBounds n (er @ [r])" using Cons.prems(1) r(2) by (auto simp: inBounds_def nth_append less_Suc_eq)
  have rest: "set (afterErasures (er @ [r]) [0..<n]) = set (afterErasures er [0..<n]) - {pos}"
    using r ad swapRemove_distinct(2) [of "afterErasures er [0..<n]" r] by (simp add: afterErasures_snoc length_afterErasures)
  then have "set collection \<subseteq> set (afterErasures (er @ [r]) [0..<n])" using Cons.prems(2,3) by auto
  from Cons.IH [OF ib _ this] show ?case using Cons.prems(2) r(1) rest by auto
qed simp

lemma filter_upt_nths: "nths [0..<n] A = filter (\<lambda>i. i \<in> A) [0..<n]"
  by (induction n) (simp_all add: nths_append nths_singleton)

lemma afterErasures_map:
  "inBounds (length xs) er \<Longrightarrow> afterErasures er (map f xs) = map f (afterErasures er xs)"
proof (induction er rule: rev_induct)
  case (snoc pos er)
  have ib: "inBounds (length xs) er" "pos < length xs - length er"
    using snoc.prems by (auto simp: inBounds_def nth_append split: if_splits)
  then have "afterErasures er xs \<noteq> []" using length_afterErasures [of er xs] by (metis less_nat_zero_code list.size(3))
  then show ?case using snoc.IH [OF ib(1)] by (simp add: afterErasures_snoc swapRemove_map)
qed (simp add: afterErasures_def)

text \<open>What remains after the erasures is every row whose number was not in the collection.\<close>

lemma afterErasures_rows:
  assumes "inBounds (length rs) er" and "set (afterErasures er [0..<length rs]) = {..<length rs} - A"
  shows "mset (afterErasures er rs) = mset (nths rs (- A))"
proof -
  have rs: "map ((!) rs) [0..<length rs] = rs" by (rule map_nth)
  let ?a = "afterErasures er [0..<length rs]"
  have "distinct ?a" using afterErasures_distinct [of "[0..<length rs]" er] assms(1) by simp
  moreover have "set ?a = set (nths [0..<length rs] (- A))" using assms(2) by (auto simp: filter_upt_nths)
  ultimately have "mset ?a = mset (nths [0..<length rs] (- A))"
    using set_eq_iff_mset_eq_distinct [of ?a "nths [0..<length rs] (- A)"] by (simp add: filter_upt_nths)
  moreover have "afterErasures er rs = map ((!) rs) ?a"
    using afterErasures_map [of "[0..<length rs]" er "(!) rs"] assms(1) rs by simp
  moreover have "nths rs (- A) = map ((!) rs) (nths [0..<length rs] (- A))"
    by (subst rs [symmetric]) (simp only: nths_map)
  ultimately show ?thesis by (simp only: mset_map)
qed

context table_indexes
begin

lemma eraseEach_correct:
  assumes "tableValid specs t" and "inBounds (length (rows t)) er"
  shows "\<exists>t'. eraseEach (map fst specs) er logged t = Inr (t', logged) \<and> tableValid specs t' \<and>
    rows t' = afterErasures er (rows t)"
  using assms
proof (induction er arbitrary: t logged)
  case (Cons pos er)
  have pos: "pos < length (rows t)" using Cons.prems(2) by (auto simp: inBounds_def)
  from table_eraseImpl_correct [OF Cons.prems(1) pos] obtain t' where t':
    "table_eraseImpl (map fst specs) pos t = Inr (t', False)" "tableValid specs t'" "rows t' = swapRemove pos (rows t)" .
  have "inBounds (length (rows t')) er"
    using Cons.prems(2) t'(3) by (auto simp: inBounds_def length_swapRemove)
  from Cons.IH [OF t'(2) this] show ?case using t' by (simp add: afterErasures_def)
qed (simp add: afterErasures_def)

lemma table_eraseAllImpl_correct:
  assumes "tableValid specs t" and "distinct collection" and "set collection \<subseteq> {..<length (rows t)}"
  shows "\<exists>t'. table_eraseAllImpl (map fst specs) collection t = Inr (length collection, t', False) \<and>
    tableValid specs t' \<and> mset (rows t') = mset (nths (rows t) (- set collection))"
proof -
  let ?n = "length (rows t)"
  have "afterErasures [] [0..<?n] = [0..<?n]" by (simp add: afterErasures_def)
  then obtain er where er: "erasures ?n [] collection = Some er" "length er = length collection" "inBounds ?n er"
    "set (afterErasures er [0..<?n]) = {..<?n} - set collection"
    using erasures_correct [of ?n "[]" collection] assms(2,3) by (auto simp: inBounds_def atLeast0LessThan)
  from eraseEach_correct [OF assms(1) er(3), of False] obtain t' where
    "eraseEach (map fst specs) er False t = Inr (t', False)" "tableValid specs t'" "rows t' = afterErasures er (rows t)"
    by blast
  then show ?thesis using er afterErasures_rows [OF er(3,4)] by (simp add: table_eraseAllImpl_def)
qed

lemma eraseWhere_correct:
  assumes "tableValid specs t"
  shows "\<exists>t'. eraseWhere (map fst specs) predicate i cnt logged t =
      Inr (cnt + length (filter predicate (drop i (rows t))), t', logged) \<and> tableValid specs t' \<and>
    mset (rows t') = mset (take i (rows t)) + mset (filter (\<lambda>row. \<not> predicate row) (drop i (rows t)))"
  using assms
proof (induction "length (rows t) - i" arbitrary: i cnt t rule: less_induct)
  case less
  show ?case
  proof (cases "i < length (rows t)")
    case False
    then show ?thesis using less.prems by (subst eraseWhere.simps) simp
  next
    case True
    let ?rs = "rows t"
    have drop: "drop i ?rs = ?rs ! i # drop (Suc i) ?rs" using True by (simp add: Cons_nth_drop_Suc)
    show ?thesis
    proof (cases "predicate (?rs ! i)")
      case False
      have "\<exists>t'. eraseWhere (map fst specs) predicate (Suc i) cnt logged t =
          Inr (cnt + length (filter predicate (drop (Suc i) ?rs)), t', logged) \<and> tableValid specs t' \<and>
        mset (rows t') = mset (take (Suc i) ?rs) + mset (filter (\<lambda>row. \<not> predicate row) (drop (Suc i) ?rs))"
        using True less.prems by (intro less.hyps) auto
      then show ?thesis using True False drop
        by (subst eraseWhere.simps) (simp add: take_Suc_conv_app_nth)
    next
      case pred: True
      from table_eraseImpl_correct [OF less.prems True] obtain t' where t':
        "table_eraseImpl (map fst specs) i t = Inr (t', False)" "tableValid specs t'" "rows t' = swapRemove i ?rs" .
      have split: "take i (rows t') = take i ?rs"
        using True t'(3) by (simp add: swapRemove_def take_butlast)
      have "mset ?rs = mset (take i ?rs) + add_mset (?rs ! i) (mset (drop (Suc i) ?rs))"
        by (metis append_take_drop_id drop mset.simps(2) mset_append)
      moreover have "mset (rows t') = mset (take i ?rs) + mset (drop i (rows t'))"
        by (metis append_take_drop_id mset_append split)
      ultimately have rest: "mset (drop i (rows t')) = mset (drop (Suc i) ?rs)"
        using mset_swapRemove [OF True] t'(3) by simp
      have flt: "mset (filter P (drop i (rows t'))) = mset (filter P (drop (Suc i) ?rs))" for P
        using rest by (simp add: mset_filter)
      then have len: "length (filter P (drop i (rows t'))) = length (filter P (drop (Suc i) ?rs))" for P
        by (metis size_mset)
      have "length (rows t') - i < length ?rs - i" using True t'(3) by (simp add: length_swapRemove)
      from less.hyps [OF this t'(2), of "cnt + 1"] show ?thesis using True pred t'(1) drop split flt len
        by (subst eraseWhere.simps) simp
    qed
  qed
qed

lemma table_eraseAll_correct:
  assumes "tableValid specs t"
  shows "\<exists>t'. table_eraseAll (map fst specs) predicate t = Inr (length (filter predicate (rows t)), t', False) \<and>
    tableValid specs t' \<and> mset (rows t') = mset (filter (\<lambda>row. \<not> predicate row) (rows t))"
  using eraseWhere_correct [OF assms, of predicate 0 0 False] by (simp add: table_eraseAll_def)
end

section \<open>Finding or creating a row, and the other operations\<close>

context table_indexes
begin

lemma readyFor_nth:
  "readyFor skip i rs rs' sp ixs \<longleftrightarrow> length sp = length ixs \<and>
     (\<forall>j < length sp. snd (sp ! j) (contentOf (ix_keyForRow (fst (sp ! j))) (if skip = Some (i + j) then rs' else rs)) (ixs ! j))"
proof (induction sp arbitrary: i ixs)
  case (Cons s sp)
  note IH = Cons.IH
  show ?case
  proof (cases ixs)
    case (Cons ix ixt)
    then show ?thesis using IH [of "i + 1" ixt] by (cases s) (simp add: All_less_Suc2 del: All_less_Suc, blast)
  qed simp
qed simp

lemma findOrCreate_undo:
  assumes "index < length specs" and "keysDistinct specs rs" and "readyFor (Some index) 0 rs (rs @ [row]) specs ixs"
    and "ix_keyForRow (fst (specs ! index)) row \<notin> ix_keyForRow (fst (specs ! index)) ` set rs"
  shows "\<exists>ix'. ix_erase (fst (specs ! index)) rs (length rs) (ix_keyForRow (fst (specs ! index)) row) (ixs ! index) =
      Inr (ix', False) \<and> allValid specs rs (ixs[index := ix'])"
proof -
  obtain op valid where s: "specs ! index = (op, valid)" by (cases "specs ! index")
  then have op: "(op, valid) \<in> set specs" using assms(1) by (metis nth_mem)
  have v: "valid (contentOf (ix_keyForRow op) (rs @ [row])) (ixs ! index)" and len: "length specs = length ixs"
    using assms(1,3) s by (auto simp: readyFor_nth)
  have d: "distinct (map (ix_keyForRow op) rs)" using assms(2) op by (auto simp: keysDistinct_def)
  from undo_one [OF op d v [unfolded contentOf_append], of "[]"] obtain ix' where
    ix': "ix_erase op rs (length rs) (ix_keyForRow op row) (ixs ! index) = Inr (ix', False)"
    "valid (contentOf (ix_keyForRow op) rs) ix'" using assms(4) s by auto
  have "readyFor None 0 rs (rs @ [row]) specs (ixs[index := ix'])"
    using assms(1,3) ix'(2) s len by (auto simp: readyFor_nth nth_list_update)
  then show ?thesis using ix'(1) s by (simp add: readyFor_None)
qed

lemma readyFor_first:
  assumes "tableValid specs t" and "index < length specs" and "specs ! index = (op, valid)"
    and "valid (contentOf (ix_keyForRow op) (rows t @ [row])) ix"
  shows "readyFor (Some index) 0 (rows t) (rows t @ [row]) specs ((indexes t)[index := ix])"
proof -
  have "readyFor None 0 (rows t) (rows t @ [row]) specs (indexes t)"
    using assms(1) by (simp add: readyFor_None tableValid_def)
  then show ?thesis using assms(2-4) by (auto simp: readyFor_nth nth_list_update)
qed

lemma allValid_update:
  assumes "allValid specs rs ixs" and "index < length specs" and "specs ! index = (op, valid)"
    and "valid (contentOf (ix_keyForRow op) rs) ix"
  shows "allValid specs rs (ixs[index := ix])"
proof -
  have "readyFor None 0 rs rs specs ixs" using assms(1) by (simp add: readyFor_None)
  then have "readyFor None 0 rs rs specs (ixs[index := ix])" using assms(2-4) by (auto simp: readyFor_nth nth_list_update)
  then show ?thesis by (simp add: readyFor_None)
qed

text \<open>The second half of \<open>findOrCreate\<close>, when one index has noted the new row.\<close>

lemma findOrCreate_rest:
  assumes "tableValid specs t" and "index < length specs" and "specs ! index = (op, valid)"
    and "ix_keyForRow op row = key"
    and "ix_insert op (rows t) (length (rows t)) key (indexes t ! index) = Inr (None, ix)"
    and "key \<notin> ix_keyForRow op ` set (rows t)"
    and "valid ((contentOf (ix_keyForRow op) (rows t))(length (rows t) \<mapsto> key)) ix"
  obtains (FailedNew) e t' where "table_findOrCreate (map fst specs) index key (Some row) t = (Inl e, t')"
      "tableValid specs t'" "rows t' = rows t"
      "e = TooBig \<and> limit \<le> length (rows t) + 1 \<or> e = DuplicateRow \<and> 1 < length specs"
  | (CreatedNew) t' where "table_findOrCreate (map fst specs) index key (Some row) t = (Inr (length (rows t)), t')"
      "tableValid specs t'" "rows t' = rows t @ [row]"
proof -
  note s = assms(3) and k = assms(4)
  have op: "map fst specs ! index = op" using s assms(2) by simp
  have v: "keysDistinct specs (rows t)" using assms(1) by (simp add: tableValid_def)
  let ?ixs = "(indexes t)[index := ix]"
  have ready: "readyFor (Some index) 0 (rows t) (rows t @ [row]) specs ?ixs"
    using assms(7) k by (intro readyFor_first [OF assms(1,2) s]) (simp add: contentOf_append)
  obtain q ixs' where q: "Impl_insert (map fst specs) (rows t @ [row]) (length (rows t)) row (Some index) 0 ?ixs = (q, ixs')"
    by (metis surj_pair)
  note c = Impl_insert_cases [OF order.refl ready v, of "[row]", unfolded q, simplified]
  have undo: "\<exists>ix'. ix_erase op (rows t) (length (rows t)) key (ixs' ! index) = Inr (ix', False) \<and>
      allValid specs (rows t) (ixs'[index := ix'])"
    if "readyFor (Some index) 0 (rows t) (rows t @ [row]) specs ixs'"
    using findOrCreate_undo [OF assms(2) v that] assms(6) s k by simp
  have start: "table_findOrCreate (map fst specs) index key (Some row) t =
      (case (q, ixs') of
         (Inr None, ixs') \<Rightarrow> (Inr (length (rows t)), \<lparr>rows = rows t @ [row], indexes = ixs'\<rparr>)
       | (Inr (Some _), ixs') \<Rightarrow>
           (case ix_erase op (rows t) (length (rows t)) key (ixs' ! index) of
              Inl e \<Rightarrow> (Inl e, \<lparr>rows = rows t, indexes = ixs'\<rparr>)
            | Inr (ix', l) \<Rightarrow> (Inl DuplicateRow, \<lparr>rows = rows t, indexes = ixs'[index := ix']\<rparr>))
       | (Inl e, ixs') \<Rightarrow>
           (case ix_erase op (rows t) (length (rows t)) key (ixs' ! index) of
              Inl e' \<Rightarrow> (Inl e', \<lparr>rows = rows t, indexes = ixs'\<rparr>)
            | Inr (ix', l) \<Rightarrow> (Inl e, \<lparr>rows = rows t, indexes = ixs'[index := ix']\<rparr>)))"
    using assms(5) op q by (simp add: table_findOrCreate_def Let_def)
  show thesis
  proof (cases q)
    case (Inl e)
    obtain ix' where "ix_erase op (rows t) (length (rows t)) key (ixs' ! index) = Inr (ix', False)"
      "allValid specs (rows t) (ixs'[index := ix'])" using undo c Inl by auto
    then show thesis using start Inl c v
      by (intro FailedNew [of e "\<lparr>rows = rows t, indexes = ixs'[index := ix']\<rparr>"]) (simp_all add: tableValid_def)
  next
    case (Inr o')
    show thesis
    proof (cases o')
      case None
      have "ix_keyForRow (fst (specs ! j)) row \<notin> ix_keyForRow (fst (specs ! j)) ` set (rows t)"
        if "j < length specs" for j
        using c Inr None assms(6) k s that by (cases "j = index") auto
      then have "keysDistinct specs (rows t @ [row])" using v by (simp add: keysDistinct_append)
      then show thesis using start Inr None c assms(6) k s
        by (intro CreatedNew [of "\<lparr>rows = rows t @ [row], indexes = ixs'\<rparr>"]) (simp_all add: tableValid_def)
    next
      case (Some p)
      obtain ix' where "ix_erase op (rows t) (length (rows t)) key (ixs' ! index) = Inr (ix', False)"
        "allValid specs (rows t) (ixs'[index := ix'])" using undo c Inr Some by auto
      moreover obtain j where "j < length specs" "j \<noteq> index" using c Inr Some by auto
      then have "1 < length specs" using assms(2) by linarith
      ultimately show thesis using start Inr Some v
        by (intro FailedNew [of DuplicateRow "\<lparr>rows = rows t, indexes = ixs'[index := ix']\<rparr>"])
          (simp_all add: tableValid_def)
    qed
  qed
qed

lemma table_findOrCreate_cases:
  assumes "tableValid specs t" and "index < length specs"
    and "\<forall>row. created = Some row \<longrightarrow> ix_keyForRow (fst (specs ! index)) row = key"
  obtains (Failed) e t' where "table_findOrCreate (map fst specs) index key created t = (Inl e, t')"
      "tableValid specs t'" "rows t' = rows t"
      "e = CreateFailed \<and> created = None \<and> key \<notin> ix_keyForRow (fst (specs ! index)) ` set (rows t) \<or>
       e = TooBig \<and> limit \<le> length (rows t) + 1 \<or>
       e = DuplicateRow \<and> 1 < length specs"
  | (Found) p t' where "table_findOrCreate (map fst specs) index key created t = (Inr p, t')" "tableValid specs t'"
      "rows t' = rows t" "p < length (rows t)" "ix_keyForRow (fst (specs ! index)) (rows t ! p) = key"
  | (Created) row t' where "table_findOrCreate (map fst specs) index key created t = (Inr (length (rows t)), t')"
      "created = Some row" "tableValid specs t'" "rows t' = rows t @ [row]"
      "key \<notin> ix_keyForRow (fst (specs ! index)) ` set (rows t)"
proof -
  obtain op valid where s: "specs ! index = (op, valid)" "(op, valid) \<in> set specs"
    "valid (contentOf (ix_keyForRow op) (rows t)) (indexes t ! index)" "distinct (map (ix_keyForRow op) (rows t))"
    "index < length (indexes t)"
    using nth_spec [OF assms(1,2)] by blast
  have op: "map fst specs ! index = op" using s(1) assms(2) by simp
  have v: "allValid specs (rows t) (indexes t)" "keysDistinct specs (rows t)" using assms(1) by (simp_all add: tableValid_def)
  note one = insert_one [OF s(2-4), of "[]" key, simplified]
  show thesis
  proof (cases "ix_insert op (rows t) (length (rows t)) key (indexes t ! index)")
    case (Inl e)
    then show thesis using one op assms(1) by (intro Failed [of e t]) (simp_all add: table_findOrCreate_def)
  next
    case (Inr r)
    then obtain r' ix where r: "ix_insert op (rows t) (length (rows t)) key (indexes t ! index) = Inr (r', ix)"
      by (cases r) simp
    show thesis
    proof (cases r')
      case (Some p)
      then have "tableValid specs (t\<lparr>indexes := (indexes t)[index := ix]\<rparr>)"
        using one r allValid_update [OF v(1) assms(2) s(1)] v(2) by (simp add: tableValid_def)
      then show thesis using one r Some op s(1)
        by (intro Found [of p "t\<lparr>indexes := (indexes t)[index := ix]\<rparr>"]) (simp_all add: table_findOrCreate_def)
    next
      case None
      have new: "key \<notin> ix_keyForRow op ` set (rows t)"
        "valid ((contentOf (ix_keyForRow op) (rows t))(length (rows t) \<mapsto> key)) ix" using one r None by simp_all
      show thesis
      proof (cases created)
        case None
        obtain ix' where ix': "ix_erase op (rows t) (length (rows t)) key ix = Inr (ix', False)"
          "valid (contentOf (ix_keyForRow op) (rows t)) ix'"
          using undo_one [OF s(2,4) new(2,1), of "[]"] by auto
        have "allValid specs (rows t) (((indexes t)[index := ix])[index := ix'])"
          using allValid_update [OF v(1) assms(2) s(1) ix'(2)] by simp
        then show thesis using r \<open>r' = None\<close> None op s(1,5) ix' v(2) new(1)
          by (intro Failed [of CreateFailed "\<lparr>rows = rows t, indexes = ((indexes t)[index := ix])[index := ix']\<rparr>"])
            (simp_all add: table_findOrCreate_def tableValid_def)
      next
        case (Some row)
        have k: "ix_keyForRow op row = key" using assms(3) Some s(1) by simp
        show thesis
        proof (cases rule: findOrCreate_rest [OF assms(1,2) s(1) k r [unfolded \<open>r' = None\<close>] new])
          case (1 e t')
          then show thesis using Some by (intro Failed [of e t']) auto
        next
          case (2 t')
          then show thesis using Some new(1) s(1) by (intro Created [of t' row]) simp_all
        qed
      qed
    qed
  qed
qed

lemma insertRows_correct:
  assumes "tableValid specs t"
  shows "case insertRows (map fst specs) rs t of
      (Inl e, t') \<Rightarrow> tableValid specs t' \<and> (\<exists>n < length rs. rows t' = rows t @ take n rs) \<and>
        (e = DuplicateRow \<and> \<not> keysDistinct specs (rows t @ rs) \<or> e = TooBig \<and> limit \<le> length (rows t'))
    | (Inr _, t') \<Rightarrow> tableValid specs t' \<and> rows t' = rows t @ rs"
  using assms
proof (induction rs arbitrary: t)
  case (Cons row rs)
  from Cons.prems show ?case
  proof (cases rule: table_insert_cases [where row = row])
    case (Failed e ixs)
    have "\<not> keysDistinct specs (rows t @ row # rs)"
      if "\<exists>(op, valid) \<in> set specs. ix_keyForRow op row \<in> ix_keyForRow op ` set (rows t)"
      using that by (fastforce simp: keysDistinct_def)
    then show ?thesis using Failed by (auto intro: exI [of _ 0])
  next
    case (Inserted t')
    have "(case insertRows (map fst specs) rs t' of
        (Inl e, t'') \<Rightarrow> tableValid specs t'' \<and> (\<exists>n < length rs. rows t'' = rows t' @ take n rs) \<and>
          (e = DuplicateRow \<and> \<not> keysDistinct specs (rows t' @ rs) \<or> e = TooBig \<and> limit \<le> length (rows t''))
      | (Inr _, t'') \<Rightarrow> tableValid specs t'' \<and> rows t'' = rows t' @ rs)" by (rule Cons.IH [OF Inserted(2)])
    then show ?thesis using Inserted(1,3)
      by (auto split: prod.splits sum.splits intro: exI [of _ "Suc n" for n])
  qed
qed simp

lemma table_release_correct:
  assumes "tableValid specs t" and "pos < length (rows t)"
  shows "\<exists>t'. table_release (map fst specs) pos t = Inr (rows t ! pos, t', False) \<and> tableValid specs t' \<and>
    rows t' = swapRemove pos (rows t)"
proof -
  obtain t' where "table_eraseImpl (map fst specs) pos t = Inr (t', False)" "tableValid specs t'"
    "rows t' = swapRemove pos (rows t)" using table_eraseImpl_correct [OF assms] .
  then show ?thesis
    by (auto simp: table_release_def table_eraseImpl_def Let_def split: sum.splits prod.splits if_splits)
qed

lemma tableValid_new:
  "\<forall>(op, valid) \<in> set specs. valid Map.empty ix \<Longrightarrow> tableValid specs \<lparr>rows = [], indexes = replicate (length specs) ix\<rparr>"
  by (auto simp: tableValid_def allValid_def keysDistinct_def contentOf_Nil list_all2_conv_all_nth split_beta)
end

end
