(* ===== verification/Hash_Index.thy ===== *)
theory Hash_Index
  imports Hashing Table
begin

text \<open>
  The hash index of \<open>zc/core/table.h\<close> and \<open>zc/core/table.cc\<close>: linear probing over an array of buckets,
  with erased buckets left in place until the next rehash.

  The callbacks of the index are two functions, the key of a row and the hash code of a key; a row
  matches a key if its key is equal to it, as in the callbacks of \<open>zc/core/map.h\<close>. The loops of the
  code have no end condition but the bucket they look for. In the model they look at every bucket
  once at most: \<open>None\<close>, or the error \<open>Endless\<close>, means that the loop of the code does not return. The
  position in a bucket and the sizes are natural numbers; \<open>rehash\<close> throws before they could exceed
  the 30 bits that it allows.
\<close>

section \<open>Buckets\<close>

record HashBucket =
  hash :: uint32
  slot :: nat

definition emptyBucket :: HashBucket where
  "emptyBucket = \<lparr>hash = 0, slot = 0\<rparr>"

definition HashBucket_make :: "uint32 \<Rightarrow> nat \<Rightarrow> HashBucket" where
  "HashBucket_make h pos = \<lparr>hash = h, slot = pos + 2\<rparr>"

definition isEmpty :: "HashBucket \<Rightarrow> bool" where "isEmpty b \<longleftrightarrow> slot b = 0"
definition isErased :: "HashBucket \<Rightarrow> bool" where "isErased b \<longleftrightarrow> slot b = 1"
definition isOccupied :: "HashBucket \<Rightarrow> bool" where "isOccupied b \<longleftrightarrow> slot b \<ge> 2"
definition isPos :: "nat \<Rightarrow> HashBucket \<Rightarrow> bool" where "isPos pos b \<longleftrightarrow> pos + 2 = slot b"
definition getPos :: "HashBucket \<Rightarrow> nat" where "getPos b = slot b - 2"
definition setErased :: "HashBucket \<Rightarrow> HashBucket" where "setErased b = b\<lparr>slot := 1\<rparr>"
definition setPos :: "nat \<Rightarrow> HashBucket \<Rightarrow> HashBucket" where "setPos pos b = b\<lparr>slot := pos + 2\<rparr>"

definition probeHash :: "nat \<Rightarrow> nat \<Rightarrow> nat" where
  "probeHash n i = (if i + 1 = n then 0 else i + 1)"

definition chooseBucket :: "uint32 \<Rightarrow> nat \<Rightarrow> nat" where
  "chooseBucket h n = unat (h AND (word_of_nat n - 1))"

fun lg :: "nat \<Rightarrow> nat" where
  "lg v = (if v < 2 then 0 else Suc (lg (v div 2)))"

declare lg.simps [simp del]

definition chooseHashTableSize :: "nat \<Rightarrow> nat" where
  "chooseHashTableSize n = (if n = 0 then 0 else push_bit (lg n + 1) 1)"

text \<open>The probing loop: the first bucket, from \<open>i\<close> on, at which the loop stops.\<close>

fun probe :: "(HashBucket \<Rightarrow> bool) \<Rightarrow> HashBucket list \<Rightarrow> nat \<Rightarrow> nat \<Rightarrow> nat option" where
  "probe stop bs i 0 = None"
| "probe stop bs i (Suc left) =
     (if stop (bs ! i) then Some i else probe stop bs (probeHash (length bs) i) left)"

section \<open>The index\<close>

record HashIndex =
  erasedCount :: nat
  buckets :: "HashBucket list"

definition HashIndex_new :: HashIndex where
  "HashIndex_new = \<lparr>erasedCount = 0, buckets = []\<rparr>"

fun rehashBuckets :: "HashBucket list \<Rightarrow> HashBucket list \<Rightarrow> HashBucket list option" where
  "rehashBuckets [] new = Some new"
| "rehashBuckets (b # olds) new =
     (if isOccupied b then
        (case probe isEmpty new (unat (hash b) mod length new) (length new) of
           None \<Rightarrow> None
         | Some i \<Rightarrow> rehashBuckets olds (new[i := b]))
      else rehashBuckets olds new)"

definition rehash :: "HashBucket list \<Rightarrow> nat \<Rightarrow> HashBucket list outcome" where
  "rehash oldBuckets targetSize =
     (if \<not> targetSize < 2 ^ 30 then Inl TooBig
      else let n = chooseHashTableSize targetSize;
               n = (if n < length oldBuckets then length oldBuckets else n)
           in case rehashBuckets oldBuckets (replicate n emptyBucket) of
                None \<Rightarrow> Inl Endless
              | Some new \<Rightarrow> Inr new)"

definition index_rehash :: "nat \<Rightarrow> HashIndex \<Rightarrow> HashIndex outcome" where
  "index_rehash targetSize ix =
     (case rehash (buckets ix) targetSize of
        Inl e \<Rightarrow> Inl e
      | Inr bs \<Rightarrow> Inr \<lparr>erasedCount = 0, buckets = bs\<rparr>)"

definition index_reserve :: "nat \<Rightarrow> HashIndex \<Rightarrow> HashIndex outcome" where
  "index_reserve n ix = (if length (buckets ix) < n * 2 then index_rehash n ix else Inr ix)"

definition index_clear :: "HashIndex \<Rightarrow> HashIndex" where
  "index_clear ix = \<lparr>erasedCount = 0, buckets = map (\<lambda>b. emptyBucket) (buckets ix)\<rparr>"

text \<open>What the insertion loop ends with: a duplicate, or the bucket to fill and whether it was erased.\<close>

datatype insert_end = Duplicate nat | Fill nat bool

fun insertLoop ::
    "(HashBucket \<Rightarrow> bool) \<Rightarrow> HashBucket list \<Rightarrow> nat option \<Rightarrow> nat \<Rightarrow> nat \<Rightarrow> insert_end option" where
  "insertLoop hit bs erasedSlot i 0 = None"
| "insertLoop hit bs erasedSlot i (Suc left) =
     (let b = bs ! i; next' = probeHash (length bs) i
      in if isEmpty b then Some (case erasedSlot of Some s \<Rightarrow> Fill s True | None \<Rightarrow> Fill i False)
         else if isErased b then
           insertLoop hit bs (if erasedSlot = None then Some i else erasedSlot) next' left
         else if hit b then Some (Duplicate (getPos b))
         else insertLoop hit bs erasedSlot next' left)"

definition rowMatches ::
    "('row \<Rightarrow> 'key) \<Rightarrow> 'row list \<Rightarrow> uint32 \<Rightarrow> 'key \<Rightarrow> HashBucket \<Rightarrow> bool" where
  "rowMatches keyForRow rs h key b \<longleftrightarrow> hash b = h \<and> keyForRow (rs ! getPos b) = key"

text \<open>The load factor check with which an insertion begins.\<close>

definition insert_prepare :: "'row list \<Rightarrow> HashIndex \<Rightarrow> HashIndex outcome" where
  "insert_prepare rs ix =
     (if length (buckets ix) * 2 < (length rs + 1 + erasedCount ix) * 3
      then index_rehash ((length rs + 1) * 3) ix else Inr ix)"

definition index_insert ::
    "('row \<Rightarrow> 'key) \<Rightarrow> ('key \<Rightarrow> uint32) \<Rightarrow> 'row list \<Rightarrow> nat \<Rightarrow> 'key \<Rightarrow> HashIndex \<Rightarrow>
     (nat option \<times> HashIndex) outcome" where
  "index_insert keyForRow hashCode rs pos key ix =
     (case insert_prepare rs ix of
        Inl e \<Rightarrow> Inl e
      | Inr ix \<Rightarrow>
          (let h = hashCode key; bs = buckets ix
           in case insertLoop (rowMatches keyForRow rs h key) bs None (chooseBucket h (length bs)) (length bs) of
                None \<Rightarrow> Inl Endless
              | Some (Duplicate existing) \<Rightarrow> Inr (Some existing, ix)
              | Some (Fill i wasErased) \<Rightarrow>
                  Inr (None, \<lparr>erasedCount = (if wasErased then erasedCount ix - 1 else erasedCount ix),
                              buckets = bs[i := HashBucket_make h pos]\<rparr>)))"

text \<open>\<open>erase\<close> and \<open>move\<close>; the flag says that an inconsistency was logged.\<close>

definition index_erase ::
    "('key \<Rightarrow> uint32) \<Rightarrow> nat \<Rightarrow> 'key \<Rightarrow> HashIndex \<Rightarrow> (HashIndex \<times> bool) outcome" where
  "index_erase hashCode pos key ix =
     (let bs = buckets ix
      in case probe (\<lambda>b. isPos pos b \<or> isEmpty b) bs (chooseBucket (hashCode key) (length bs)) (length bs) of
           None \<Rightarrow> Inl Endless
         | Some i \<Rightarrow>
             (if isPos pos (bs ! i)
              then Inr (\<lparr>erasedCount = erasedCount ix + 1, buckets = bs[i := setErased (bs ! i)]\<rparr>, False)
              else Inr (ix, True)))"

definition index_move ::
    "('key \<Rightarrow> uint32) \<Rightarrow> nat \<Rightarrow> nat \<Rightarrow> 'key \<Rightarrow> HashIndex \<Rightarrow> (HashIndex \<times> bool) outcome" where
  "index_move hashCode oldPos newPos key ix =
     (let bs = buckets ix
      in case probe (\<lambda>b. isPos oldPos b \<or> isEmpty b) bs (chooseBucket (hashCode key) (length bs)) (length bs) of
           None \<Rightarrow> Inl Endless
         | Some i \<Rightarrow>
             (if isPos oldPos (bs ! i)
              then Inr (ix\<lparr>buckets := bs[i := setPos newPos (bs ! i)]\<rparr>, False)
              else Inr (ix, True)))"

definition index_find ::
    "('row \<Rightarrow> 'key) \<Rightarrow> ('key \<Rightarrow> uint32) \<Rightarrow> 'row list \<Rightarrow> 'key \<Rightarrow> HashIndex \<Rightarrow> nat option outcome" where
  "index_find keyForRow hashCode rs key ix =
     (let bs = buckets ix; h = hashCode key
      in if bs = [] then Inr None
         else case probe (\<lambda>b. isEmpty b \<or> (\<not> isErased b \<and> rowMatches keyForRow rs h key b)) bs
                (chooseBucket h (length bs)) (length bs) of
                None \<Rightarrow> Inl Endless
              | Some i \<Rightarrow> Inr (if isEmpty (bs ! i) then None else Some (getPos (bs ! i))))"

lemmas bucket_defs = isEmpty_def isErased_def isOccupied_def isPos_def getPos_def setErased_def setPos_def
  HashBucket_make_def emptyBucket_def

section \<open>Probing\<close>

definition at :: "HashBucket list \<Rightarrow> nat \<Rightarrow> nat \<Rightarrow> HashBucket" where
  "at bs i m = bs ! ((i + m) mod length bs)"

lemma probeHash_mod: "i < n \<Longrightarrow> probeHash n i = (i + 1) mod n"
  by (auto simp: probeHash_def)

lemma probeHash_less: "i < n \<Longrightarrow> probeHash n i < n"
  by (simp add: probeHash_def)

lemma at_probeHash: "i < length bs \<Longrightarrow> at bs (probeHash (length bs) i) m = at bs i (Suc m)"
  by (simp add: at_def probeHash_mod mod_simps)

lemma at_0: "i < length bs \<Longrightarrow> at bs i 0 = bs ! i"
  by (simp add: at_def)

lemma probe_finds:
  assumes "i < length bs" and "m < left" and "stop (at bs i m)" and "\<forall>m' < m. \<not> stop (at bs i m')"
  shows "probe stop bs i left = Some ((i + m) mod length bs)"
  using assms
proof (induction m arbitrary: i left)
  case 0
  then show ?case by (cases left) (simp_all add: at_0)
next
  case (Suc m)
  then obtain l where l: "left = Suc l" by (cases left) simp_all
  let ?i = "probeHash (length bs) i"
  have "probe stop bs ?i l = Some ((?i + m) mod length bs)"
    using Suc.prems l by (intro Suc.IH) (auto simp: probeHash_less at_probeHash)
  moreover have "\<not> stop (bs ! i)" using Suc.prems(1,4) at_0 [of i bs] by force
  ultimately show ?case using Suc.prems(1) l by (simp add: probeHash_mod mod_simps)
qed

lemma insertLoop_duplicate:
  assumes "i < length bs" and "m < left" and "isOccupied (at bs i m)" and "hit (at bs i m)"
    and "\<forall>m' < m. \<not> isEmpty (at bs i m')"
    and "\<forall>m' < m. isOccupied (at bs i m') \<longrightarrow> \<not> hit (at bs i m')"
  shows "insertLoop hit bs e i left = Some (Duplicate (getPos (at bs i m)))"
  using assms
proof (induction m arbitrary: i left e)
  case 0
  then show ?case by (cases left) (simp_all add: at_0 Let_def bucket_defs)
next
  case (Suc m)
  then obtain l where l: "left = Suc l" by (cases left) simp_all
  let ?i = "probeHash (length bs) i"
  have "insertLoop hit bs e' ?i l = Some (Duplicate (getPos (at bs ?i m)))" for e'
    using Suc.prems l by (intro Suc.IH) (auto simp: probeHash_less at_probeHash)
  moreover have "\<not> isEmpty (bs ! i)" "isOccupied (bs ! i) \<longrightarrow> \<not> hit (bs ! i)"
    using Suc.prems(1,5,6) at_0 [of i bs] by force+
  ultimately show ?case using Suc.prems(1) l by (auto simp: Let_def at_probeHash bucket_defs)
qed

lemma insertLoop_fill_erased:
  assumes "i < length bs" and "m < left" and "isEmpty (at bs i m)"
    and "\<forall>m' < m. \<not> isEmpty (at bs i m')"
    and "\<forall>m' < m. isOccupied (at bs i m') \<longrightarrow> \<not> hit (at bs i m')"
  shows "insertLoop hit bs (Some s) i left = Some (Fill s True)"
  using assms
proof (induction m arbitrary: i left)
  case 0
  then show ?case by (cases left) (simp_all add: at_0 Let_def bucket_defs)
next
  case (Suc m)
  then obtain l where l: "left = Suc l" by (cases left) simp_all
  let ?i = "probeHash (length bs) i"
  have "insertLoop hit bs (Some s) ?i l = Some (Fill s True)"
    using Suc.prems l by (intro Suc.IH) (auto simp: probeHash_less at_probeHash)
  moreover have "\<not> isEmpty (bs ! i)" "isOccupied (bs ! i) \<longrightarrow> \<not> hit (bs ! i)"
    using Suc.prems(1,4,5) at_0 [of i bs] by force+
  ultimately show ?case using l by (auto simp: Let_def bucket_defs)
qed

text \<open>Without a hit, the loop fills the first bucket that is erased or empty.\<close>

lemma insertLoop_fill:
  assumes "i < length bs" and "m < left" and "isEmpty (at bs i m)"
    and "\<forall>m' < m. \<not> isEmpty (at bs i m')"
    and "\<forall>m' < m. isOccupied (at bs i m') \<longrightarrow> \<not> hit (at bs i m')"
  shows "\<exists>d \<le> m. insertLoop hit bs None i left = Some (Fill ((i + d) mod length bs) (d < m)) \<and>
    (d < m \<longrightarrow> isErased (at bs i d))"
  using assms
proof (induction m arbitrary: i left)
  case 0
  then show ?case by (cases left) (simp_all add: at_0 Let_def bucket_defs)
next
  case (Suc m)
  then obtain l where l: "left = Suc l" by (cases left) simp_all
  let ?i = "probeHash (length bs) i"
  have ne: "\<not> isEmpty (bs ! i)" "isOccupied (bs ! i) \<longrightarrow> \<not> hit (bs ! i)"
    using Suc.prems(1,4,5) at_0 [of i bs] by force+
  have rest: "?i < length bs" "m < l" "isEmpty (at bs ?i m)" "\<forall>m' < m. \<not> isEmpty (at bs ?i m')"
    "\<forall>m' < m. isOccupied (at bs ?i m') \<longrightarrow> \<not> hit (at bs ?i m')"
    using Suc.prems l by (auto simp: probeHash_less at_probeHash)
  show ?case
  proof (cases "isErased (bs ! i)")
    case True
    then have "insertLoop hit bs None i left = Some (Fill i True)"
      using insertLoop_fill_erased [OF rest, of i] l ne by (simp add: Let_def)
    then show ?thesis using Suc.prems(1) True by (intro exI [of _ 0]) (simp add: at_0)
  next
    case False
    obtain d where "d \<le> m" "insertLoop hit bs None ?i l = Some (Fill ((?i + d) mod length bs) (d < m))"
      "d < m \<longrightarrow> isErased (at bs ?i d)"
      using Suc.IH [OF rest] by blast
    then show ?thesis using l ne False Suc.prems(1)
      by (intro exI [of _ "Suc d"]) (auto simp: Let_def bucket_defs at_def probeHash_mod mod_simps)
  qed
qed

text \<open>A table with an empty bucket has one on every probing path.\<close>

lemma first_on_path:
  assumes "i < length bs" and "j < length bs" and "P (bs ! j)"
  obtains m where "m < length bs" and "P (at bs i m)" and "\<forall>m' < m. \<not> P (at bs i m')"
proof -
  have "(i + (j + length bs - i)) mod length bs = j" using assms by simp
  then have "P (at bs i ((j + length bs - i) mod length bs))" using assms by (simp add: at_def mod_simps)
  moreover define m where "m = (LEAST m. P (at bs i m))"
  ultimately have "P (at bs i m)" "m \<le> (j + length bs - i) mod length bs"
    by (auto intro: LeastI Least_le)
  moreover have "\<forall>m' < m. \<not> P (at bs i m')" unfolding m_def using not_less_Least by blast
  moreover have "(j + length bs - i) mod length bs < length bs" using assms by (intro mod_less_divisor) auto
  ultimately show thesis using that by (meson le_less_trans)
qed

lemma chooseBucket_power: "chooseBucket h (2 ^ k) = unat h mod 2 ^ k"
proof -
  have "(word_of_nat (2 ^ k) - 1 :: uint32) = mask k" by (simp add: mask_eq_exp_minus_1)
  then have "chooseBucket h (2 ^ k) = unat (take_bit k h)"
    by (simp only: chooseBucket_def take_bit_eq_mask)
  also have "\<dots> = take_bit k (unat h)" by (simp add: unsigned_take_bit_eq)
  finally show ?thesis by (simp only: take_bit_eq_mod)
qed

section \<open>What the buckets hold\<close>

text \<open>
  The content of an index is a map from the positions in the table to the keys of the rows there.
  A position is reached from its hash code if probing finds it before an empty bucket.
\<close>

definition home :: "HashBucket list \<Rightarrow> uint32 \<Rightarrow> nat" where
  "home bs h = unat h mod length bs"

definition reaches :: "HashBucket list \<Rightarrow> uint32 \<Rightarrow> nat \<Rightarrow> bool" where
  "reaches bs h p \<longleftrightarrow> (\<exists>m < length bs. isPos p (at bs (home bs h) m) \<and> hash (at bs (home bs h) m) = h \<and>
     (\<forall>m' < m. \<not> isEmpty (at bs (home bs h) m')))"

definition bucketsFor :: "('key \<Rightarrow> uint32) \<Rightarrow> 'key content \<Rightarrow> HashBucket list \<Rightarrow> bool" where
  "bucketsFor hc c bs \<longleftrightarrow> (bs = [] \<or> (\<exists>k. length bs = 2 ^ k)) \<and>
     (\<forall>p k. c p = Some k \<longrightarrow> reaches bs (hc k) p) \<and>
     (\<forall>i < length bs. isOccupied (bs ! i) \<longrightarrow> c (getPos (bs ! i)) \<noteq> None) \<and>
     (\<forall>i < length bs. \<forall>j < length bs. isOccupied (bs ! i) \<longrightarrow> slot (bs ! i) = slot (bs ! j) \<longrightarrow> i = j)"

definition nonEmpty :: "HashBucket list \<Rightarrow> nat set" where
  "nonEmpty bs = {i. i < length bs \<and> \<not> isEmpty (bs ! i)}"

definition erased :: "HashBucket list \<Rightarrow> nat set" where
  "erased bs = {i. i < length bs \<and> isErased (bs ! i)}"

definition indexValid :: "('key \<Rightarrow> uint32) \<Rightarrow> 'key content \<Rightarrow> HashIndex \<Rightarrow> bool" where
  "indexValid hc c ix \<longleftrightarrow> bucketsFor hc c (buckets ix) \<and>
     erasedCount ix = card (erased (buckets ix)) \<and>
     3 * card (nonEmpty (buckets ix)) \<le> 2 * length (buckets ix)"

lemma isPos_isOccupied: "isPos p b \<Longrightarrow> isOccupied b \<and> getPos b = p"
  by (auto simp: bucket_defs)

lemma slot_cases: "isEmpty b \<or> isErased b \<or> isOccupied b"
  by (auto simp: bucket_defs)

lemma finite_sets [simp]: "finite (nonEmpty bs)" "finite (erased bs)"
  by (simp_all add: nonEmpty_def erased_def)

lemma length_pos_home: "0 < length bs \<Longrightarrow> home bs h < length bs"
  by (simp add: home_def)

lemma home_update [simp]: "home (bs[i := b]) h = home bs h"
  by (simp add: home_def)

lemma chooseBucket_home:
  "bucketsFor hc c bs \<Longrightarrow> bs \<noteq> [] \<Longrightarrow> chooseBucket h (length bs) = home bs h"
  by (auto simp: bucketsFor_def home_def chooseBucket_power)

lemma at_update:
  "i < length bs \<Longrightarrow>
   at (bs[i := b]) j m = (if (j + m) mod length bs = i then b else at bs j m)"
  by (auto simp: at_def)

lemma at_nth: "0 < length bs \<Longrightarrow> \<exists>i < length bs. at bs j m = bs ! i \<and> i = (j + m) mod length bs"
  by (simp add: at_def)

text \<open>Writing a bucket that is not empty keeps every other position reachable.\<close>

lemma reaches_update:
  assumes "reaches bs h p" and "i < length bs" and "\<not> isPos p (bs ! i)" and "\<not> isEmpty b"
  shows "reaches (bs[i := b]) h p"
proof -
  obtain m where m: "m < length bs" "isPos p (at bs (home bs h) m)" "hash (at bs (home bs h) m) = h"
    "\<forall>m' < m. \<not> isEmpty (at bs (home bs h) m')"
    using assms(1) unfolding reaches_def by blast
  have "(home bs h + m) mod length bs \<noteq> i" using m(2) assms(3) by (auto simp: at_def)
  then show ?thesis unfolding reaches_def using m assms(2,4) by (intro exI [of _ m]) (simp add: at_update)
qed

lemma reaches_new:
  assumes "m < length bs" and "isPos p b" and "hash b = h" and "\<forall>m' < m. \<not> isEmpty (at bs (home bs h) m')"
  shows "reaches (bs[(home bs h + m) mod length bs := b]) h p"
proof -
  have "\<not> isEmpty b" using assms(2) by (auto simp: bucket_defs)
  moreover have "(home bs h + m) mod length bs < length bs" using assms(1) by (intro mod_less_divisor) auto
  ultimately show ?thesis unfolding reaches_def using assms
    by (intro exI [of _ m]) (auto simp: at_update)
qed

lemma nonEmpty_update:
  "i < length bs \<Longrightarrow> \<not> isEmpty b \<Longrightarrow> nonEmpty (bs[i := b]) = insert i (nonEmpty bs)"
  by (auto simp: nonEmpty_def nth_list_update split: if_splits)

lemma erased_update:
  "i < length bs \<Longrightarrow> erased (bs[i := b]) = (if isErased b then insert i (erased bs) else erased bs - {i})"
  by (auto simp: erased_def nth_list_update split: if_splits)

lemma some_empty:
  assumes "card (nonEmpty bs) < length bs"
  obtains j where "j < length bs" and "isEmpty (bs ! j)"
proof -
  have "nonEmpty bs \<noteq> {..< length bs}" using assms by force
  moreover have "nonEmpty bs \<subseteq> {..< length bs}" by (auto simp: nonEmpty_def)
  ultimately obtain j where "j < length bs" "j \<notin> nonEmpty bs" by auto
  then show thesis using that [of j] by (simp add: nonEmpty_def)
qed

lemma bucketsFor_fill:
  assumes "bucketsFor hc c bs" and "c p = None" and "m < length bs"
    and "\<forall>m' < m. \<not> isEmpty (at bs (home bs (hc k)) m')" and "\<not> isOccupied (at bs (home bs (hc k)) m)"
    and "slot b = p + 2" and "hash b = hc k"
  shows "bucketsFor hc (c(p \<mapsto> k)) (bs[(home bs (hc k) + m) mod length bs := b])"
proof -
  let ?i = "(home bs (hc k) + m) mod length bs"
  have "?i < length bs" using assms(3) by (intro mod_less_divisor) auto
  then have i: "?i < length bs" "\<not> isOccupied (bs ! ?i)" using assms(5) by (simp_all add: at_def)
  have b: "isPos p b" "\<not> isEmpty b" "isOccupied b" "getPos b = p" using assms(6) by (auto simp: bucket_defs)
  have none: "slot (bs ! j) \<noteq> p + 2" if "j < length bs" for j
    using assms(1,2) that unfolding bucketsFor_def
    by (metis isPos_def isPos_isOccupied)
  have "reaches (bs[?i := b]) (hc k') q" if "(c(p \<mapsto> k)) q = Some k'" for q k'
  proof (cases "q = p")
    case True
    then show ?thesis using that assms(3,4,7) b by (simp add: reaches_new)
  next
    case False
    then have "reaches bs (hc k') q" using that assms(1) by (simp add: bucketsFor_def)
    then show ?thesis using i b by (intro reaches_update) (auto dest: isPos_isOccupied)
  qed
  moreover have "(c(p \<mapsto> k)) (getPos (bs[?i := b] ! j)) \<noteq> None"
    if "j < length bs" "isOccupied (bs[?i := b] ! j)" for j
    using assms(1) that b i by (auto simp: nth_list_update bucketsFor_def split: if_splits)
  moreover have "i' = j" if "i' < length bs" "j < length bs" "isOccupied (bs[?i := b] ! i')"
    "slot (bs[?i := b] ! i') = slot (bs[?i := b] ! j)" for i' j
    using assms(1,6) that i none unfolding bucketsFor_def
    by (metis nth_list_update_eq nth_list_update_neq)
  ultimately show ?thesis using assms(1) unfolding bucketsFor_def by simp
qed

section \<open>Rehashing\<close>

text \<open>Copying the occupied buckets into a larger array keeps them all.\<close>

definition positions :: "HashBucket list \<Rightarrow> nat set" where
  "positions bs = getPos ` set (filter isOccupied bs)"

lemma rehashBuckets_correct:
  assumes "bucketsFor hc c0 new" and "erased new = {}"
    and "card (nonEmpty new) + length (filter isOccupied olds) < length new"
    and "distinct (map slot (filter isOccupied olds))"
    and "\<forall>b \<in> set olds. isOccupied b \<longrightarrow> (\<exists>k. c (getPos b) = Some k \<and> hash b = hc k)"
    and "\<forall>b \<in> set olds. isOccupied b \<longrightarrow> c0 (getPos b) = None"
  shows "\<exists>res. rehashBuckets olds new = Some res \<and> bucketsFor hc (c0 ++ c |` positions olds) res \<and>
    erased res = {} \<and> length res = length new \<and>
    card (nonEmpty res) = card (nonEmpty new) + length (filter isOccupied olds)"
  using assms
proof (induction olds arbitrary: new c0)
  case Nil
  then show ?case by (simp add: positions_def)
next
  case (Cons b olds)
  show ?case
  proof (cases "isOccupied b")
    case False
    then show ?thesis using Cons.IH [of c0 new] Cons.prems by (simp add: positions_def)
  next
    case True
    then obtain k where k: "c (getPos b) = Some k" "hash b = hc k" using Cons.prems(5) by auto
    let ?h = "home new (hc k)"
    have pos: "0 < length new" using Cons.prems(3) by linarith
    then have hl: "?h < length new" by (rule length_pos_home)
    obtain j where "j < length new" "isEmpty (new ! j)"
      using some_empty [of new] Cons.prems(3) by (metis add_lessD1)
    then obtain m where m: "m < length new" "isEmpty (at new ?h m)" "\<forall>m' < m. \<not> isEmpty (at new ?h m')"
      using first_on_path [OF hl, of j isEmpty] by metis
    let ?i = "(?h + m) mod length new"
    let ?new = "new[?i := b]"
    have "probe isEmpty new ?h (length new) = Some ?i" using probe_finds [of ?h new m] hl m by blast
    then have step: "rehashBuckets (b # olds) new = rehashBuckets olds ?new"
      using True k(2) by (simp add: home_def)
    have i: "?i < length new" using pos by (intro mod_less_divisor)
    have ie: "isEmpty (new ! ?i)" using m(2) by (simp add: at_def)
    have slot: "slot b = getPos b + 2" "\<not> isEmpty b" "\<not> isErased b" using True by (auto simp: bucket_defs)
    have c0b: "c0 (getPos b) = None" using Cons.prems(6) True by simp
    have n1: "bucketsFor hc (c0(getPos b \<mapsto> k)) ?new"
      using m slot(1) k(2) by (intro bucketsFor_fill [OF Cons.prems(1) c0b]) (simp_all add: bucket_defs)
    have n2: "erased ?new = {}" using Cons.prems(2) i slot(3) by (simp add: erased_update)
    have card: "card (nonEmpty ?new) = Suc (card (nonEmpty new))"
      using i slot(2) ie by (simp add: nonEmpty_update) (simp add: nonEmpty_def)
    have n3: "\<forall>b' \<in> set olds. isOccupied b' \<longrightarrow> (c0(getPos b \<mapsto> k)) (getPos b') = None"
    proof (intro ballI impI)
      fix b' assume b': "b' \<in> set olds" "isOccupied b'"
      then have "slot b \<noteq> slot b'" using Cons.prems(4) True by auto
      then have "getPos b' \<noteq> getPos b" using b'(2) True by (auto simp: isOccupied_def getPos_def)
      then show "(c0(getPos b \<mapsto> k)) (getPos b') = None" using Cons.prems(6) b' by simp
    qed
    have "card (nonEmpty ?new) + length (filter isOccupied olds) < length ?new"
      "distinct (map slot (filter isOccupied olds))"
      "\<forall>b' \<in> set olds. isOccupied b' \<longrightarrow> (\<exists>k. c (getPos b') = Some k \<and> hash b' = hc k)"
      using Cons.prems(3-5) True card by auto
    from Cons.IH [OF n1 n2 this n3] obtain res where res: "rehashBuckets olds ?new = Some res"
      "bucketsFor hc (c0(getPos b \<mapsto> k) ++ c |` positions olds) res" "erased res = {}"
      "length res = length new" "card (nonEmpty res) = Suc (card (nonEmpty new)) + length (filter isOccupied olds)"
      unfolding card length_list_update by blast
    have "c0(getPos b \<mapsto> k) ++ c |` positions olds = c0 ++ c |` positions (b # olds)"
      using k(1) True by (auto simp: fun_eq_iff map_add_def restrict_map_def positions_def split: option.split)
    then show ?thesis using res step True by auto
  qed
qed

lemma occupied_length:
  "length (filter isOccupied bs) + card (erased bs) = card (nonEmpty bs)"
proof -
  have "length (filter isOccupied bs) = card {i. i < length bs \<and> isOccupied (bs ! i)}"
    by (simp add: length_filter_conv_card)
  moreover have "nonEmpty bs = {i. i < length bs \<and> isOccupied (bs ! i)} \<union> erased bs"
    "{i. i < length bs \<and> isOccupied (bs ! i)} \<inter> erased bs = {}"
    by (auto simp: nonEmpty_def erased_def bucket_defs)
  ultimately show ?thesis by (simp add: card_Un_disjoint)
qed

lemma bucketsFor_occupied:
  assumes "bucketsFor hc c bs" and "b \<in> set bs" and "isOccupied b"
  shows "\<exists>k. c (getPos b) = Some k \<and> hash b = hc k"
proof -
  obtain i where i: "i < length bs" "bs ! i = b" using assms(2) by (auto simp: in_set_conv_nth)
  then obtain k where k: "c (getPos b) = Some k" using assms(1,3) by (auto simp: bucketsFor_def)
  then obtain m where "isPos (getPos b) (at bs (home bs (hc k)) m)" "hash (at bs (home bs (hc k)) m) = hc k"
    using assms(1) unfolding bucketsFor_def reaches_def by blast
  moreover define j where "j = (home bs (hc k) + m) mod length bs"
  ultimately have j: "isPos (getPos b) (bs ! j)" "hash (bs ! j) = hc k" by (simp_all add: at_def)
  have "j < length bs" unfolding j_def using i(1) by (intro mod_less_divisor) auto
  moreover have "slot (bs ! i) = slot (bs ! j)" using j(1) i assms(3) by (auto simp: bucket_defs)
  ultimately have "i = j" using assms(1,3) i unfolding bucketsFor_def by blast
  then show ?thesis using k i j by simp
qed

lemma bucketsFor_positions:
  assumes "bucketsFor hc c bs"
  shows "positions bs = dom c"
proof -
  have "p \<in> positions bs" if cp: "c p = Some k" for p k
  proof -
    obtain m where m: "m < length bs" "isPos p (at bs (home bs (hc k)) m)"
      using cp assms unfolding bucketsFor_def reaches_def by blast
    then have "at bs (home bs (hc k)) m \<in> set bs" using at_nth [of bs "home bs (hc k)" m]
      by (metis gr_zeroI less_zeroE nth_mem)
    then show ?thesis using isPos_isOccupied [OF m(2)] by (force simp: positions_def)
  qed
  moreover have "c p \<noteq> None" if "p \<in> positions bs" for p
    using that bucketsFor_occupied [OF assms] by (force simp: positions_def)
  ultimately show ?thesis by blast
qed

lemma distinct_map_filter_nth:
  "\<forall>i < length xs. \<forall>j < length xs. P (xs ! i) \<longrightarrow> f (xs ! i) = f (xs ! j) \<longrightarrow> i = j \<Longrightarrow>
   distinct (map f (filter P xs))"
proof (induction xs)
  case (Cons x xs)
  have "\<forall>i < length xs. \<forall>j < length xs. P (xs ! i) \<longrightarrow> f (xs ! i) = f (xs ! j) \<longrightarrow> i = j"
    using Cons.prems by (metis Suc_inject Suc_less_eq length_Cons nth_Cons_Suc)
  moreover have "f x \<notin> f ` set xs" if "P x"
    using Cons.prems that by (metis (no_types, lifting) Suc_less_eq Zero_not_Suc image_iff in_set_conv_nth length_Cons nth_Cons_0 nth_Cons_Suc zero_less_Suc)
  ultimately show ?case using Cons.IH by auto
qed simp

lemma bucketsFor_distinct: "bucketsFor hc c bs \<Longrightarrow> distinct (map slot (filter isOccupied bs))"
  by (rule distinct_map_filter_nth) (simp add: bucketsFor_def)

lemma lg_bounds: "0 < v \<Longrightarrow> 2 ^ lg v \<le> v \<and> v < 2 ^ (lg v + 1)"
proof (induction v rule: lg.induct)
  case (1 v)
  show ?case
  proof (cases "v < 2")
    case True
    then show ?thesis using 1(2) by (simp add: lg.simps)
  next
    case False
    then have "2 ^ lg (v div 2) \<le> v div 2 \<and> v div 2 < 2 ^ (lg (v div 2) + 1)" using 1(1) by simp
    moreover have "lg v = Suc (lg (v div 2))" using False by (simp add: lg.simps [of v])
    ultimately show ?thesis by simp linarith
  qed
qed

lemma chooseHashTableSize_bounds:
  "0 < n \<Longrightarrow> chooseHashTableSize n = 2 ^ (lg n + 1) \<and> n < chooseHashTableSize n \<and> chooseHashTableSize n \<le> 2 * n"
  using lg_bounds [of n] by (simp add: chooseHashTableSize_def push_bit_eq_mult)

lemma occupied_card:
  assumes "bucketsFor hc c bs"
  shows "length (filter isOccupied bs) = card (dom c)"
proof -
  have "inj_on getPos (set (filter isOccupied bs))"
  proof (rule inj_onI)
    fix x y assume *: "x \<in> set (filter isOccupied bs)" "y \<in> set (filter isOccupied bs)" "getPos x = getPos y"
    then have "slot x = slot y" by (auto simp: isOccupied_def getPos_def)
    then show "x = y" using * bucketsFor_distinct [OF assms] by (simp add: distinct_map inj_on_def)
  qed
  then have "card (positions bs) = card (set (filter isOccupied bs))"
    by (simp add: positions_def card_image)
  also have "\<dots> = length (filter isOccupied bs)"
    using bucketsFor_distinct [OF assms] by (simp add: distinct_map distinct_card del: set_filter)
  finally show ?thesis using bucketsFor_positions [OF assms] by simp
qed

lemma bucketsFor_empty:
  assumes "n = 0 \<or> (\<exists>k. n = 2 ^ k)"
  shows "bucketsFor hc Map.empty (replicate n emptyBucket)" and "nonEmpty (replicate n emptyBucket) = {}"
    and "erased (replicate n emptyBucket) = {}"
  using assms by (auto simp: bucketsFor_def nonEmpty_def erased_def bucket_defs)

lemma index_rehash_valid:
  assumes "indexValid hc c ix" and "target < 2 ^ 30"
  obtains ix' where "index_rehash target ix = Inr ix'" and "indexValid hc c ix'"
    and "erasedCount ix' = 0" and "card (nonEmpty (buckets ix')) = card (dom c)"
    and "0 < target \<longrightarrow> target < length (buckets ix')"
proof -
  define bs where "bs = buckets ix"
  define n where "n = max (chooseHashTableSize target) (length bs)"
  have ix: "bucketsFor hc c bs" "3 * card (nonEmpty bs) \<le> 2 * length bs"
    using assms(1) by (auto simp: indexValid_def bs_def)
  have dom: "card (dom c) = length (filter isOccupied bs)" using occupied_card [OF ix(1)] by simp
  have pow: "n = 0 \<or> (\<exists>k. n = 2 ^ k)"
  proof (cases "chooseHashTableSize target \<le> length bs")
    case True
    then show ?thesis using ix(1) by (auto simp: n_def bucketsFor_def max_def)
  next
    case False
    then have "0 < target" by (cases target) (simp_all add: chooseHashTableSize_def)
    then have "n = 2 ^ (lg target + 1)" using False chooseHashTableSize_bounds [of target] by (simp only: n_def max_def if_False)
    then show ?thesis by blast
  qed
  have few: "3 * card (dom c) \<le> 2 * n" using ix(2) occupied_length [of bs] dom by (simp add: n_def)
  have "\<exists>res. rehashBuckets bs (replicate n emptyBucket) = Some res \<and> bucketsFor hc c res \<and> erased res = {} \<and>
      length res = n \<and> card (nonEmpty res) = card (dom c)"
  proof (cases "n = 0")
    case True
    then have "bs = []" by (simp add: n_def max_def split: if_splits)
    then show ?thesis using True ix(1) dom by (simp add: nonEmpty_def erased_def)
  next
    case False
    then have "\<exists>res. rehashBuckets bs (replicate n emptyBucket) = Some res \<and>
      bucketsFor hc (Map.empty ++ c |` positions bs) res \<and> erased res = {} \<and>
      length res = length (replicate n emptyBucket) \<and>
      card (nonEmpty res) = card (nonEmpty (replicate n emptyBucket)) + length (filter isOccupied bs)"
      using bucketsFor_empty [OF pow] bucketsFor_distinct [OF ix(1)] bucketsFor_occupied [OF ix(1)] few dom
      by (intro rehashBuckets_correct) auto
    moreover have "c |` positions bs = c" using bucketsFor_positions [OF ix(1)] by (simp add: restrict_map_def fun_eq_iff domIff)
    ultimately show ?thesis using bucketsFor_empty [OF pow] dom by auto
  qed
  then obtain res where res: "rehashBuckets bs (replicate n emptyBucket) = Some res" "bucketsFor hc c res"
    "erased res = {}" "length res = n" "card (nonEmpty res) = card (dom c)" by blast
  have "(if chooseHashTableSize target < length bs then length bs else chooseHashTableSize target) = n"
    by (simp add: n_def)
  then have "index_rehash target ix = Inr \<lparr>erasedCount = 0, buckets = res\<rparr>"
    using assms(2) res(1) by (simp add: index_rehash_def rehash_def Let_def flip: bs_def)
  moreover have "0 < target \<longrightarrow> target < n" using chooseHashTableSize_bounds [of target] by (auto simp: n_def)
  ultimately show thesis using that res few by (simp add: indexValid_def)
qed

section \<open>The operations of the index\<close>

lemma rowsHold_pos:
  assumes "rowsHold keyForRow rs c" and "c p = Some k" and "c q = Some k"
  shows "p = q"
  using assms unfolding rowsHold_def by (metis domI inj_onD)

lemma hit_pos:
  assumes "bucketsFor hc c bs" and "rowsHold keyForRow rs c" and "b \<in> set bs" and "isOccupied b"
    and "rowMatches keyForRow rs h key b"
  shows "c (getPos b) = Some key"
  using bucketsFor_occupied [OF assms(1,3,4)] assms(2,5) by (auto simp: rowMatches_def rowsHold_def)

lemma at_in_set: "0 < length bs \<Longrightarrow> at bs i m \<in> set bs"
  by (simp add: at_def)

lemma indexValid_room:
  "indexValid hc c ix \<Longrightarrow> buckets ix \<noteq> [] \<Longrightarrow> card (nonEmpty (buckets ix)) < length (buckets ix)"
  by (cases "buckets ix") (auto simp: indexValid_def)

lemma search_key:
  assumes "bucketsFor hc c bs" and "rowsHold keyForRow rs c" and "c p = Some key"
  obtains m where "m < length bs" and "isOccupied (at bs (home bs (hc key)) m)"
    and "rowMatches keyForRow rs (hc key) key (at bs (home bs (hc key)) m)"
    and "getPos (at bs (home bs (hc key)) m) = p"
    and "\<forall>m' < m. \<not> isEmpty (at bs (home bs (hc key)) m')"
    and "\<forall>m' < m. isOccupied (at bs (home bs (hc key)) m') \<longrightarrow>
      \<not> rowMatches keyForRow rs (hc key) key (at bs (home bs (hc key)) m')"
proof -
  let ?at = "at bs (home bs (hc key))"
  let ?hit = "\<lambda>b. isOccupied b \<and> rowMatches keyForRow rs (hc key) key b"
  obtain n where n: "n < length bs" "isPos p (?at n)" "hash (?at n) = hc key" "\<forall>m' < n. \<not> isEmpty (?at m')"
    using assms(1,3) unfolding bucketsFor_def reaches_def by blast
  then have len: "0 < length bs" by linarith
  have hit: "?hit (?at n)" using assms(2,3) n(3) isPos_isOccupied [OF n(2)]
    by (simp add: rowMatches_def rowsHold_def)
  define m where "m = (LEAST m. ?hit (?at m))"
  have m: "?hit (?at m)" "m \<le> n" unfolding m_def by (rule LeastI [of _ n], rule hit) (rule Least_le, rule hit)
  moreover have "\<forall>m' < m. \<not> ?hit (?at m')" unfolding m_def using not_less_Least by blast
  moreover have "c (getPos (?at m)) = Some key"
    using m len by (intro hit_pos [OF assms(1,2)]) (auto simp: at_in_set)
  ultimately show thesis using that [of m] n(1,4) rowsHold_pos [OF assms(2) assms(3)] by auto
qed

lemma search_none:
  assumes "bucketsFor hc c bs" and "rowsHold keyForRow rs c" and "key \<notin> ran c"
    and "card (nonEmpty bs) < length bs"
  obtains m where "m < length bs" and "isEmpty (at bs (home bs (hc key)) m)"
    and "\<forall>m' < m. \<not> isEmpty (at bs (home bs (hc key)) m')"
    and "\<forall>m' < m. isOccupied (at bs (home bs (hc key)) m') \<longrightarrow>
      \<not> rowMatches keyForRow rs (hc key) key (at bs (home bs (hc key)) m')"
proof -
  have len: "0 < length bs" using assms(4) by linarith
  obtain j where "j < length bs" "isEmpty (bs ! j)" using some_empty [OF assms(4)] .
  then obtain m where m: "m < length bs" "isEmpty (at bs (home bs (hc key)) m)"
    "\<forall>m' < m. \<not> isEmpty (at bs (home bs (hc key)) m')"
    using first_on_path [OF length_pos_home [OF len]] by metis
  moreover have "\<not> rowMatches keyForRow rs (hc key) key b" if "b \<in> set bs" "isOccupied b" for b
    using hit_pos [OF assms(1,2) that] assms(3) by (auto simp: ran_def)
  ultimately show thesis using that len by (simp add: at_in_set)
qed

lemma index_find_correct:
  assumes "indexValid hc c ix" and "rowsHold keyForRow rs c"
  shows "c p = Some key \<Longrightarrow> index_find keyForRow hc rs key ix = Inr (Some p)"
    and "key \<notin> ran c \<Longrightarrow> index_find keyForRow hc rs key ix = Inr None"
proof -
  let ?bs = "buckets ix"
  let ?stop = "\<lambda>b. isEmpty b \<or> (\<not> isErased b \<and> rowMatches keyForRow rs (hc key) key b)"
  have bf: "bucketsFor hc c ?bs" using assms(1) by (simp add: indexValid_def)
  {
    assume "c p = Some key"
    from search_key [OF bf assms(2) this] obtain m where m: "m < length ?bs"
      "isOccupied (at ?bs (home ?bs (hc key)) m)"
      "rowMatches keyForRow rs (hc key) key (at ?bs (home ?bs (hc key)) m)"
      "getPos (at ?bs (home ?bs (hc key)) m) = p"
      "\<forall>m' < m. \<not> isEmpty (at ?bs (home ?bs (hc key)) m')"
      "\<forall>m' < m. isOccupied (at ?bs (home ?bs (hc key)) m') \<longrightarrow>
        \<not> rowMatches keyForRow rs (hc key) key (at ?bs (home ?bs (hc key)) m')" by metis
    have ne: "?bs \<noteq> []" using m(1) by auto
    have "probe ?stop ?bs (home ?bs (hc key)) (length ?bs) = Some ((home ?bs (hc key) + m) mod length ?bs)"
      using m slot_cases ne by (intro probe_finds) (auto simp: bucket_defs length_pos_home)
    then show "index_find keyForRow hc rs key ix = Inr (Some p)"
      using m(2,4) ne chooseBucket_home [OF bf ne]
      by (auto simp: index_find_def Let_def at_def bucket_defs)
  next
    assume none: "key \<notin> ran c"
    show "index_find keyForRow hc rs key ix = Inr None"
    proof (cases "?bs = []")
      case False
      from search_none [OF bf assms(2) none indexValid_room [OF assms(1) this]]
      obtain m where m: "m < length ?bs" "isEmpty (at ?bs (home ?bs (hc key)) m)"
        "\<forall>m' < m. \<not> isEmpty (at ?bs (home ?bs (hc key)) m')"
        "\<forall>m' < m. isOccupied (at ?bs (home ?bs (hc key)) m') \<longrightarrow>
          \<not> rowMatches keyForRow rs (hc key) key (at ?bs (home ?bs (hc key)) m')" by metis
      have "probe ?stop ?bs (home ?bs (hc key)) (length ?bs) = Some ((home ?bs (hc key) + m) mod length ?bs)"
        using m slot_cases False by (intro probe_finds) (auto simp: length_pos_home)
      then show ?thesis
        using m(2) False chooseBucket_home [OF bf False] by (simp add: index_find_def Let_def at_def)
    qed (simp add: index_find_def)
  }
qed

text \<open>Before the insertion loop, the index has room for one more bucket under its load factor.\<close>

lemma insert_prepare_cases:
  assumes "indexValid hc c ix" and "card (dom c) \<le> length rs"
  obtains (TooBig) "insert_prepare rs ix = Inl TooBig" "2 ^ 30 \<le> 3 * (length rs + 1)"
  | (Room) ix' where "insert_prepare rs ix = Inr ix'" "indexValid hc c ix'"
      "3 * (card (nonEmpty (buckets ix')) + 1) \<le> 2 * length (buckets ix')"
proof (cases "length (buckets ix) * 2 < (length rs + 1 + erasedCount ix) * 3")
  case False
  have "card (nonEmpty (buckets ix)) \<le> length rs + erasedCount ix"
    using assms occupied_card [of hc c "buckets ix"] occupied_length [of "buckets ix"]
    by (simp add: indexValid_def)
  then show thesis using False assms(1) by (intro Room [of ix]) (simp_all add: insert_prepare_def)
next
  case True
  then have prep: "insert_prepare rs ix = index_rehash ((length rs + 1) * 3) ix"
    by (simp add: insert_prepare_def)
  show thesis
  proof (cases "(length rs + 1) * 3 < 2 ^ 30")
    case True
    obtain ix' where "index_rehash ((length rs + 1) * 3) ix = Inr ix'" "indexValid hc c ix'"
      "card (nonEmpty (buckets ix')) = card (dom c)"
      "0 < (length rs + 1) * 3 \<longrightarrow> (length rs + 1) * 3 < length (buckets ix')"
      using index_rehash_valid [OF assms(1) True] by metis
    then show thesis using prep assms(2) by (intro Room [of ix']) auto
  next
    case False
    then show thesis using prep by (intro TooBig) (auto simp: index_rehash_def rehash_def)
  qed
qed

lemma indexValid_fill:
  assumes "indexValid hc c ix" and "c pos = None" and "3 * (card (nonEmpty (buckets ix)) + 1) \<le> 2 * length (buckets ix)"
    and "d < length (buckets ix)" and "\<forall>m' < d. \<not> isEmpty (at (buckets ix) (home (buckets ix) (hc key)) m')"
    and "if wasErased then isErased (at (buckets ix) (home (buckets ix) (hc key)) d)
         else isEmpty (at (buckets ix) (home (buckets ix) (hc key)) d)"
  shows "indexValid hc (c(pos \<mapsto> key)) \<lparr>erasedCount = (if wasErased then erasedCount ix - 1 else erasedCount ix),
    buckets = (buckets ix)[(home (buckets ix) (hc key) + d) mod length (buckets ix) := HashBucket_make (hc key) pos]\<rparr>"
proof -
  let ?bs = "buckets ix"
  let ?i = "(home ?bs (hc key) + d) mod length ?bs"
  let ?b = "HashBucket_make (hc key) pos"
  have i: "?i < length ?bs" using assms(4) by (intro mod_less_divisor) linarith
  have b: "\<not> isEmpty ?b" "\<not> isErased ?b" "slot ?b = pos + 2" "hash ?b = hc key" by (simp_all add: bucket_defs)
  have free: "\<not> isOccupied (at ?bs (home ?bs (hc key)) d)" using assms(6) by (auto simp: bucket_defs split: if_splits)
  have "bucketsFor hc (c(pos \<mapsto> key)) (?bs[?i := ?b])"
    using assms(1,2,4,5) free b by (intro bucketsFor_fill) (simp_all add: indexValid_def)
  moreover have "card (nonEmpty (?bs[?i := ?b])) \<le> card (nonEmpty ?bs) + 1"
    unfolding nonEmpty_update [OF i b(1)] by (simp add: card_insert_if)
  moreover have "card (erased (?bs[?i := ?b])) = (if wasErased then erasedCount ix - 1 else erasedCount ix)"
  proof -
    have "?i \<in> erased ?bs \<longleftrightarrow> wasErased"
      using assms(6) i by (auto simp: erased_def at_def bucket_defs split: if_splits)
    then show ?thesis using assms(1) i b(2) by (simp add: erased_update indexValid_def)
  qed
  ultimately show ?thesis using assms(3) by (simp add: indexValid_def)
qed

lemma index_insert_cases:
  assumes "indexValid hc c ix" and "rowsHold keyForRow rs c" and "card (dom c) \<le> length rs" and "c pos = None"
  shows "case index_insert keyForRow hc rs pos key ix of
      Inl e \<Rightarrow> e = TooBig \<and> 2 ^ 30 \<le> 3 * (length rs + 1)
    | Inr (Some p, ix') \<Rightarrow> c p = Some key \<and> indexValid hc c ix'
    | Inr (None, ix') \<Rightarrow> key \<notin> ran c \<and> indexValid hc (c(pos \<mapsto> key)) ix'"
  using assms(1,3)
proof (cases rule: insert_prepare_cases)
  case TooBig
  then show ?thesis by (simp add: index_insert_def Let_def)
next
  case (Room ix')
  let ?bs = "buckets ix'"
  let ?at = "at ?bs (home ?bs (hc key))"
  let ?hit = "rowMatches keyForRow rs (hc key) key"
  have bf: "bucketsFor hc c ?bs" using Room(2) by (simp add: indexValid_def)
  have ne: "?bs \<noteq> []" and len: "0 < length ?bs" using Room(3) by auto
  note home = chooseBucket_home [OF bf ne] length_pos_home [OF len, of "hc key"]
  show ?thesis
  proof (cases "key \<in> ran c")
    case True
    then obtain p where p: "c p = Some key" by (auto simp: ran_def)
    from search_key [OF bf assms(2) p] obtain m where "m < length ?bs" "isOccupied (?at m)" "?hit (?at m)"
      "getPos (?at m) = p" "\<forall>m' < m. \<not> isEmpty (?at m')" "\<forall>m' < m. isOccupied (?at m') \<longrightarrow> \<not> ?hit (?at m')"
      by metis
    then have "insertLoop ?hit ?bs None (home ?bs (hc key)) (length ?bs) = Some (Duplicate p)"
      using insertLoop_duplicate [OF home(2)] by metis
    then show ?thesis using Room p home by (simp add: index_insert_def Let_def)
  next
    case False
    from search_none [OF bf assms(2) False] Room(3) obtain m where m: "m < length ?bs" "isEmpty (?at m)"
      "\<forall>m' < m. \<not> isEmpty (?at m')" "\<forall>m' < m. isOccupied (?at m') \<longrightarrow> \<not> ?hit (?at m')"
      by (metis add_leD1 indexValid_room [OF Room(2) ne])
    from insertLoop_fill [OF home(2) m] obtain d where d: "d \<le> m"
      "insertLoop ?hit ?bs None (home ?bs (hc key)) (length ?bs) = Some (Fill ((home ?bs (hc key) + d) mod length ?bs) (d < m))"
      "d < m \<longrightarrow> isErased (?at d)" by blast
    have "indexValid hc (c(pos \<mapsto> key)) \<lparr>erasedCount = (if d < m then erasedCount ix' - 1 else erasedCount ix'),
        buckets = ?bs[(home ?bs (hc key) + d) mod length ?bs := HashBucket_make (hc key) pos]\<rparr>"
      using d m by (intro indexValid_fill [OF Room(2) assms(4) Room(3)]) (cases "d = m"; simp)+
    then show ?thesis using Room(1) False d(2) home by (simp add: index_insert_def Let_def)
  qed
qed

lemma search_pos:
  assumes "bucketsFor hc c bs" and "c p = Some k"
  obtains m where "m < length bs" and "isPos p (at bs (home bs (hc k)) m)"
    and "hash (at bs (home bs (hc k)) m) = hc k"
    and "\<forall>m' < m. \<not> isEmpty (at bs (home bs (hc k)) m')"
    and "probe (\<lambda>b. isPos p b \<or> isEmpty b) bs (chooseBucket (hc k) (length bs)) (length bs) =
      Some ((home bs (hc k) + m) mod length bs)"
proof -
  let ?at = "at bs (home bs (hc k))"
  let ?stop = "\<lambda>b. isPos p b \<or> isEmpty b"
  obtain n where n: "n < length bs" "isPos p (?at n)" "hash (?at n) = hc k" "\<forall>m' < n. \<not> isEmpty (?at m')"
    using assms unfolding bucketsFor_def reaches_def by blast
  define m where "m = (LEAST m. isPos p (?at m))"
  have m: "isPos p (?at m)" "m \<le> n" unfolding m_def by (rule LeastI [of _ n], rule n) (rule Least_le, rule n)
  have least: "\<forall>m' < m. \<not> isPos p (?at m')" unfolding m_def using not_less_Least by blast
  have len: "0 < length bs" using n(1) by linarith
  have "?at m \<in> set bs" using len by (rule at_in_set)
  then have hash: "hash (?at m) = hc k"
    using bucketsFor_occupied [OF assms(1)] isPos_isOccupied [OF m(1)] assms(2) by fastforce
  have "probe ?stop bs (home bs (hc k)) (length bs) = Some ((home bs (hc k) + m) mod length bs)"
    using m n(1,4) least len by (intro probe_finds) (auto simp: length_pos_home)
  then show thesis
    using that [of m] m n(1,4) hash chooseBucket_home [OF assms(1)] len by auto
qed

lemma bucketsFor_erase:
  assumes "bucketsFor hc c bs" and "i < length bs" and "isPos p (bs ! i)"
  shows "bucketsFor hc (c(p := None)) (bs[i := setErased (bs ! i)])"
proof -
  let ?b = "setErased (bs ! i)"
  have b: "\<not> isEmpty ?b" "\<not> isOccupied ?b" by (simp_all add: bucket_defs)
  have only: "j = i" if "j < length bs" "isPos p (bs ! j)" for j
    using assms that isPos_isOccupied [OF assms(3)] unfolding bucketsFor_def isPos_def by metis
  have "reaches (bs[i := ?b]) (hc k) q" if "(c(p := None)) q = Some k" for q k
  proof -
    have "q \<noteq> p" "c q = Some k" using that by (auto split: if_splits)
    then show ?thesis using assms b(1)
      by (intro reaches_update) (auto simp: bucketsFor_def dest: isPos_isOccupied)
  qed
  moreover have "(c(p := None)) (getPos (bs[i := ?b] ! j)) \<noteq> None"
    if j: "j < length bs" "isOccupied (bs[i := ?b] ! j)" for j
  proof -
    have "j \<noteq> i" using j b(2) by auto
    moreover have "isPos (getPos (bs ! j)) (bs ! j)"
      using j \<open>j \<noteq> i\<close> by (simp add: isPos_def getPos_def isOccupied_def)
    ultimately have "getPos (bs ! j) \<noteq> p" using only [of j] j by auto
    then show ?thesis using assms(1) j \<open>j \<noteq> i\<close> by (auto simp: bucketsFor_def)
  qed
  moreover have "j = j'" if "j < length bs" "j' < length bs" "isOccupied (bs[i := ?b] ! j)"
    "slot (bs[i := ?b] ! j) = slot (bs[i := ?b] ! j')" for j j'
  proof -
    have "j \<noteq> i" "j' \<noteq> i" using that b(2) assms(2) by (auto simp: isOccupied_def)
    then show ?thesis using that assms(1) by (auto simp: bucketsFor_def)
  qed
  ultimately show ?thesis using assms(1) unfolding bucketsFor_def by simp
qed

lemma index_erase_correct:
  assumes "indexValid hc c ix" and "c p = Some k"
  obtains ix' where "index_erase hc p k ix = Inr (ix', False)" and "indexValid hc (c(p := None)) ix'"
proof -
  let ?bs = "buckets ix"
  have bf: "bucketsFor hc c ?bs" using assms(1) by (simp add: indexValid_def)
  from search_pos [OF bf assms(2)] obtain m where m: "m < length ?bs" "isPos p (at ?bs (home ?bs (hc k)) m)"
    "probe (\<lambda>b. isPos p b \<or> isEmpty b) ?bs (chooseBucket (hc k) (length ?bs)) (length ?bs) =
      Some ((home ?bs (hc k) + m) mod length ?bs)" by blast
  define i where "i = (home ?bs (hc k) + m) mod length ?bs"
  have i: "i < length ?bs" "isPos p (?bs ! i)"
    using m(1,2) unfolding i_def at_def by (auto intro: mod_less_divisor)
  let ?ix = "\<lparr>erasedCount = erasedCount ix + 1, buckets = ?bs[i := setErased (?bs ! i)]\<rparr>"
  have "index_erase hc p k ix = Inr (?ix, False)"
    using m(3) i by (simp add: index_erase_def Let_def flip: i_def)
  moreover have "indexValid hc (c(p := None)) ?ix"
  proof -
    have "\<not> isEmpty (setErased (?bs ! i))" "isErased (setErased (?bs ! i))" "i \<notin> erased ?bs" "i \<in> nonEmpty ?bs"
      using i by (auto simp: bucket_defs erased_def nonEmpty_def)
    then show ?thesis using assms(1) bucketsFor_erase [OF bf i] i
      by (simp add: indexValid_def nonEmpty_update erased_update insert_absorb)
  qed
  ultimately show thesis using that by blast
qed

text \<open>Moving a row is erasing its bucket and filling it with the new position.\<close>

lemma index_move_correct:
  assumes "indexValid hc c ix" and "c old = Some k" and "c new = None"
  obtains ix' where "index_move hc old new k ix = Inr (ix', False)"
    and "indexValid hc (c(old := None, new \<mapsto> k)) ix'"
proof -
  let ?bs = "buckets ix"
  have bf: "bucketsFor hc c ?bs" using assms(1) by (simp add: indexValid_def)
  from search_pos [OF bf assms(2)] obtain m where m: "m < length ?bs" "isPos old (at ?bs (home ?bs (hc k)) m)"
    "hash (at ?bs (home ?bs (hc k)) m) = hc k" "\<forall>m' < m. \<not> isEmpty (at ?bs (home ?bs (hc k)) m')"
    "probe (\<lambda>b. isPos old b \<or> isEmpty b) ?bs (chooseBucket (hc k) (length ?bs)) (length ?bs) =
      Some ((home ?bs (hc k) + m) mod length ?bs)" by blast
  define i where "i = (home ?bs (hc k) + m) mod length ?bs"
  have i: "i < length ?bs" "isPos old (?bs ! i)"
    using m(1,2) unfolding i_def at_def by (auto intro: mod_less_divisor)
  let ?e = "?bs[i := setErased (?bs ! i)]"
  let ?b = "setPos new (?bs ! i)"
  have e: "\<not> isEmpty (setErased (?bs ! i))" "\<not> isOccupied (setErased (?bs ! i))" by (simp_all add: bucket_defs)
  have "bucketsFor hc ((c(old := None))(new \<mapsto> k)) (?e[(home ?e (hc k) + m) mod length ?e := ?b])"
  proof (rule bucketsFor_fill [OF bucketsFor_erase [OF bf i]])
    show "\<forall>m' < m. \<not> isEmpty (at ?e (home ?e (hc k)) m')" using m(4) e(1) i(1) by (simp add: at_update)
    show "\<not> isOccupied (at ?e (home ?e (hc k)) m)" using e(2) i(1) by (simp add: at_update i_def)
    show "hash ?b = hc k" using m(3) by (simp add: at_def i_def setPos_def)
  qed (use assms(3) m(1) in \<open>simp_all add: setPos_def\<close>)
  then have "bucketsFor hc (c(old := None, new \<mapsto> k)) (?bs[i := ?b])"
    by (simp flip: i_def)
  moreover have "index_move hc old new k ix = Inr (ix\<lparr>buckets := ?bs[i := ?b]\<rparr>, False)"
    using m(5) i by (simp add: index_move_def Let_def flip: i_def)
  moreover have "\<not> isEmpty ?b" "\<not> isErased ?b" "i \<notin> erased ?bs" "i \<in> nonEmpty ?bs"
    using i by (auto simp: bucket_defs erased_def nonEmpty_def)
  ultimately show thesis using that assms(1) i
    by (auto simp: indexValid_def nonEmpty_update erased_update insert_absorb)
qed

lemma index_clear_correct: "indexValid hc c ix \<Longrightarrow> indexValid hc Map.empty (index_clear ix)"
  using bucketsFor_empty(1) [of "length (buckets ix)" hc] bucketsFor_empty(2,3) [of "length (buckets ix)"]
  by (auto simp: indexValid_def index_clear_def map_replicate_const bucketsFor_def)

lemma HashIndex_new_correct: "indexValid hc Map.empty HashIndex_new"
  by (simp add: indexValid_def HashIndex_new_def bucketsFor_def nonEmpty_def erased_def)

lemma index_reserve_correct:
  assumes "indexValid hc c ix"
  shows "case index_reserve n ix of Inl e \<Rightarrow> e = TooBig \<and> 2 ^ 30 \<le> n | Inr ix' \<Rightarrow> indexValid hc c ix'"
proof (cases "n < 2 ^ 30")
  case True
  obtain ix' where "index_rehash n ix = Inr ix'" "indexValid hc c ix'"
    using index_rehash_valid [OF assms True] .
  then show ?thesis using assms by (simp add: index_reserve_def)
next
  case False
  then show ?thesis using assms by (auto simp: index_reserve_def index_rehash_def rehash_def)
qed

section \<open>The hash index keeps the contract of an index\<close>

definition HashIndex_ops :: "('row \<Rightarrow> 'key) \<Rightarrow> ('key \<Rightarrow> uint32) \<Rightarrow> ('row, 'key, HashIndex) Index" where
  "HashIndex_ops keyForRow hashCode =
     \<lparr>ix_keyForRow = keyForRow,
      ix_reserve = index_reserve,
      ix_clear = index_clear,
      ix_insert = index_insert keyForRow hashCode,
      ix_erase = (\<lambda>rs. index_erase hashCode),
      ix_move = (\<lambda>rs. index_move hashCode),
      ix_find = index_find keyForRow hashCode\<rparr>"

lemma HashIndex_ops_simps [simp]:
  "ix_keyForRow (HashIndex_ops k hc) = k" "ix_reserve (HashIndex_ops k hc) = index_reserve"
  "ix_clear (HashIndex_ops k hc) = index_clear" "ix_insert (HashIndex_ops k hc) = index_insert k hc"
  "ix_erase (HashIndex_ops k hc) = (\<lambda>rs. index_erase hc)" "ix_move (HashIndex_ops k hc) = (\<lambda>rs. index_move hc)"
  "ix_find (HashIndex_ops k hc) = index_find k hc"
  by (simp_all add: HashIndex_ops_def)

text \<open>\<open>rehash\<close> refuses a size of \<open>2 ^ 30\<close>, three times the number of rows.\<close>

definition maxRows :: nat where
  "maxRows = (2 ^ 30 - 1) div 3"

interpretation hash_index: table_index "HashIndex_ops keyForRow hashCode" "indexValid hashCode" maxRows
  for keyForRow :: "'row \<Rightarrow> 'key" and hashCode
proof (unfold_locales, goal_cases)
  case (1 c ix rs pos key)
  then show ?case using index_insert_cases [of hashCode c ix keyForRow rs pos key]
    by (auto simp: maxRows_def split: sum.splits option.splits)
next
  case (2 c ix p key rs)
  then show ?case using index_erase_correct [of hashCode c ix p key] by (simp, metis)
next
  case (3 c ix old key new rs)
  then show ?case using index_move_correct [of hashCode c ix old key new] by (simp, metis)
next
  case (4 c ix rs key)
  show ?case
  proof (cases "key \<in> ran c")
    case True
    then obtain p where "c p = Some key" by (auto simp: ran_def)
    then show ?thesis using 4 index_find_correct(1) [of hashCode c ix keyForRow rs p key] rowsHold_pos
      by (fastforce simp del: fun_upd_apply)
  next
    case False
    then show ?thesis using 4 index_find_correct(2) [of hashCode c ix keyForRow rs key] by (auto simp: ran_def)
  qed
next
  case (5 c ix)
  then show ?case by (simp add: index_clear_correct)
next
  case (6 c ix n)
  then show ?case using index_reserve_correct [of hashCode c ix n] by (auto simp: maxRows_def split: sum.splits)
qed

text \<open>A table may have several hash indexes, each with a key of its own.\<close>

definition HashIndexes :: "(('row \<Rightarrow> 'key) \<times> ('key \<Rightarrow> uint32)) list \<Rightarrow> ('row, 'key, HashIndex) Index list" where
  "HashIndexes ks = map (\<lambda>(k, hc). HashIndex_ops k hc) ks"

definition hashSpecs :: "(('row \<Rightarrow> 'key) \<times> ('key \<Rightarrow> uint32)) list \<Rightarrow> ('row, 'key, HashIndex) spec list" where
  "hashSpecs ks = map (\<lambda>(k, hc). (HashIndex_ops k hc, indexValid hc)) ks"

lemma hashSpecs_ops: "map fst (hashSpecs ks) = HashIndexes ks"
  by (simp add: hashSpecs_def HashIndexes_def split_beta comp_def)

interpretation hash_table: table_indexes "hashSpecs ks" maxRows for ks
  by (rule table_indexes.intro) (auto simp: hashSpecs_def intro: hash_index.table_index_axioms)

definition hashTableValid :: "(('row \<Rightarrow> 'key) \<times> ('key \<Rightarrow> uint32)) list \<Rightarrow> ('row, HashIndex) Table \<Rightarrow> bool" where
  "hashTableValid ks t \<longleftrightarrow> tableValid (hashSpecs ks) t"

definition hashTable_new :: "(('row \<Rightarrow> 'key) \<times> ('key \<Rightarrow> uint32)) list \<Rightarrow> ('row, HashIndex) Table" where
  "hashTable_new ks = \<lparr>rows = [], indexes = map (\<lambda>k. HashIndex_new) ks\<rparr>"

lemma hashTableValid_new: "hashTableValid ks (hashTable_new ks)"
proof -
  have "\<forall>(op, valid) \<in> set (hashSpecs ks). valid Map.empty HashIndex_new"
    by (auto simp: hashSpecs_def HashIndex_new_correct)
  from hash_table.tableValid_new [OF this] show ?thesis
    by (simp add: hashTableValid_def hashTable_new_def hashSpecs_def map_replicate_const)
qed

lemma hashTableValid_distinct: "hashTableValid ks t \<Longrightarrow> (k, hc) \<in> set ks \<Longrightarrow> distinct (map k (rows t))"
  by (force simp: hashTableValid_def tableValid_def keysDistinct_def hashSpecs_def)

lemmas hash_table_insert = hash_table.table_insert_cases [folded hashTableValid_def, unfolded hashSpecs_ops]

end
