(* ===== verification/Hash_Map.thy ===== *)
theory Hash_Map
  imports Hash_Index
begin

text \<open>
  The maps of \<open>zc/core/map.h\<close> over a table with one hash index, \<open>HashSet\<close>, and the symbol table of
  \<open>compiler/typecheck/symbol-table.h\<close> on top. The hash code is a function of the key, as
  \<open>zc::hashCode\<close> is; nothing else is asked of it.
\<close>

record ('key, 'val) Entry =
  entry_key :: 'key
  entry_value :: 'val

type_synonym ('key, 'val) HashMap = "(('key, 'val) Entry, HashIndex) Table"

definition map_index :: "('key \<Rightarrow> uint32) \<Rightarrow> (('key, 'val) Entry, 'key, HashIndex) Index list" where
  "map_index hashCode = [HashIndex_ops entry_key hashCode]"

definition HashMap_new :: "('key, 'val) HashMap" where
  "HashMap_new = \<lparr>rows = [], indexes = [HashIndex_new]\<rparr>"

definition HashMap_reserve ::
    "('key \<Rightarrow> uint32) \<Rightarrow> nat \<Rightarrow> ('key, 'val) HashMap \<Rightarrow> unit outcome \<times> ('key, 'val) HashMap" where
  "HashMap_reserve hashCode n m = table_reserve (map_index hashCode) n m"

definition HashMap_size :: "('key, 'val) HashMap \<Rightarrow> nat" where
  "HashMap_size m = length (rows m)"

definition HashMap_clear :: "('key \<Rightarrow> uint32) \<Rightarrow> ('key, 'val) HashMap \<Rightarrow> ('key, 'val) HashMap" where
  "HashMap_clear hashCode m = table_clear (map_index hashCode) m"

definition HashMap_insert ::
    "('key \<Rightarrow> uint32) \<Rightarrow> 'key \<Rightarrow> 'val \<Rightarrow> ('key, 'val) HashMap \<Rightarrow> nat outcome \<times> ('key, 'val) HashMap" where
  "HashMap_insert hashCode k v m = table_insert (map_index hashCode) \<lparr>entry_key = k, entry_value = v\<rparr> m"

definition HashMap_insertAll ::
    "('key \<Rightarrow> uint32) \<Rightarrow> bool \<Rightarrow> ('key, 'val) Entry list \<Rightarrow> ('key, 'val) HashMap \<Rightarrow>
     unit outcome \<times> ('key, 'val) HashMap" where
  "HashMap_insertAll hashCode hasSize collection m = table_insertAll (map_index hashCode) hasSize collection m"

definition HashMap_upsertWith ::
    "('key \<Rightarrow> uint32) \<Rightarrow> ('val \<Rightarrow> 'val \<Rightarrow> 'val) \<Rightarrow> 'key \<Rightarrow> 'val \<Rightarrow> ('key, 'val) HashMap \<Rightarrow>
     nat outcome \<times> ('key, 'val) HashMap" where
  "HashMap_upsertWith hashCode update k v m =
     table_upsert (map_index hashCode)
       (\<lambda>existingEntry newEntry.
          existingEntry\<lparr>entry_value := update (entry_value existingEntry) (entry_value newEntry)\<rparr>)
       \<lparr>entry_key = k, entry_value = v\<rparr> m"

definition HashMap_upsert ::
    "('key \<Rightarrow> uint32) \<Rightarrow> 'key \<Rightarrow> 'val \<Rightarrow> ('key, 'val) HashMap \<Rightarrow> nat outcome \<times> ('key, 'val) HashMap" where
  "HashMap_upsert hashCode k v m =
     table_upsert (map_index hashCode)
       (\<lambda>existingEntry newEntry. existingEntry\<lparr>entry_value := entry_value newEntry\<rparr>)
       \<lparr>entry_key = k, entry_value = v\<rparr> m"

definition HashMap_findEntry ::
    "('key \<Rightarrow> uint32) \<Rightarrow> 'key \<Rightarrow> ('key, 'val) HashMap \<Rightarrow> ('key, 'val) Entry option outcome" where
  "HashMap_findEntry hashCode k m = table_find (map_index hashCode) 0 k m"

definition HashMap_find :: "('key \<Rightarrow> uint32) \<Rightarrow> 'key \<Rightarrow> ('key, 'val) HashMap \<Rightarrow> 'val option outcome" where
  "HashMap_find hashCode k m =
     (case table_find (map_index hashCode) 0 k m of
        Inl e \<Rightarrow> Inl e
      | Inr r \<Rightarrow> Inr (map_option entry_value r))"

text \<open>\<open>createEntry\<close> returns an entry or throws.\<close>

definition HashMap_findOrCreateEntry ::
    "('key \<Rightarrow> uint32) \<Rightarrow> 'key \<Rightarrow> ('key, 'val) Entry option \<Rightarrow> ('key, 'val) HashMap \<Rightarrow>
     ('key, 'val) Entry outcome \<times> ('key, 'val) HashMap" where
  "HashMap_findOrCreateEntry hashCode k created m =
     (case table_findOrCreate (map_index hashCode) 0 k created m of
        (Inl e, m') \<Rightarrow> (Inl e, m')
      | (Inr pos, m') \<Rightarrow> (Inr (rows m' ! pos), m'))"

definition HashMap_findOrCreate ::
    "('key \<Rightarrow> uint32) \<Rightarrow> 'key \<Rightarrow> ('key, 'val) Entry option \<Rightarrow> ('key, 'val) HashMap \<Rightarrow>
     'val outcome \<times> ('key, 'val) HashMap" where
  "HashMap_findOrCreate hashCode k created m =
     (case table_findOrCreate (map_index hashCode) 0 k created m of
        (Inl e, m') \<Rightarrow> (Inl e, m')
      | (Inr pos, m') \<Rightarrow> (Inr (entry_value (rows m' ! pos)), m'))"

definition HashMap_erase ::
    "('key \<Rightarrow> uint32) \<Rightarrow> 'key \<Rightarrow> ('key, 'val) HashMap \<Rightarrow> (bool \<times> ('key, 'val) HashMap \<times> bool) outcome" where
  "HashMap_erase hashCode k m = table_eraseMatch (map_index hashCode) 0 k m"

definition HashMap_eraseEntry ::
    "('key \<Rightarrow> uint32) \<Rightarrow> nat \<Rightarrow> ('key, 'val) HashMap \<Rightarrow> (('key, 'val) HashMap \<times> bool) outcome" where
  "HashMap_eraseEntry hashCode pos m = table_eraseImpl (map_index hashCode) pos m"

definition HashMap_release ::
    "('key \<Rightarrow> uint32) \<Rightarrow> nat \<Rightarrow> ('key, 'val) HashMap \<Rightarrow>
     (('key, 'val) Entry \<times> ('key, 'val) HashMap \<times> bool) outcome" where
  "HashMap_release hashCode pos m = table_release (map_index hashCode) pos m"

definition HashMap_eraseAll ::
    "('key \<Rightarrow> uint32) \<Rightarrow> ('key \<Rightarrow> 'val \<Rightarrow> bool) \<Rightarrow> ('key, 'val) HashMap \<Rightarrow>
     (nat \<times> ('key, 'val) HashMap \<times> bool) outcome" where
  "HashMap_eraseAll hashCode predicate m =
     table_eraseAll (map_index hashCode) (\<lambda>e. predicate (entry_key e) (entry_value e)) m"

text \<open>A set is a table whose rows are their own keys.\<close>

definition HashSet_contains :: "('a \<Rightarrow> uint32) \<Rightarrow> 'a \<Rightarrow> ('a, HashIndex) Table \<Rightarrow> bool outcome" where
  "HashSet_contains hashCode x s =
     (case table_find [HashIndex_ops (\<lambda>row. row) hashCode] 0 x s of
        Inl e \<Rightarrow> Inl e
      | Inr r \<Rightarrow> Inr (r \<noteq> None))"

section \<open>The map as a partial function\<close>

definition toMap :: "('key, 'val) HashMap \<Rightarrow> 'key \<rightharpoonup> 'val" where
  "toMap m = map_of (map (\<lambda>e. (entry_key e, entry_value e)) (rows m))"

definition mapValid :: "('key \<Rightarrow> uint32) \<Rightarrow> ('key, 'val) HashMap \<Rightarrow> bool" where
  "mapValid hashCode m \<longleftrightarrow> hashTableValid [(entry_key, hashCode)] m"

lemma map_index_specs: "map_index hc = map fst (hashSpecs [(entry_key, hc)])"
  by (simp add: map_index_def hashSpecs_def)

lemma length_mapSpecs: "0 < length (hashSpecs [(entry_key, hc)])"
  by (simp add: hashSpecs_def)

lemma mapSpecs_key: "ix_keyForRow (fst (hashSpecs [(entry_key, hc)] ! 0)) = entry_key"
  by (simp add: hashSpecs_def)

lemma mapValid_table: "mapValid hc m \<longleftrightarrow> tableValid (hashSpecs [(entry_key, hc)]) m"
  by (simp add: mapValid_def hashTableValid_def)

lemma mapValid_new: "mapValid hc HashMap_new"
  using hashTableValid_new [of "[(entry_key, hc)]"] by (simp add: mapValid_def hashTable_new_def HashMap_new_def)

lemma mapValid_distinct: "mapValid hc m \<Longrightarrow> distinct (map entry_key (rows m))"
  using hashTableValid_distinct [of "[(entry_key, hc)]" m] by (simp add: mapValid_def)

lemma toMap_Some:
  "mapValid hc m \<Longrightarrow> toMap m k = Some v \<longleftrightarrow> \<lparr>entry_key = k, entry_value = v\<rparr> \<in> set (rows m)"
proof -
  assume "mapValid hc m"
  then have "distinct (map fst (map (\<lambda>e. (entry_key e, entry_value e)) (rows m)))"
    using mapValid_distinct [of hc m] by (simp add: comp_def)
  then have "toMap m k = Some v \<longleftrightarrow> (k, v) \<in> (\<lambda>e. (entry_key e, entry_value e)) ` set (rows m)"
    by (simp add: toMap_def)
  also have "\<dots> \<longleftrightarrow> (\<exists>e \<in> set (rows m). e = \<lparr>entry_key = k, entry_value = v\<rparr>)"
  proof -
    have "(k, v) = (entry_key e, entry_value e) \<longleftrightarrow> e = \<lparr>entry_key = k, entry_value = v\<rparr>"
      for e
      by (cases e) auto
    then show ?thesis by (simp only: image_iff)
  qed
  finally show ?thesis by simp
qed

lemma toMap_eqI:
  assumes "mapValid hc m" and "\<And>k v. \<lparr>entry_key = k, entry_value = v\<rparr> \<in> set (rows m) \<longleftrightarrow> f k = Some v"
  shows "toMap m = f"
proof
  fix k
  have "toMap m k = Some v \<longleftrightarrow> f k = Some v" for v using toMap_Some [OF assms(1)] assms(2) by blast
  then show "toMap m k = f k" by (cases "toMap m k") (metis option.exhaust)+
qed

lemma toMap_None: "toMap m k = None \<longleftrightarrow> k \<notin> entry_key ` set (rows m)"
  by (auto simp: toMap_def map_of_eq_None_iff image_image)

lemma mapValid_same_key:
  assumes "mapValid hc m" and "e \<in> set (rows m)" and "e' \<in> set (rows m)" and "entry_key e = entry_key e'"
  shows "e = e'"
  using mapValid_distinct [OF assms(1)] assms(2-4) by (simp add: distinct_map inj_on_def)

lemma toMap_append:
  assumes "mapValid hc m'" and "rows m' = rows m @ [\<lparr>entry_key = k, entry_value = v\<rparr>]" and "mapValid hc m"
  shows "toMap m k = None" and "toMap m' = (toMap m)(k \<mapsto> v)"
proof -
  have "k \<notin> entry_key ` set (rows m)" using mapValid_distinct [OF assms(1)] assms(2) by simp
  then show none: "toMap m k = None" by (simp add: toMap_None)
  show "toMap m' = (toMap m)(k \<mapsto> v)"
  proof (rule toMap_eqI [OF assms(1)])
    fix k' v'
    have "toMap m k' = Some v' \<longleftrightarrow> \<lparr>entry_key = k', entry_value = v'\<rparr> \<in> set (rows m)" by (rule toMap_Some [OF assms(3)])
    then show "\<lparr>entry_key = k', entry_value = v'\<rparr> \<in> set (rows m') \<longleftrightarrow> ((toMap m)(k \<mapsto> v)) k' = Some v'"
      using none assms(2) by auto
  qed
qed

lemma HashMap_insert_cases:
  assumes "mapValid hc m" and "HashMap_size m < maxRows"
  shows "case HashMap_insert hc k v m of
      (Inr pos, m') \<Rightarrow> toMap m k = None \<and> mapValid hc m' \<and> toMap m' = (toMap m)(k \<mapsto> v) \<and>
        HashMap_size m' = HashMap_size m + 1
    | (Inl e, m') \<Rightarrow> e = DuplicateRow \<and> toMap m k \<noteq> None \<and> mapValid hc m' \<and> HashMap_size m' = HashMap_size m \<and>
        toMap m' = toMap m"
proof -
  have tv: "tableValid (hashSpecs [(entry_key, hc)]) m" using assms(1) by (simp add: mapValid_table)
  then show ?thesis
  proof (cases rule: hash_table.table_insert_cases [where row = "\<lparr>entry_key = k, entry_value = v\<rparr>"])
    case (Failed e ixs)
    then show ?thesis using assms(2)
      by (auto simp: HashMap_insert_def map_index_specs mapValid_table HashMap_size_def toMap_None hashSpecs_def) (simp_all add: toMap_def)
  next
    case (Inserted m')
    then have "mapValid hc m'" by (simp add: mapValid_table)
    from toMap_append [OF this Inserted(3) assms(1)] this show ?thesis using Inserted
      by (simp add: HashMap_insert_def map_index_specs HashMap_size_def)
  qed
qed

lemma HashMap_upsertWith_cases:
  assumes "mapValid hc m" and "HashMap_size m < maxRows"
  shows "case HashMap_upsertWith hc f k v m of
      (Inr pos, m') \<Rightarrow> mapValid hc m' \<and> HashMap_size m' \<le> HashMap_size m + 1 \<and>
        toMap m' = (toMap m)(k \<mapsto> (case toMap m k of None \<Rightarrow> v | Some old \<Rightarrow> f old v))
    | (Inl e, m') \<Rightarrow> False"
proof -
  let ?new = "\<lparr>entry_key = k, entry_value = v\<rparr>"
  let ?upd = "\<lambda>existingEntry newEntry.
    existingEntry\<lparr>entry_value := f (entry_value existingEntry) (entry_value newEntry)\<rparr>"
  have keep: "\<forall>(op, valid) \<in> set (hashSpecs [(entry_key, hc)]). \<forall>old. ix_keyForRow op (?upd old ?new) = ix_keyForRow op old"
    by (simp add: hashSpecs_def)
  have up: "HashMap_upsertWith hc f k v m = table_upsert (map fst (hashSpecs [(entry_key, hc)])) ?upd ?new m"
    by (simp add: HashMap_upsertWith_def map_index_specs)
  have tv: "tableValid (hashSpecs [(entry_key, hc)]) m" using assms(1) by (simp add: mapValid_table)
  from tv keep show ?thesis
  proof (cases rule: hash_table.table_upsert_cases)
    case (Failed ixs)
    then show ?thesis using assms(2) by (simp add: HashMap_size_def)
  next
    case (Inserted m')
    then have "mapValid hc m'" by (simp add: mapValid_table)
    from toMap_append [OF this Inserted(3) assms(1)] this show ?thesis using Inserted up
      by (simp add: HashMap_size_def mapValid_table)
  next
    case (Updated p m')
    obtain old where p: "p < length (rows m)" "rows m ! p = \<lparr>entry_key = k, entry_value = old\<rparr>"
      using Updated(3,4) by (cases "rows m ! p") (auto simp: hashSpecs_def)
    have m': "mapValid hc m'" using Updated(2) by (simp add: mapValid_table)
    have old: "toMap m k = Some old" using toMap_Some [OF assms(1)] p by (metis nth_mem)
    have rows: "rows m' = (rows m)[p := \<lparr>entry_key = k, entry_value = f old v\<rparr>]" using Updated(5) p(2) by simp
    have d: "distinct (rows m)" using mapValid_distinct [OF assms(1)] by (simp add: distinct_map)
    have "toMap m' = (toMap m)(k \<mapsto> f old v)"
    proof (rule toMap_eqI [OF m'])
      fix k' v'
      show "\<lparr>entry_key = k', entry_value = v'\<rparr> \<in> set (rows m') \<longleftrightarrow> ((toMap m)(k \<mapsto> f old v)) k' = Some v'"
        using toMap_Some [OF assms(1), of k' v'] toMap_Some [OF assms(1), of k v'] old p
        by (auto simp: rows set_update_distinct [OF d p(1)])
    qed
    then show ?thesis using Updated(1) up m' old rows by (simp add: HashMap_size_def)
  qed
qed

lemma entry_eta [simp]: "\<lparr>entry_key = entry_key e, entry_value = entry_value e\<rparr> = e"
  by (cases e) simp

lemma HashMap_upsert_With: "HashMap_upsert hc k v m = HashMap_upsertWith hc (\<lambda>old new. new) k v m"
  by (simp add: HashMap_upsert_def HashMap_upsertWith_def)

lemma toMap_in: "mapValid hc m \<Longrightarrow> e \<in> set (rows m) \<Longrightarrow> toMap m (entry_key e) = Some (entry_value e)"
  using toMap_Some [of hc m "entry_key e" "entry_value e"] by simp

lemma find_entry:
  assumes "mapValid hc m"
  shows "map_option entry_value (List.find (\<lambda>e. entry_key e = k) (rows m)) = toMap m k"
proof (cases "List.find (\<lambda>e. entry_key e = k) (rows m)")
  case None
  then show ?thesis using toMap_None [of m k] by (force simp: find_None_iff)
next
  case (Some e)
  then have "e \<in> set (rows m)" "entry_key e = k" by (auto simp: find_Some_iff)
  then have "toMap m k = Some (entry_value e)" using toMap_in [OF assms] by blast
  then show ?thesis using Some by simp
qed

lemma HashMap_findEntry_correct:
  assumes "mapValid hc m"
  shows "HashMap_findEntry hc k m = Inr (List.find (\<lambda>e. entry_key e = k) (rows m))"
  using hash_table.table_find_correct [OF assms [unfolded mapValid_table] length_mapSpecs, of k]
  by (simp add: HashMap_findEntry_def map_index_specs mapSpecs_key)

lemma HashMap_find_correct: "mapValid hc m \<Longrightarrow> HashMap_find hc k m = Inr (toMap m k)"
  using HashMap_findEntry_correct [of hc m k] by (simp add: HashMap_find_def HashMap_findEntry_def find_entry)

lemma toMap_restrict:
  assumes "mapValid hc m" and "mapValid hc m'" and "mset (rows m') = mset (filter P (rows m))"
  shows "toMap m' = (\<lambda>k. case toMap m k of None \<Rightarrow> None
    | Some v \<Rightarrow> if P \<lparr>entry_key = k, entry_value = v\<rparr> then Some v else None)"
proof (rule toMap_eqI [OF assms(2)])
  fix k v
  have "set (rows m') = {e \<in> set (rows m). P e}" using mset_eq_setD [OF assms(3)] by simp
  moreover have "\<lparr>entry_key = k, entry_value = v\<rparr> \<in> set (rows m) \<longleftrightarrow> toMap m k = Some v"
    by (simp add: toMap_Some [OF assms(1)])
  ultimately show "\<lparr>entry_key = k, entry_value = v\<rparr> \<in> set (rows m') \<longleftrightarrow>
    (case toMap m k of None \<Rightarrow> None | Some v \<Rightarrow> if P \<lparr>entry_key = k, entry_value = v\<rparr> then Some v else None) = Some v"
    by (cases "toMap m k") auto
qed

lemma HashMap_erase_correct:
  assumes "mapValid hc m"
  shows "\<exists>m'. HashMap_erase hc k m = Inr (toMap m k \<noteq> None, m', False) \<and> mapValid hc m' \<and>
    toMap m' = (toMap m)(k := None) \<and> HashMap_size m' \<le> HashMap_size m"
proof -
  note tm = hash_table.table_eraseMatch_correct [OF assms [unfolded mapValid_table] length_mapSpecs, of k,
      unfolded mapSpecs_key, folded map_index_specs, folded HashMap_erase_def, folded mapValid_table]
  show ?thesis
  proof (cases "List.find (\<lambda>e. entry_key e = k) (rows m)")
    case None
    then have "toMap m k = None" using find_entry [OF assms, of k] by simp
    then show ?thesis using tm None assms by (auto simp: fun_eq_iff)
  next
    case (Some e)
    obtain m' where m': "HashMap_erase hc k m = Inr (True, m', False)" "mapValid hc m'"
      "mset (rows m') = mset (rows m) - {#e#}" using tm Some by auto
    have e: "e \<in> set (rows m)" "entry_key e = k" using Some by (auto simp: find_Some_iff)
    have d: "distinct (rows m)" using mapValid_distinct [OF assms] by (simp add: distinct_map)
    have "mset (rows m') = mset (filter (\<lambda>e'. entry_key e' \<noteq> k) (rows m))"
    proof -
      have "mset (rows m') = mset (remove1 e (rows m))" using m'(3) by simp
      also have "remove1 e (rows m) = filter (\<lambda>e'. e' \<noteq> e) (rows m)"
        using d by (simp add: distinct_remove1_removeAll removeAll_filter_not_eq) (metis (full_types))
      also have "\<dots> = filter (\<lambda>e'. entry_key e' \<noteq> k) (rows m)"
        using mapValid_same_key [OF assms _ e(1)] e(2) by (intro filter_cong) auto
      finally show ?thesis .
    qed
    from toMap_restrict [OF assms m'(2) this] have "toMap m' = (toMap m)(k := None)"
      by (auto simp: fun_eq_iff split: option.splits)
    moreover have "length (rows m') \<le> length (rows m)" using m'(3) by (metis diff_subset_eq_self size_mset size_mset_mono)
    moreover have "toMap m k = Some (entry_value e)" using find_entry [OF assms, of k, symmetric] Some by simp
    ultimately show ?thesis using m' by (auto simp: HashMap_size_def)
  qed
qed

lemma HashMap_eraseAll_correct:
  assumes "mapValid hc m"
  shows "\<exists>m'. HashMap_eraseAll hc P m = Inr (card {k. \<exists>v. toMap m k = Some v \<and> P k v}, m', False) \<and> mapValid hc m' \<and>
    toMap m' = (\<lambda>k. case toMap m k of None \<Rightarrow> None | Some v \<Rightarrow> if P k v then None else Some v) \<and>
    HashMap_size m' \<le> HashMap_size m"
proof -
  let ?P = "\<lambda>e. P (entry_key e) (entry_value e)"
  obtain m' where m': "HashMap_eraseAll hc P m = Inr (length (filter ?P (rows m)), m', False)" "mapValid hc m'"
    "mset (rows m') = mset (filter (\<lambda>e. \<not> ?P e) (rows m))"
    using hash_table.table_eraseAll_correct [OF assms [unfolded mapValid_table], of ?P]
    by (auto simp: HashMap_eraseAll_def map_index_specs mapValid_table)
  have "{k. \<exists>v. toMap m k = Some v \<and> P k v} = entry_key ` set (filter ?P (rows m))"
  proof -
    have "k \<in> entry_key ` set (filter ?P (rows m)) \<longleftrightarrow> (\<exists>v. \<lparr>entry_key = k, entry_value = v\<rparr> \<in> set (rows m) \<and> P k v)" for k
    proof
      assume "k \<in> entry_key ` set (filter ?P (rows m))"
      then obtain e where "e \<in> set (rows m)" "?P e" "entry_key e = k" by auto
      then show "\<exists>v. \<lparr>entry_key = k, entry_value = v\<rparr> \<in> set (rows m) \<and> P k v"
        by (intro exI [of _ "entry_value e"]) auto
    qed force
    then show ?thesis using toMap_Some [OF assms] by auto
  qed
  moreover have "distinct (map entry_key (filter ?P (rows m)))"
    using mapValid_distinct [OF assms] by (rule distinct_map_filter)
  ultimately have "card {k. \<exists>v. toMap m k = Some v \<and> P k v} = length (filter ?P (rows m))"
    using distinct_card [of "map entry_key (filter ?P (rows m))"] by (simp only: set_map length_map)
  moreover have "toMap m' = (\<lambda>k. case toMap m k of None \<Rightarrow> None | Some v \<Rightarrow> if P k v then None else Some v)"
    using toMap_restrict [OF assms m'(2,3)] by (auto simp: fun_eq_iff split: option.splits)
  moreover have "length (rows m') = length (filter (\<lambda>e. \<not> ?P e) (rows m))"
    using m'(3) by (rule mset_eq_length)
  then have "length (rows m') \<le> length (rows m)" by (metis length_filter_le)
  ultimately show ?thesis using m' by (auto simp: HashMap_size_def)
qed

lemma HashMap_clear_correct:
  "mapValid hc m \<Longrightarrow> mapValid hc (HashMap_clear hc m) \<and> toMap (HashMap_clear hc m) = Map.empty \<and>
   HashMap_size (HashMap_clear hc m) = 0"
  using hash_table.table_clear_correct [of "[(entry_key, hc)]" m]
  by (simp add: HashMap_clear_def mapValid_table map_index_specs table_clear_def toMap_def HashMap_size_def)

lemma HashMap_findOrCreate_correct:
  assumes "mapValid hc m" and "HashMap_size m + 1 < maxRows" and "\<forall>e. created = Some e \<longrightarrow> entry_key e = k"
  shows "case HashMap_findOrCreate hc k created m of
      (Inr v, m') \<Rightarrow> mapValid hc m' \<and> HashMap_size m' \<le> HashMap_size m + 1 \<and> toMap m' = (toMap m)(k \<mapsto> v) \<and>
        (toMap m k = Some v \<or> toMap m k = None \<and> created = Some \<lparr>entry_key = k, entry_value = v\<rparr>)
    | (Inl e, m') \<Rightarrow> e = CreateFailed \<and> toMap m k = None \<and> created = None \<and> mapValid hc m' \<and>
        HashMap_size m' = HashMap_size m \<and> toMap m' = toMap m"
proof -
  have tv: "tableValid (hashSpecs [(entry_key, hc)]) m" using assms(1) by (simp add: mapValid_table)
  have key: "\<forall>e. created = Some e \<longrightarrow> ix_keyForRow (fst (hashSpecs [(entry_key, hc)] ! 0)) e = k"
    using assms(3) by (simp add: mapSpecs_key)
  show ?thesis
  proof (cases rule: hash_table.table_findOrCreate_cases [OF tv length_mapSpecs key])
    case (1 e m')
    have "\<not> maxRows \<le> length (rows m) + 1" using assms(2) by (simp add: HashMap_size_def)
    moreover have "toMap m' = toMap m" using 1(3) by (simp add: toMap_def)
    ultimately show ?thesis using 1
      by (auto simp: HashMap_findOrCreate_def map_index_specs mapValid_table toMap_None mapSpecs_key
          hashSpecs_def HashMap_size_def)
  next
    case (2 p m')
    then have e: "rows m ! p \<in> set (rows m)" "entry_key (rows m ! p) = k" by (simp_all add: mapSpecs_key)
    then have old: "toMap m k = Some (entry_value (rows m ! p))"
      using toMap_in [OF assms(1)] by blast
    have "toMap m' = toMap m" using 2(3) by (simp add: toMap_def)
    then show ?thesis using 2 old by (simp add: HashMap_findOrCreate_def map_index_specs mapValid_table HashMap_size_def fun_upd_idem)
  next
    case (3 row m')
    then have row: "row = \<lparr>entry_key = k, entry_value = entry_value row\<rparr>" using assms(3) by (cases row) auto
    have m': "mapValid hc m'" using 3(3) by (simp add: mapValid_table)
    have "rows m' = rows m @ [\<lparr>entry_key = k, entry_value = entry_value row\<rparr>]" using 3(4) row by simp
    from toMap_append [OF m' this assms(1)] row m' show ?thesis using 3
      by (simp add: HashMap_findOrCreate_def map_index_specs HashMap_size_def nth_append)
  qed
qed

section \<open>A map against its specification\<close>

text \<open>
  What a client may do with a map, and what it sees. The specification answers from a partial function;
  the last field of an erasure says whether the index logged an inconsistency.
\<close>

datatype ('key, 'val) command =
  Insert 'key 'val
| Upsert 'key 'val
| UpsertWith "'val \<Rightarrow> 'val \<Rightarrow> 'val" 'key 'val
| Find 'key
| FindOrCreate 'key "'val option"
| Erase 'key
| EraseAll "'key \<Rightarrow> 'val \<Rightarrow> bool"
| Clear

datatype 'val reply = Done | Thrown table_error | Lookup "'val option" | Created 'val | Erased bool bool | Count nat bool

fun map_step ::
    "('key \<Rightarrow> uint32) \<Rightarrow> ('key, 'val) command \<Rightarrow> ('key, 'val) HashMap \<Rightarrow> 'val reply \<times> ('key, 'val) HashMap" where
  "map_step hc (Insert k v) m =
     (case HashMap_insert hc k v m of (Inl e, m') \<Rightarrow> (Thrown e, m') | (Inr _, m') \<Rightarrow> (Done, m'))"
| "map_step hc (Upsert k v) m =
     (case HashMap_upsert hc k v m of (Inl e, m') \<Rightarrow> (Thrown e, m') | (Inr _, m') \<Rightarrow> (Done, m'))"
| "map_step hc (UpsertWith f k v) m =
     (case HashMap_upsertWith hc f k v m of (Inl e, m') \<Rightarrow> (Thrown e, m') | (Inr _, m') \<Rightarrow> (Done, m'))"
| "map_step hc (Find k) m = (case HashMap_find hc k m of Inl e \<Rightarrow> (Thrown e, m) | Inr r \<Rightarrow> (Lookup r, m))"
| "map_step hc (FindOrCreate k created) m =
     (case HashMap_findOrCreate hc k (map_option (\<lambda>v. \<lparr>entry_key = k, entry_value = v\<rparr>) created) m of
        (Inl e, m') \<Rightarrow> (Thrown e, m')
      | (Inr v, m') \<Rightarrow> (Created v, m'))"
| "map_step hc (Erase k) m =
     (case HashMap_erase hc k m of Inl e \<Rightarrow> (Thrown e, m) | Inr (found, m', logged) \<Rightarrow> (Erased found logged, m'))"
| "map_step hc (EraseAll P) m =
     (case HashMap_eraseAll hc P m of Inl e \<Rightarrow> (Thrown e, m) | Inr (n, m', logged) \<Rightarrow> (Count n logged, m'))"
| "map_step hc Clear m = (Done, HashMap_clear hc m)"

fun spec_step :: "('key, 'val) command \<Rightarrow> ('key \<rightharpoonup> 'val) \<Rightarrow> 'val reply \<times> ('key \<rightharpoonup> 'val)" where
  "spec_step (Insert k v) f = (if f k = None then (Done, f(k \<mapsto> v)) else (Thrown DuplicateRow, f))"
| "spec_step (Upsert k v) f = (Done, f(k \<mapsto> v))"
| "spec_step (UpsertWith g k v) f = (Done, f(k \<mapsto> (case f k of None \<Rightarrow> v | Some old \<Rightarrow> g old v)))"
| "spec_step (Find k) f = (Lookup (f k), f)"
| "spec_step (FindOrCreate k created) f =
     (case f k of
        Some v \<Rightarrow> (Created v, f)
      | None \<Rightarrow> (case created of None \<Rightarrow> (Thrown CreateFailed, f) | Some v \<Rightarrow> (Created v, f(k \<mapsto> v))))"
| "spec_step (Erase k) f = (Erased (f k \<noteq> None) False, f(k := None))"
| "spec_step (EraseAll P) f =
     (Count (card {k. \<exists>v. f k = Some v \<and> P k v}) False,
      \<lambda>k. case f k of None \<Rightarrow> None | Some v \<Rightarrow> if P k v then None else Some v)"
| "spec_step Clear f = (Done, Map.empty)"

fun map_run :: "('key \<Rightarrow> uint32) \<Rightarrow> ('key, 'val) command list \<Rightarrow> ('key, 'val) HashMap \<Rightarrow> 'val reply list" where
  "map_run hc [] m = []"
| "map_run hc (c # cs) m = (case map_step hc c m of (r, m') \<Rightarrow> r # map_run hc cs m')"

fun spec_run :: "('key, 'val) command list \<Rightarrow> ('key \<rightharpoonup> 'val) \<Rightarrow> 'val reply list" where
  "spec_run [] f = []"
| "spec_run (c # cs) f = (case spec_step c f of (r, f') \<Rightarrow> r # spec_run cs f')"

lemma map_step_refines:
  assumes "mapValid hc m" and "HashMap_size m + 1 < maxRows"
  shows "spec_step c (toMap m) = (fst (map_step hc c m), toMap (snd (map_step hc c m))) \<and>
    mapValid hc (snd (map_step hc c m)) \<and> HashMap_size (snd (map_step hc c m)) \<le> HashMap_size m + 1"
proof (cases c)
  have lt: "HashMap_size m < maxRows" using assms(2) by simp
  case (Insert k v)
  then show ?thesis using HashMap_insert_cases [OF assms(1) lt, where k = k and v = v]
    by (cases "HashMap_insert hc k v m"; cases "fst (HashMap_insert hc k v m)") auto
next
  have lt: "HashMap_size m < maxRows" using assms(2) by simp
  case (Upsert k v)
  then show ?thesis using HashMap_upsertWith_cases [OF assms(1) lt, where f = "\<lambda>old new. new" and k = k and v = v]
    unfolding Upsert map_step.simps HashMap_upsert_With
    by (cases "HashMap_upsertWith hc (\<lambda>old new. new) k v m"; cases "fst (HashMap_upsertWith hc (\<lambda>old new. new) k v m)")
      (auto split: option.splits)
next
  have lt: "HashMap_size m < maxRows" using assms(2) by simp
  case (UpsertWith f k v)
  then show ?thesis using HashMap_upsertWith_cases [OF assms(1) lt, where f = f and k = k and v = v]
    by (cases "HashMap_upsertWith hc f k v m"; cases "fst (HashMap_upsertWith hc f k v m)") auto
next
  case (Find k)
  then show ?thesis using HashMap_find_correct [OF assms(1), of k] assms(1) by simp
next
  case (FindOrCreate k created)
  let ?created = "map_option (\<lambda>v. \<lparr>entry_key = k, entry_value = v\<rparr>) created"
  have "\<forall>e. ?created = Some e \<longrightarrow> entry_key e = k" by auto
  note c = HashMap_findOrCreate_correct [OF assms this]
  show ?thesis using c FindOrCreate
    by (cases "HashMap_findOrCreate hc k ?created m"; cases "fst (HashMap_findOrCreate hc k ?created m)")
      (auto simp: fun_upd_idem)
next
  case (Erase k)
  then show ?thesis using HashMap_erase_correct [OF assms(1), of k] by auto
next
  case (EraseAll P)
  then show ?thesis using HashMap_eraseAll_correct [OF assms(1), of P] by auto
next
  case Clear
  then show ?thesis using HashMap_clear_correct [OF assms(1)] by simp
qed

lemma map_run_refines:
  "mapValid hc m \<Longrightarrow> HashMap_size m + length cs < maxRows \<Longrightarrow> map_run hc cs m = spec_run cs (toMap m)"
proof (induction cs arbitrary: m)
  case (Cons c cs)
  have "HashMap_size m + 1 < maxRows" using Cons.prems(2) by simp
  note s = map_step_refines [OF Cons.prems(1) this, of c]
  obtain r m' where rm: "map_step hc c m = (r, m')" by (cases "map_step hc c m")
  have "map_run hc cs m' = spec_run cs (toMap m')" using s rm Cons.prems(2) by (intro Cons.IH) auto
  then show ?case using s rm by simp
qed simp

text \<open>
  C6. A hash map answers every sequence of insertions, updates, lookups, erasures and clearings as a
  partial function would, whatever the hash function is: no key is lost or found twice, an insertion of
  a key that is there is refused, no probing loop fails to end and no inconsistency of the index is logged.
  The bound is the number of rows at which \<open>rehash\<close> refuses to grow.
\<close>

theorem hashMap_refines_map:
  assumes "length commands < maxRows"
  shows "map_run hashCode commands HashMap_new = spec_run commands Map.empty"
  using map_run_refines [OF mapValid_new, of commands] assms
  by (simp add: HashMap_size_def HashMap_new_def toMap_def)

theorem hashMap_refines_map_witness:
  "map_run (\<lambda>k. 3) [Insert 1 ''a'', Insert 2 ''b'', Insert 1 ''c'', Erase 1, Find 2, Upsert 2 ''d'', Find 1]
     (HashMap_new :: (nat, string) HashMap) =
   [Done, Done, Thrown DuplicateRow, Erased True False, Lookup (Some ''b''), Done, Lookup None]"
  using hashMap_refines_map [of "[Insert (1 :: nat) ''a'', Insert 2 ''b'', Insert 1 ''c'', Erase 1, Find 2, Upsert 2 ''d'', Find 1]"
      "\<lambda>k. 3"]
  by (simp add: maxRows_def)

section \<open>The symbol table\<close>

record Symbol =
  symbol_name :: string
  symbol_type :: string

type_synonym SymbolTable = "(string, Symbol) HashMap"

definition SymbolTable_Insert :: "string \<Rightarrow> Symbol \<Rightarrow> SymbolTable \<Rightarrow> nat outcome \<times> SymbolTable" where
  "SymbolTable_Insert name symbol symbols = HashMap_insert hashString name symbol symbols"

text \<open>\<open>nullptr\<close> is \<open>None\<close>.\<close>

definition SymbolTable_Lookup :: "string \<Rightarrow> SymbolTable \<Rightarrow> Symbol option outcome" where
  "SymbolTable_Lookup name symbols = HashMap_find hashString name symbols"

definition symbolsValid :: "SymbolTable \<Rightarrow> bool" where
  "symbolsValid symbols \<longleftrightarrow> mapValid hashString symbols"

section \<open>Properties\<close>

text \<open>
  C34. A row that one of the indexes of a table refuses, because it has a row with the same key or is at
  its maximum size, leaves no trace: the rows are those from before and every index, also those that had
  noted the row already, is valid for them. A row is inserted if its keys are new in every index.
\<close>

theorem table_insert_rolls_back:
  assumes "hashTableValid ks t" and "table_insert (HashIndexes ks) row t = (r, t')"
  shows "hashTableValid ks t' \<and>
    (case r of
       Inl e \<Rightarrow> rows t' = rows t \<and>
         (e = DuplicateRow \<and> (\<exists>(k, hc) \<in> set ks. k row \<in> k ` set (rows t)) \<or>
          e = TooBig \<and> maxRows \<le> length (rows t))
     | Inr pos \<Rightarrow> rows t' = rows t @ [row] \<and> pos = length (rows t) \<and>
         (\<forall>(k, hc) \<in> set ks. k row \<notin> k ` set (rows t)))"
proof -
  have v: "tableValid (hashSpecs ks) t" using assms(1) by (simp only: hashTableValid_def)
  then show ?thesis
  proof (cases rule: hash_table.table_insert_cases [where row = row])
    case (Failed e ixs)
    have "(\<exists>(op, valid) \<in> set (hashSpecs ks). ix_keyForRow op row \<in> ix_keyForRow op ` set (rows t)) \<longleftrightarrow>
      (\<exists>(k, hc) \<in> set ks. k row \<in> k ` set (rows t))"
      by (simp add: hashSpecs_def split_beta)
    moreover have "r = Inl e" "t' = t\<lparr>indexes := ixs\<rparr>" using assms(2) Failed(1) by (simp_all add: hashSpecs_ops)
    ultimately show ?thesis using Failed(2,3) by (simp add: hashTableValid_def)
  next
    case (Inserted t'')
    have r: "r = Inr (length (rows t))" "t' = t''" using assms(2) Inserted(1) by (simp_all add: hashSpecs_ops)
    have "distinct (map k (rows t @ [row]))" if "(k, hc) \<in> set ks" for k hc
      using hashTableValid_distinct [of ks t'' k hc] Inserted(2,3) that by (simp add: hashTableValid_def)
    then show ?thesis using Inserted(2,3) r by (auto simp: hashTableValid_def)
  qed
qed

text \<open>A row whose second key is taken is not left in the first index.\<close>

theorem table_insert_rolls_back_witness:
  "\<exists>t. hashTableValid [(fst, word_of_nat), (snd, word_of_nat)] t \<and> rows t = [(1, 2)] \<and>
     rows (snd (table_insert (HashIndexes [(fst, word_of_nat), (snd, word_of_nat)]) (3, 2) t)) = [(1, 2 :: nat)] \<and>
     fst (table_insert (HashIndexes [(fst, word_of_nat), (snd, word_of_nat)]) (3, 2) t) = Inl DuplicateRow"
proof -
  let ?ks = "[(fst, word_of_nat), (snd, word_of_nat)] :: (((nat \<times> nat) \<Rightarrow> nat) \<times> (nat \<Rightarrow> uint32)) list"
  obtain r t where rt: "table_insert (HashIndexes ?ks) (1, 2) (hashTable_new ?ks) = (r, t)" by fastforce
  have t: "hashTableValid ?ks t" "rows t = [(1, 2)]"
    using table_insert_rolls_back [OF hashTableValid_new rt]
    by (auto simp: hashTable_new_def maxRows_def split: sum.splits)
  obtain r' t' where "table_insert (HashIndexes ?ks) (3, 2) t = (r', t')" by fastforce
  moreover from table_insert_rolls_back [OF t(1) this] have "rows t' = [(1, 2)]" "r' = Inl DuplicateRow"
    using t(2) by (auto simp: maxRows_def split: sum.splits)
  ultimately show ?thesis using t by (intro exI [of _ t]) simp
qed

text \<open>
  \<open>eraseAll\<close> of a collection of rows erases just these rows. The numbers of the rows are turned into
  erasures first, each of which moves the last row: the loop that follows a row to where it
  will be by then ends, and finds it. Every index stays valid, and none logs an inconsistency.
\<close>

theorem table_eraseAll_rows:
  assumes "hashTableValid ks t" and "distinct collection" and "set collection \<subseteq> {..<length (rows t)}"
  shows "\<exists>t'. table_eraseAllImpl (HashIndexes ks) collection t = Inr (length collection, t', False) \<and>
    hashTableValid ks t' \<and> mset (rows t') = mset (nths (rows t) (- set collection))"
  using hash_table.table_eraseAllImpl_correct [of ks t collection] assms
  by (simp add: hashTableValid_def hashSpecs_ops)

theorem table_eraseAll_rows_witness:
  "\<exists>t. hashTableValid [(\<lambda>x. x, word_of_nat)] t \<and> rows t = [10, 11, 12, 13 :: nat] \<and>
     (\<exists>t'. table_eraseAllImpl (HashIndexes [(\<lambda>x. x, word_of_nat)]) [0, 3] t = Inr (2, t', False) \<and>
        mset (rows t') = {#11, 12#})"
proof -
  let ?ks = "[(\<lambda>x. x, word_of_nat)] :: ((nat \<Rightarrow> nat) \<times> (nat \<Rightarrow> uint32)) list"
  obtain r t where rt: "insertRows (HashIndexes ?ks) [10, 11, 12, 13] (hashTable_new ?ks) = (r, t)" by fastforce
  have "tableValid (hashSpecs ?ks) (hashTable_new ?ks)"
    using hashTableValid_new [of ?ks] by (simp only: hashTableValid_def)
  from hash_table.insertRows_correct [OF this, of "[10, 11, 12, 13]", unfolded hashSpecs_ops rt]
  have t: "hashTableValid ?ks t" "rows t = [10, 11, 12, 13]"
    by (auto simp: hashTableValid_def hashTable_new_def keysDistinct_def hashSpecs_def maxRows_def split: sum.splits)
  from table_eraseAll_rows [OF t(1), of "[0, 3]"] t show ?thesis
    by (auto simp: nths_def numeral_eq_Suc lessThan_Suc)
qed

text \<open>
  Once a symbol is inserted under a name that is new, it is what the name looks up, and every other name
  looks up what it did; an insertion under a name that is taken throws and changes no lookup.
\<close>

theorem symbolTable_lookup:
  assumes "symbolsValid symbols" and "length (rows symbols) < maxRows"
    and "SymbolTable_Insert name symbol symbols = (r, symbols')"
  shows "symbolsValid symbols' \<and>
    (if SymbolTable_Lookup name symbols = Inr None
     then (\<exists>pos. r = Inr pos) \<and>
       (\<forall>n. SymbolTable_Lookup n symbols' = (if n = name then Inr (Some symbol) else SymbolTable_Lookup n symbols))
     else r = Inl DuplicateRow \<and> (\<forall>n. SymbolTable_Lookup n symbols' = SymbolTable_Lookup n symbols))"
proof -
  have v: "mapValid hashString symbols" using assms(1) by (simp add: symbolsValid_def)
  have "HashMap_size symbols < maxRows" using assms(2) by (simp add: HashMap_size_def)
  note c = HashMap_insert_cases [OF v this, of name symbol]
  have ins: "HashMap_insert hashString name symbol symbols = (r, symbols')"
    using assms(3) by (simp add: SymbolTable_Insert_def)
  have find: "mapValid hashString s \<Longrightarrow> SymbolTable_Lookup n s = Inr (toMap s n)" for n s
    by (simp add: SymbolTable_Lookup_def HashMap_find_correct)
  show ?thesis using c v unfolding ins by (cases r) (simp_all add: find symbolsValid_def)
qed

theorem symbolTable_lookup_witness:
  "SymbolTable_Lookup ''x'' (snd (SymbolTable_Insert ''x'' \<lparr>symbol_name = ''x'', symbol_type = ''i32''\<rparr> HashMap_new)) =
     Inr (Some \<lparr>symbol_name = ''x'', symbol_type = ''i32''\<rparr>) \<and>
   SymbolTable_Lookup ''y'' (snd (SymbolTable_Insert ''x'' \<lparr>symbol_name = ''x'', symbol_type = ''i32''\<rparr> HashMap_new)) =
     Inr None"
proof -
  let ?s = "\<lparr>symbol_name = ''x'', symbol_type = ''i32''\<rparr>"
  obtain r symbols where ins: "SymbolTable_Insert ''x'' ?s HashMap_new = (r, symbols)" by fastforce
  have "symbolsValid HashMap_new" by (simp add: symbolsValid_def mapValid_new)
  moreover have "SymbolTable_Lookup n HashMap_new = Inr None" for n
    unfolding SymbolTable_Lookup_def HashMap_find_correct [OF mapValid_new] by (simp add: toMap_def HashMap_new_def)
  ultimately show ?thesis
    using symbolTable_lookup [OF _ _ ins] ins by (simp add: HashMap_new_def maxRows_def)
qed

end
