(* ===== verification/Web_Socket_Frame.thy ===== *)
theory Web_Socket_Frame
  imports Prelude
begin

text \<open>
  Masks and frame headers of a WebSocket connection (\<open>WebSocketImpl::Mask\<close> and \<open>Header\<close> of
  \<open>zc/http/http.cc\<close>). A mask is a list of four bytes, a header the list of the bytes that are written.
  The fields of a header are read back from any bytes that begin with it; for the payload length
  \<open>compose_length\<close> says exactly when.
\<close>

section \<open>Masks\<close>

type_synonym Mask = "byte list"

definition Mask_none :: Mask where
  "Mask_none = [0, 0, 0, 0]"

definition Mask_isZero :: "Mask \<Rightarrow> bool" where
  "Mask_isZero m \<longleftrightarrow> m ! 0 OR m ! 1 OR m ! 2 OR m ! 3 = 0"

definition Mask_apply :: "Mask \<Rightarrow> byte list \<Rightarrow> byte list" where
  "Mask_apply m bytes = map (\<lambda>i. bytes ! i XOR m ! (i mod 4)) [0..<length bytes]"

section \<open>Frame headers\<close>

definition FIN_MASK :: byte where "FIN_MASK = 0x80"
definition RSV2_3_MASK :: byte where "RSV2_3_MASK = 0x30"
definition RSV1_MASK :: byte where "RSV1_MASK = 0x40"
definition OPCODE_MASK :: byte where "OPCODE_MASK = 0x0f"
definition USE_MASK_MASK :: byte where "USE_MASK_MASK = 0x80"
definition PAYLOAD_LEN_MASK :: byte where "PAYLOAD_LEN_MASK = 0x7f"

lemmas header_masks = FIN_MASK_def RSV2_3_MASK_def RSV1_MASK_def OPCODE_MASK_def USE_MASK_MASK_def
  PAYLOAD_LEN_MASK_def

definition compose :: "bool \<Rightarrow> bool \<Rightarrow> byte \<Rightarrow> uint64 \<Rightarrow> Mask \<Rightarrow> byte list" where
  "compose fin compressed opcode payloadLen msk =
     (let b0 = (if fin then FIN_MASK else 0) OR (if compressed then RSV1_MASK else 0) OR opcode;
          hasMask = \<not> Mask_isZero msk;
          useMask = (if hasMask then USE_MASK_MASK else 0);
          maskBytes = (if hasMask then msk else [])
      in if payloadLen < 126 then [b0, useMask OR ucast payloadLen] @ maskBytes
         else if payloadLen < 65536 then
           [b0, useMask OR 126, ucast (drop_bit 8 payloadLen), ucast payloadLen] @ maskBytes
         else
           [b0, useMask OR 127,
            ucast (drop_bit 56 payloadLen), ucast (drop_bit 48 payloadLen),
            ucast (drop_bit 40 payloadLen), ucast (drop_bit 42 payloadLen),
            ucast (drop_bit 24 payloadLen), ucast (drop_bit 16 payloadLen),
            ucast (drop_bit 8 payloadLen), ucast payloadLen] @ maskBytes)"

definition isFin :: "byte list \<Rightarrow> bool" where "isFin bytes \<longleftrightarrow> bytes ! 0 AND FIN_MASK \<noteq> 0"
definition isCompressed :: "byte list \<Rightarrow> bool" where "isCompressed bytes \<longleftrightarrow> bytes ! 0 AND RSV1_MASK \<noteq> 0"
definition hasRsv2or3 :: "byte list \<Rightarrow> bool" where "hasRsv2or3 bytes \<longleftrightarrow> bytes ! 0 AND RSV2_3_MASK \<noteq> 0"
definition getOpcode :: "byte list \<Rightarrow> byte" where "getOpcode bytes = bytes ! 0 AND OPCODE_MASK"

definition getPayloadLen :: "byte list \<Rightarrow> uint64" where
  "getPayloadLen bytes =
     (let payloadLen = bytes ! 1 AND PAYLOAD_LEN_MASK
      in if payloadLen = 127 then
           push_bit 56 (ucast (bytes ! 2)) OR push_bit 48 (ucast (bytes ! 3)) OR
           push_bit 40 (ucast (bytes ! 4)) OR push_bit 32 (ucast (bytes ! 5)) OR
           push_bit 24 (ucast (bytes ! 6)) OR push_bit 16 (ucast (bytes ! 7)) OR
           push_bit 8 (ucast (bytes ! 8)) OR ucast (bytes ! 9)
         else if payloadLen = 126 then push_bit 8 (ucast (bytes ! 2)) OR ucast (bytes ! 3)
         else ucast payloadLen)"

definition getMask :: "byte list \<Rightarrow> Mask" where
  "getMask bytes =
     (if bytes ! 1 AND USE_MASK_MASK \<noteq> 0 then
        (let payloadLen = bytes ! 1 AND PAYLOAD_LEN_MASK
         in take 4 (drop (if payloadLen = 127 then 10 else if payloadLen = 126 then 4 else 2) bytes))
      else Mask_none)"

definition headerSize :: "byte list \<Rightarrow> nat" where
  "headerSize bytes =
     (if length bytes < 2 then 2
      else 2 + (if bytes ! 1 AND USE_MASK_MASK \<noteq> 0 then 4 else 0) +
        (let payloadLen = bytes ! 1 AND PAYLOAD_LEN_MASK
         in if payloadLen = 127 then 8 else if payloadLen = 126 then 2 else 0))"

section \<open>Reading back a header\<close>

lemma Mask_isZero_iff: "length m = 4 \<Longrightarrow> Mask_isZero m \<longleftrightarrow> m = Mask_none"
  by (auto simp: Mask_isZero_def Mask_none_def length_Suc_conv numeral_eq_Suc or_eq_0_iff)

lemma Mask_apply_length [simp]: "length (Mask_apply m bs) = length bs"
  by (simp add: Mask_apply_def)

lemma Mask_apply_twice: "Mask_apply m (Mask_apply m bs) = bs"
  by (rule nth_equalityI) (simp_all add: Mask_apply_def xor.assoc)

lemma Mask_apply_none: "Mask_apply Mask_none bs = bs"
proof (rule nth_equalityI)
  fix i
  have "Mask_none ! (i mod 4) = 0" if "i mod 4 = 0 \<or> i mod 4 = 1 \<or> i mod 4 = 2 \<or> i mod 4 = 3"
    using that by (auto simp: Mask_none_def)
  moreover have "i mod 4 = 0 \<or> i mod 4 = 1 \<or> i mod 4 = 2 \<or> i mod 4 = 3" by presburger
  moreover assume "i < length (Mask_apply Mask_none bs)"
  ultimately show "Mask_apply Mask_none bs ! i = bs ! i" by (simp add: Mask_apply_def)
qed simp

text \<open>Bytes are equal if their eight bits are.\<close>

lemma byte_eqI:
  fixes a b :: byte
  assumes "bit a 0 = bit b 0" "bit a 1 = bit b 1" "bit a 2 = bit b 2" "bit a 3 = bit b 3"
    "bit a 4 = bit b 4" "bit a 5 = bit b 5" "bit a 6 = bit b 6" "bit a 7 = bit b 7"
  shows "a = b"
proof (rule bit_word_eqI)
  fix n assume "n < LENGTH(8)"
  then have "n = 0 \<or> n = 1 \<or> n = 2 \<or> n = 3 \<or> n = 4 \<or> n = 5 \<or> n = 6 \<or> n = 7" by (simp, presburger)
  then show "bit a n = bit b n" using assms by blast
qed

lemma byte_bits_iff:
  fixes a b :: byte
  shows "a = b \<longleftrightarrow> bit a 0 = bit b 0 \<and> bit a 1 = bit b 1 \<and> bit a 2 = bit b 2 \<and> bit a 3 = bit b 3 \<and>
    bit a 4 = bit b 4 \<and> bit a 5 = bit b 5 \<and> bit a 6 = bit b 6 \<and> bit a 7 = bit b 7"
  using byte_eqI [of a b] by blast

definition flags :: "bool \<Rightarrow> bool \<Rightarrow> byte \<Rightarrow> byte" where
  "flags fin compressed opcode =
     (if fin then FIN_MASK else 0) OR (if compressed then RSV1_MASK else 0) OR opcode"

lemma flags_fields:
  assumes "opcode AND 0xf0 = 0"
  shows "flags fin compressed opcode AND FIN_MASK \<noteq> 0 \<longleftrightarrow> fin"
    and "flags fin compressed opcode AND RSV1_MASK \<noteq> 0 \<longleftrightarrow> compressed"
    and "flags fin compressed opcode AND RSV2_3_MASK = 0"
    and "flags fin compressed opcode AND OPCODE_MASK = opcode"
  using assms by (auto simp: flags_def header_masks byte_bits_iff bit_simps)

definition lengthByte :: "bool \<Rightarrow> byte \<Rightarrow> byte" where
  "lengthByte hasMask n = (if hasMask then USE_MASK_MASK else 0) OR n"

lemma lengthByte_fields:
  assumes "n AND 0x80 = 0"
  shows "lengthByte hasMask n AND USE_MASK_MASK \<noteq> 0 \<longleftrightarrow> hasMask"
    and "lengthByte hasMask n AND PAYLOAD_LEN_MASK = n"
  using assms by (auto simp: lengthByte_def header_masks byte_bits_iff bit_simps)

definition lengthCode :: "uint64 \<Rightarrow> byte" where
  "lengthCode n = (if n < 126 then ucast n else if n < 65536 then 126 else 127)"

definition lengthBytes :: "uint64 \<Rightarrow> byte list" where
  "lengthBytes n =
     (if n < 126 then [] else if n < 65536 then [ucast (drop_bit 8 n), ucast n]
      else [ucast (drop_bit 56 n), ucast (drop_bit 48 n), ucast (drop_bit 40 n), ucast (drop_bit 42 n),
            ucast (drop_bit 24 n), ucast (drop_bit 16 n), ucast (drop_bit 8 n), ucast n])"

lemma compose_parts:
  "compose fin compressed opcode n msk =
   [flags fin compressed opcode, lengthByte (\<not> Mask_isZero msk) (lengthCode n)] @ lengthBytes n @
   (if Mask_isZero msk then [] else msk)"
  by (simp add: compose_def flags_def lengthByte_def lengthCode_def lengthBytes_def Let_def)

lemma lengthCode_high: "lengthCode n AND 0x80 = 0"
proof (cases "n < 126")
  case True
  then have "unat n < 126" by (simp add: word_less_nat_alt)
  then have "n = take_bit 7 n" by (intro word_unat_eq_iff [THEN iffD2]) (simp add: unat_take_bit)
  then have "bit n 7 = False" by (metis bit_take_bit_iff less_irrefl)
  then show ?thesis using True by (simp add: lengthCode_def byte_bits_iff bit_simps)
qed (simp add: lengthCode_def byte_bits_iff bit_simps)

lemma lengthByte_literals:
  "lengthByte hasMask 126 AND USE_MASK_MASK \<noteq> 0 \<longleftrightarrow> hasMask" "lengthByte hasMask 126 AND PAYLOAD_LEN_MASK = 126"
  "lengthByte hasMask 127 AND USE_MASK_MASK \<noteq> 0 \<longleftrightarrow> hasMask" "lengthByte hasMask 127 AND PAYLOAD_LEN_MASK = 127"
  by (rule lengthByte_fields; simp)+

lemmas lengthCode_fields = lengthByte_fields [OF lengthCode_high] lengthByte_literals

lemma lengthCode_cases:
  "lengthCode n = 127 \<longleftrightarrow> 65536 \<le> n" "lengthCode n = 126 \<longleftrightarrow> 126 \<le> n \<and> n < 65536"
proof -
  have "(ucast n :: byte) \<noteq> 127 \<and> (ucast n :: byte) \<noteq> 126" if "n < 126"
  proof -
    have "unat n < 126" using that by (simp add: word_less_nat_alt)
    then have "unat (ucast n :: byte) < 126" by (simp add: bits_to_nat)
    then show ?thesis by (auto simp: word_unat_eq_iff)
  qed
  moreover have "n < 126 \<Longrightarrow> n < 65536" by (simp add: word_less_nat_alt)
  ultimately show "lengthCode n = 127 \<longleftrightarrow> 65536 \<le> n" "lengthCode n = 126 \<longleftrightarrow> 126 \<le> n \<and> n < 65536"
    by (auto simp: lengthCode_def linorder_not_less [symmetric] split: if_splits)
qed

lemma length_cases:
  obtains "n < 126" "n < 65536" "lengthCode n \<noteq> 126" "lengthCode n \<noteq> 127"
  | "\<not> n < 126" "n < 65536" "lengthCode n = 126"
  | "\<not> n < 126" "\<not> n < 65536" "lengthCode n = 127"
proof -
  have lt: "n < 126 \<Longrightarrow> n < 65536" by (simp add: word_less_nat_alt)
  consider "n < 126" | "\<not> n < 126" "n < 65536" | "\<not> n < 65536" by blast
  then show thesis
  proof cases
    case 1
    then show thesis using lt lengthCode_cases [of n] by (intro that(1)) (auto simp: lengthCode_def not_le)
  next
    case 2
    then show thesis using lengthCode_cases [of n] by (intro that(2)) (auto simp: not_less)
  next
    case 3
    then have "\<not> n < 126" using lt by blast
    then show thesis using 3 lengthCode_cases [of n] by (intro that(3)) (auto simp: not_less)
  qed
qed

text \<open>The fields of a composed header, whatever follows it.\<close>

lemma compose_fields:
  assumes "opcode AND 0xf0 = 0" and "length msk = 4"
  shows "isFin (compose fin compressed opcode n msk @ rest) = fin"
    and "isCompressed (compose fin compressed opcode n msk @ rest) = compressed"
    and "\<not> hasRsv2or3 (compose fin compressed opcode n msk @ rest)"
    and "getOpcode (compose fin compressed opcode n msk @ rest) = opcode"
    and "getMask (compose fin compressed opcode n msk @ rest) = msk"
    and "headerSize (compose fin compressed opcode n msk @ rest) = length (compose fin compressed opcode n msk)"
proof -
  show "isFin (compose fin compressed opcode n msk @ rest) = fin"
    "isCompressed (compose fin compressed opcode n msk @ rest) = compressed"
    "\<not> hasRsv2or3 (compose fin compressed opcode n msk @ rest)"
    "getOpcode (compose fin compressed opcode n msk @ rest) = opcode"
    using flags_fields [OF assms(1)]
    by (simp_all add: isFin_def isCompressed_def hasRsv2or3_def getOpcode_def compose_parts)
  show "getMask (compose fin compressed opcode n msk @ rest) = msk"
    using assms(2) Mask_isZero_iff [OF assms(2)] lengthCode_fields
    by (cases n rule: length_cases) (auto simp: getMask_def compose_parts lengthBytes_def Let_def)
  show "headerSize (compose fin compressed opcode n msk @ rest) = length (compose fin compressed opcode n msk)"
    using assms(2) lengthCode_fields
    by (cases n rule: length_cases) (auto simp: headerSize_def compose_parts lengthBytes_def Let_def)
qed

lemma compose_length_bits:
  assumes "length msk = 4"
  shows "getPayloadLen (compose fin compressed opcode n msk @ rest) =
    (if n < 65536 then n
     else push_bit 56 (ucast (ucast (drop_bit 56 n) :: byte)) OR push_bit 48 (ucast (ucast (drop_bit 48 n) :: byte)) OR
       push_bit 40 (ucast (ucast (drop_bit 40 n) :: byte)) OR push_bit 32 (ucast (ucast (drop_bit 42 n) :: byte)) OR
       push_bit 24 (ucast (ucast (drop_bit 24 n) :: byte)) OR push_bit 16 (ucast (ucast (drop_bit 16 n) :: byte)) OR
       push_bit 8 (ucast (ucast (drop_bit 8 n) :: byte)) OR ucast (ucast n :: byte))"
proof -
  have small: "ucast (lengthCode n) = n" if "n < 126"
  proof -
    have "unat n < 126" "lengthCode n = ucast n" using that by (simp_all add: word_less_nat_alt lengthCode_def)
    then show ?thesis by (intro word_unat_eq_iff [THEN iffD2]) (simp add: bits_to_nat)
  qed
  have mid: "push_bit 8 (ucast (ucast (drop_bit 8 n) :: byte)) OR ucast (ucast n :: byte) = n" if "n < 65536"
  proof -
    have "unat n < 65536" using that by (simp add: word_less_nat_alt)
    then have "n = take_bit 16 n" by (intro word_unat_eq_iff [THEN iffD2]) (simp add: unat_take_bit)
    moreover have "push_bit 8 (ucast (ucast (drop_bit 8 n) :: byte)) OR ucast (ucast n :: byte) = take_bit 16 n"
      by (rule bit_word_eqI) (auto simp: bit_simps)
    ultimately show ?thesis by simp
  qed
  show ?thesis
    using small mid lengthByte_fields(2) [OF lengthCode_high, of _ n] lengthByte_literals(2,4)
    by (cases n rule: length_cases)
      (simp_all add: getPayloadLen_def compose_parts lengthBytes_def Let_def)
qed

text \<open>Bits 32 to 39 of a length are written from bits 42 to 49.\<close>

lemma push_byte_bit:
  fixes n :: uint64
  assumes "k \<le> 56"
  shows "bit (push_bit k (ucast (ucast (drop_bit j n) :: byte)) :: uint64) i \<longleftrightarrow>
    k \<le> i \<and> i < k + 8 \<and> bit n (i - k + j)"
  using assms by (auto simp: bit_simps add.commute)

lemma low_byte_bit: "bit (ucast (ucast (n :: uint64) :: byte) :: uint64) i \<longleftrightarrow> i < 8 \<and> bit n i"
  by (auto simp: bit_simps)

lemma length_bits:
  fixes n m :: uint64
  defines "m \<equiv> push_bit 56 (ucast (ucast (drop_bit 56 n) :: byte)) OR push_bit 48 (ucast (ucast (drop_bit 48 n) :: byte)) OR
       push_bit 40 (ucast (ucast (drop_bit 40 n) :: byte)) OR push_bit 32 (ucast (ucast (drop_bit 42 n) :: byte)) OR
       push_bit 24 (ucast (ucast (drop_bit 24 n) :: byte)) OR push_bit 16 (ucast (ucast (drop_bit 16 n) :: byte)) OR
       push_bit 8 (ucast (ucast (drop_bit 8 n) :: byte)) OR ucast (ucast n :: byte)"
  shows "bit m i \<longleftrightarrow> (if 32 \<le> i \<and> i < 40 then bit n (i + 10) else bit n i)"
proof (cases "i < 64")
  case False
  then have "\<not> bit m i" "\<not> bit n i" using bit_imp_le_length [of m i] bit_imp_le_length [of n i] by auto
  then show ?thesis using False by auto
next
  case True
  then consider "i < 8" | "8 \<le> i" "i < 16" | "16 \<le> i" "i < 24" | "24 \<le> i" "i < 32" | "32 \<le> i" "i < 40"
    | "40 \<le> i" "i < 48" | "48 \<le> i" "i < 56" | "56 \<le> i" "i < 64" by linarith
  then show ?thesis by cases (simp_all add: m_def bit_or_iff push_byte_bit low_byte_bit add.commute [of 10])
qed

lemma compose_length:
  assumes "length msk = 4"
  shows "getPayloadLen (compose fin compressed opcode n msk @ rest) = n \<longleftrightarrow>
    (\<forall>i \<in> {32..<40}. bit n (i + 10) = bit n i)"
proof (cases "n < 65536")
  case True
  then have "\<not> bit n i" if "i \<ge> 32" for i
  proof -
    have "unat n < 65536" using True by (simp add: word_less_nat_alt)
    then have "n = take_bit 16 n" by (intro word_unat_eq_iff [THEN iffD2]) (simp add: unat_take_bit)
    then have "bit n i \<longleftrightarrow> i < 16 \<and> bit n i" by (metis bit_take_bit_iff)
    then show ?thesis using that by simp
  qed
  then show ?thesis using True compose_length_bits [OF assms] by simp
next
  case False
  have "x = n \<longleftrightarrow> (\<forall>i. bit x i = bit n i)" for x :: uint64 by (metis bit_word_eqI)
  then show ?thesis using False unfolding compose_length_bits [OF assms] by (auto simp: length_bits)
qed

end
