(* ===== verification/Async_Stream.thy ===== *)
theory Async_Stream
  imports Prelude
begin

text \<open>
  A byte stream as the code sees it: \<open>AsyncInputStream\<close> is an interface, and every implementation of it
  delivers the bytes in pieces of its own choice. The stream is the list of these pieces; theorems over
  all lists of pieces hold for every way in which the bytes can arrive.
\<close>

text \<open>\<open>tryRead minBytes maxBytes\<close> waits for \<open>minBytes\<close>, takes at most \<open>maxBytes\<close> and returns less than
  \<open>minBytes\<close> at the end of the stream only.\<close>

fun tryRead :: "nat \<Rightarrow> nat \<Rightarrow> 'a list list \<Rightarrow> 'a list \<times> 'a list list" where
  "tryRead minBytes maxBytes [] = ([], [])"
| "tryRead minBytes maxBytes (chunk # chunks) =
     (if maxBytes < length chunk then (take maxBytes chunk, drop maxBytes chunk # chunks)
      else if minBytes \<le> length chunk then (chunk, chunks)
      else (case tryRead (minBytes - length chunk) (maxBytes - length chunk) chunks of
              (late, rest) \<Rightarrow> (chunk @ late, rest)))"

lemma tryRead_append: "tryRead m n input = (got, rest) \<Longrightarrow> got @ concat rest = concat input"
  by (induction m n input arbitrary: got rest rule: tryRead.induct)
    (fastforce split: if_splits prod.splits)+

lemma tryRead_bounds:
  "tryRead m n input = (got, rest) \<Longrightarrow> length got \<le> n \<and> (m \<le> n \<longrightarrow> length got < m \<longrightarrow> rest = [])"
proof (induction m n input arbitrary: got rest rule: tryRead.induct)
  case (2 m n chunk chunks)
  then show ?case
    by (cases "tryRead (m - length chunk) (n - length chunk) chunks") (fastforce split: if_splits)
qed simp

text \<open>A read of at least one byte makes progress while bytes are left.\<close>

lemma tryRead_progress:
  assumes "tryRead 1 n input = (got, rest)" and "0 < n" and "concat input \<noteq> []"
  shows "got \<noteq> []"
  using assms tryRead_bounds [OF assms(1)] tryRead_append [OF assms(1)] by (cases got) auto

section \<open>Promises\<close>

text \<open>What a promise becomes in a run without other activity: a value, a protocol error for the peer, an exception, or
  nothing before another operation has ended. \<open>Undefined\<close> is an operation outside its array.\<close>

datatype ('e, 'a) awaited = Ready 'a | Refused 'e | Threw string | Waits | Undefined

text \<open>\<open>co_await\<close> and \<open>then\<close>: the rest of a coroutine runs with the value.\<close>

fun awaiting :: "('e, 'a) awaited \<times> 's \<Rightarrow> ('a \<Rightarrow> 's \<Rightarrow> ('e, 'b) awaited \<times> 's) \<Rightarrow> ('e, 'b) awaited \<times> 's" where
  "awaiting (Ready x, s) f = f x s"
| "awaiting (Refused e, s) f = (Refused e, s)"
| "awaiting (Threw e, s) f = (Threw e, s)"
| "awaiting (Waits, s) f = (Waits, s)"
| "awaiting (Undefined, s) f = (Undefined, s)"

text \<open>An outcome without a value, for a promise of another type.\<close>

fun failing :: "('e, 'a) awaited \<Rightarrow> ('e, 'b) awaited" where
  "failing (Ready x) = Undefined"
| "failing (Refused e) = Refused e"
| "failing (Threw e) = Threw e"
| "failing Waits = Waits"
| "failing Undefined = Undefined"

lemma awaiting_cong [fundef_cong]:
  assumes "m = m'" and "\<And>x s. m' = (Ready x, s) \<Longrightarrow> f x s = g x s"
  shows "awaiting m f = awaiting m' g"
proof -
  obtain r s where "m' = (r, s)" by force
  then show ?thesis using assms by (cases r) simp_all
qed

lemma awaiting_Ready: "awaiting m f = (Ready y, t) \<longleftrightarrow> (\<exists>x s. m = (Ready x, s) \<and> f x s = (Ready y, t))"
proof -
  obtain r s where "m = (r, s)" by force
  then show ?thesis by (cases r) simp_all
qed

section \<open>Reading everything, and pumping\<close>

text \<open>\<open>AllReader::loop\<close> and \<open>AllReader::copyInto\<close>: the parts are joined. \<open>read\<close> is \<open>tryRead\<close> of the stream.\<close>

function readAllBytes :: "(nat \<Rightarrow> nat \<Rightarrow> 's \<Rightarrow> ('e, 'a list) awaited \<times> 's) \<Rightarrow> nat \<Rightarrow> 'a list \<Rightarrow> 's \<Rightarrow>
    ('e, 'a list) awaited \<times> 's" where
  "readAllBytes read limit parts s =
     (if limit = 0 then (Threw ''Reached limit before EOF.'', s)
      else awaiting (read (min 4096 limit) (min 4096 limit) s) (\<lambda>part s.
        if length part < min 4096 limit then (Ready (parts @ part), s)
        else readAllBytes read (limit - length part) (parts @ part) s))"
  by pat_completeness auto
termination by (relation "measure (\<lambda>(read, limit, parts, s). limit)") auto

declare readAllBytes.simps [simp del]

lemma less_left: "part \<noteq> [] \<Longrightarrow> d < limit \<Longrightarrow> limit - (d + length part) < limit - (d :: nat)"
  by (cases part) auto

text \<open>\<open>AsyncPump::pump\<close>, from one stream to another.\<close>

function asyncPump :: "(nat \<Rightarrow> nat \<Rightarrow> 's \<Rightarrow> ('e, 'a list) awaited \<times> 's) \<Rightarrow> ('a list \<Rightarrow> 'o \<Rightarrow> ('e, unit) awaited \<times> 'o) \<Rightarrow>
    nat \<Rightarrow> nat \<Rightarrow> 's \<times> 'o \<Rightarrow> ('e, nat) awaited \<times> 's \<times> 'o" where
  "asyncPump read put limit doneSoFar so =
     (let n = min (limit - doneSoFar) 4096 in
      if n = 0 then (Ready doneSoFar, so)
      else awaiting (case read 1 n (fst so) of (r, s) \<Rightarrow> (r, s, snd so)) (\<lambda>part so.
        if part = [] then (Ready doneSoFar, so)
        else awaiting (case put part (snd so) of (r, out) \<Rightarrow> (r, fst so, out)) (\<lambda>_ so.
          asyncPump read put limit (doneSoFar + length part) so)))"
  by pat_completeness auto
termination
  by (relation "measure (\<lambda>(read, put, limit, doneSoFar, so). limit - doneSoFar)") (auto intro!: less_left simp: min_def split: if_splits)

declare asyncPump.simps [simp del]

text \<open>
  The contract of \<open>AsyncInputStream::tryRead\<close>: a stream that holds some data returns the next part of it, at most
  \<open>maxBytes\<close>, and less than \<open>minBytes\<close> only with the last of the data. It is \<open>finished\<close> when its end has been seen.
\<close>

locale input_stream =
  fixes read :: "nat \<Rightarrow> nat \<Rightarrow> 's \<Rightarrow> ('e, 'a list) awaited \<times> 's"
    and holds :: "'s \<Rightarrow> 'a list \<Rightarrow> bool"
    and finished :: "'s \<Rightarrow> bool"
  assumes read_next: "holds s data \<Longrightarrow> 1 \<le> minBytes \<Longrightarrow> minBytes \<le> maxBytes \<Longrightarrow>
    \<exists>got s' later. read minBytes maxBytes s = (Ready got, s') \<and> data = got @ later \<and> length got \<le> maxBytes \<and>
      (length got < minBytes \<longrightarrow> later = [] \<and> finished s') \<and> holds s' later"
begin

lemma readAllBytes_all:
  "holds s data \<Longrightarrow> length data < limit \<Longrightarrow>
   \<exists>s'. readAllBytes read limit parts s = (Ready (parts @ data), s') \<and> holds s' [] \<and> finished s'"
proof (induction limit arbitrary: s data parts rule: less_induct)
  case (less limit)
  define n where "n = min 4096 limit"
  have n: "1 \<le> n" "limit \<noteq> 0" using less.prems(2) by (simp_all add: n_def)
  obtain got s1 later where r: "read n n s = (Ready got, s1)" "data = got @ later" "length got \<le> n"
    "length got < n \<longrightarrow> later = [] \<and> finished s1" "holds s1 later"
    using read_next [OF less.prems(1) n(1) order.refl] by blast
  show ?case
  proof (cases "length got < n")
    case True
    then show ?thesis using r n(2) by (auto simp: readAllBytes.simps [of read limit] simp flip: n_def)
  next
    case False
    have "limit - length got < limit" "length later < limit - length got" using False n r(2) less.prems(2) by auto
    from less.IH [OF this(1) r(5) this(2), of "parts @ got"] show ?thesis
      using r False n(2) by (auto simp: readAllBytes.simps [of read limit] simp flip: n_def)
  qed
qed

lemma readAllBytes_limit:
  "holds s data \<Longrightarrow> limit \<le> length data \<Longrightarrow>
   \<exists>s'. readAllBytes read limit parts s = (Threw ''Reached limit before EOF.'', s')"
proof (induction limit arbitrary: s data parts rule: less_induct)
  case (less limit)
  define n where "n = min 4096 limit"
  show ?case
  proof (cases "limit = 0")
    case True
    then show ?thesis by (simp add: readAllBytes.simps [of read 0])
  next
    case False
    then have n: "1 \<le> n" by (simp add: n_def)
    obtain got s1 later where r: "read n n s = (Ready got, s1)" "data = got @ later" "length got \<le> n"
      "length got < n \<longrightarrow> later = [] \<and> finished s1" "holds s1 later"
      using read_next [OF less.prems(1) n order.refl] by blast
    have full: "\<not> length got < n" using r(2,4) less.prems(2) by (auto simp: n_def)
    have "limit - length got < limit" "limit - length got \<le> length later" using False full n r(2) less.prems(2) by auto
    from less.IH [OF this(1) r(5) this(2), of "parts @ got"] show ?thesis
      using r full False by (auto simp: readAllBytes.simps [of read limit] simp flip: n_def)
  qed
qed

end

text \<open>The contract of \<open>AsyncOutputStream::write\<close> while the stream is open: what is written is appended.\<close>

locale output_stream =
  fixes put :: "'a list \<Rightarrow> 'o \<Rightarrow> ('e, unit) awaited \<times> 'o"
    and accepts :: "'o \<Rightarrow> 'a list \<Rightarrow> nat \<Rightarrow> bool"
  assumes put_next: "accepts out data room \<Longrightarrow> length part \<le> room \<Longrightarrow> part \<noteq> [] \<Longrightarrow>
    \<exists>out'. put part out = (Ready (), out') \<and> accepts out' (data @ part) (room - length part)"

locale stream_pair = input_stream read holds finished + output_stream put accepts
  for read :: "nat \<Rightarrow> nat \<Rightarrow> 's \<Rightarrow> ('e, 'a list) awaited \<times> 's" and holds and finished
    and put :: "'a list \<Rightarrow> 'o \<Rightarrow> ('e, unit) awaited \<times> 'o" and accepts
begin

lemma pump_copies:
  "holds s data \<Longrightarrow> accepts out written room \<Longrightarrow> doneSoFar \<le> limit \<Longrightarrow> length (take (limit - doneSoFar) data) \<le> room \<Longrightarrow>
   \<exists>s' out'. asyncPump read put limit doneSoFar (s, out) = (Ready (min limit (doneSoFar + length data)), s', out') \<and>
     holds s' (drop (limit - doneSoFar) data) \<and>
     accepts out' (written @ take (limit - doneSoFar) data) (room - length (take (limit - doneSoFar) data))"
proof (induction "limit - doneSoFar" arbitrary: doneSoFar s data out written room rule: less_induct)
  case less
  define n where "n = min (limit - doneSoFar) 4096"
  show ?case
  proof (cases "n = 0")
    case True
    then show ?thesis using less.prems by (auto simp: asyncPump.simps [of read put limit doneSoFar] n_def)
  next
    case False
    then have n: "1 \<le> n" by simp
    obtain got s1 later where r: "read 1 n s = (Ready got, s1)" "data = got @ later" "length got \<le> n"
      "length got < 1 \<longrightarrow> later = [] \<and> finished s1" "holds s1 later"
      using read_next [OF less.prems(1) order.refl n] by blast
    show ?thesis
    proof (cases "got = []")
      case True
      then show ?thesis using r less.prems(2,3) False by (auto simp: asyncPump.simps [of read put limit doneSoFar] simp flip: n_def)
    next
      case more: False
      have fits: "length got \<le> limit - doneSoFar" using r(3) by (simp add: n_def)
      have rest: "take (limit - doneSoFar) data = got @ take (limit - (doneSoFar + length got)) later"
        "drop (limit - doneSoFar) data = drop (limit - (doneSoFar + length got)) later" using r(2) fits by simp_all
      obtain out1 where w: "put got out = (Ready (), out1)" "accepts out1 (written @ got) (room - length got)"
        using put_next [OF less.prems(2) _ more] less.prems(4) rest(1) by auto
      have "limit - (doneSoFar + length got) < limit - doneSoFar" "doneSoFar + length got \<le> limit"
        using less_left [OF more, of doneSoFar limit] fits False by (auto simp: n_def)
      moreover have "length (take (limit - (doneSoFar + length got)) later) \<le> room - length got"
        using less.prems(4) unfolding rest by simp
      ultimately obtain s2 out2 where p: "asyncPump read put limit (doneSoFar + length got) (s1, out1) =
          (Ready (min limit (doneSoFar + length got + length later)), s2, out2)"
        "holds s2 (drop (limit - (doneSoFar + length got)) later)"
        "accepts out2 ((written @ got) @ take (limit - (doneSoFar + length got)) later)
           (room - length got - length (take (limit - (doneSoFar + length got)) later))"
        using less.hyps [OF _ r(5) w(2)] by blast
      have "asyncPump read put limit doneSoFar (s, out) = asyncPump read put limit (doneSoFar + length got) (s1, out1)"
        using r(1) w(1) more False by (simp add: asyncPump.simps [of read put limit doneSoFar] flip: n_def)
      then show ?thesis using p fits by (auto simp: r(2) add.assoc)
    qed
  qed
qed

end

section \<open>Buffers\<close>

definition subarray :: "nat \<Rightarrow> nat \<Rightarrow> 'a list \<Rightarrow> 'a list" where
  "subarray i j b = drop i (take j b)"

text \<open>\<open>memcpy\<close>, \<open>memmove\<close> and a read into a buffer: the bytes from \<open>p\<close> on are replaced.\<close>

definition overwrite :: "'a list \<Rightarrow> nat \<Rightarrow> 'a list \<Rightarrow> 'a list" where
  "overwrite b p xs = take p b @ xs @ drop (p + length xs) b"

lemma length_subarray [simp]: "length (subarray i j b) = min j (length b) - i"
  by (simp add: subarray_def min.commute)

lemma subarray_empty [simp]: "j \<le> i \<Longrightarrow> subarray i j b = []"
  by (simp add: subarray_def)

lemma subarray_nth: "i + k < j \<Longrightarrow> j \<le> length b \<Longrightarrow> subarray i j b ! k = b ! (i + k)"
  by (simp add: subarray_def)

lemma length_overwrite [simp]: "p + length xs \<le> length b \<Longrightarrow> length (overwrite b p xs) = length b"
  by (simp add: overwrite_def)

lemma subarray_append: "i \<le> j \<Longrightarrow> j \<le> k \<Longrightarrow> k \<le> length b \<Longrightarrow> subarray i j b @ subarray j k b = subarray i k b"
  by (rule nth_equalityI) (auto simp: subarray_nth nth_append add.commute)

lemma subarray_overwrite_before: "j \<le> p \<Longrightarrow> p \<le> length b \<Longrightarrow> subarray i j (overwrite b p xs) = subarray i j b"
  by (simp add: subarray_def overwrite_def min_def)

lemma subarray_overwrite: "p + length xs \<le> length b \<Longrightarrow> subarray p (p + length xs) (overwrite b p xs) = xs"
  by (simp add: subarray_def overwrite_def)

lemma subarray_grow: "j \<le> length b \<Longrightarrow> subarray i j (b @ c) = subarray i j b"
  by (simp add: subarray_def)

lemma overwrite_nth: "k < p \<Longrightarrow> p \<le> length b \<Longrightarrow> overwrite b p xs ! k = b ! k"
  by (simp add: overwrite_def nth_append)

end
