(* ===== verification/Web_Socket.thy ===== *)
theory Web_Socket
  imports Web_Socket_Frame Number_Text Async_Stream
begin

text \<open>
  A WebSocket connection (\<open>WebSocketImpl\<close> of \<open>zc/http/http.cc\<close>): the compression context, receiving and
  what a message is sent as.

  The stream arrives in chunks of any size. \<open>receive\<close> runs until it returns a message or fails; what it
  hands to the sending side, the calls of \<open>queuePong\<close> and \<open>queueClose\<close>, is logged in \<open>controls\<close>. An
  access outside the array of a message is the result \<open>Overrun\<close>, the loop of the decompressor that does
  not end \<open>NoReturn\<close>. The functions of zlib and the content of fresh arrays are parameters.
\<close>

section \<open>The compression context\<close>

text \<open>
  A call of zlib on the context \<open>z\<close> with the input that is left and the space of the output buffer
  returns its status, what it produced, the input that is left then and the new context. zlib is not
  part of the repository: \<open>pump\<close> and \<open>reset\<close> are parameters.
\<close>

type_synonym 'z zlib = "'z \<Rightarrow> byte list \<Rightarrow> nat \<Rightarrow> int \<times> byte list \<times> byte list \<times> 'z"

definition Z_OK :: int where "Z_OK = 0"
definition Z_STREAM_END :: int where "Z_STREAM_END = 1"
definition Z_BUF_ERROR :: int where "Z_BUF_ERROR = -5"

datatype processed = Parts "byte list" | TooLarge uint32 string | ZlibFailed

partial_function (option) processLoop ::
    "'z zlib \<Rightarrow> ('z \<Rightarrow> 'z) \<Rightarrow> uint64 option \<Rightarrow> byte list \<Rightarrow> 'z \<Rightarrow> byte list \<Rightarrow> (processed \<times> 'z) option" where
  "processLoop pump reset maxSize output z input =
     (case pump z input 4096 of (status, part, rest, z') \<Rightarrow>
        if status \<notin> {Z_OK, Z_BUF_ERROR, Z_STREAM_END} then Some (ZlibFailed, z')
        else if part \<noteq> [] \<and> (case maxSize of None \<Rightarrow> False | Some m \<Rightarrow> unat m < length (output @ part)) then
          Some (TooLarge 1009 ''Message is too large'', z')
        else if rest = [] \<and> length part \<noteq> 4096 \<or> status = Z_STREAM_END then
          Some (Parts (output @ part), if status = Z_STREAM_END then reset z' else z')
        else processLoop pump reset maxSize (output @ part) z' rest)"

definition processMessage ::
    "'z zlib \<Rightarrow> ('z \<Rightarrow> 'z) \<Rightarrow> uint64 option \<Rightarrow> bool \<Rightarrow> 'z \<Rightarrow> byte list \<Rightarrow> (processed \<times> 'z) option" where
  "processMessage pump reset maxSize addNullTerminator z message =
     (case processLoop pump reset maxSize [] z message of
        None \<Rightarrow> None
      | Some (Parts output, z') \<Rightarrow> Some (Parts (if addNullTerminator then output @ [0] else output), z')
      | Some (other, z') \<Rightarrow> Some (other, z'))"

section \<open>The connection\<close>

record CompressionParameters =
  outboundNoContextTakeover :: bool
  inboundNoContextTakeover :: bool
  outboundMaxWindowBits :: "uint64 option"
  inboundMaxWindowBits :: "uint64 option"

definition OPCODE_CONTINUATION :: byte where "OPCODE_CONTINUATION = 0"
definition OPCODE_TEXT :: byte where "OPCODE_TEXT = 1"
definition OPCODE_BINARY :: byte where "OPCODE_BINARY = 2"
definition OPCODE_CLOSE :: byte where "OPCODE_CLOSE = 8"
definition OPCODE_PING :: byte where "OPCODE_PING = 9"
definition OPCODE_PONG :: byte where "OPCODE_PONG = 10"
definition OPCODE_FIRST_CONTROL :: byte where "OPCODE_FIRST_CONTROL = 8"

lemmas opcodes = OPCODE_CONTINUATION_def OPCODE_TEXT_def OPCODE_BINARY_def OPCODE_CLOSE_def
  OPCODE_PING_def OPCODE_PONG_def OPCODE_FIRST_CONTROL_def

text \<open>What does not change while messages are received: \<open>garbage\<close> is what a fresh array holds.\<close>

record 'z connection =
  compressionConfig :: "CompressionParameters option"
  recvBufferSize :: nat
  inflate :: "'z zlib"
  inflateReset :: "'z \<Rightarrow> 'z"
  garbage :: "nat \<Rightarrow> byte"

text \<open>What receiving hands to the sending side: the calls of \<open>queuePong\<close> and \<open>queueClose\<close>.\<close>

datatype control = QueuePong "byte list" | QueueClose "16 word" string

record 'z receiver =
  recvData :: "byte list"
  fragments :: "byte list list"
  fragmentOpcode :: byte
  fragmentCompressed :: bool
  decompressionContext :: 'z
  receivedBytes :: uint64
  controls :: "control list"

datatype Message = TextMessage string | BinaryMessage "byte list" | CloseMessage "16 word" string

datatype received =
  Received Message
| ProtocolError "16 word" string
| Disconnected string
| Overrun
| DecompressionFailed
| NoReturn
| Unreachable

section \<open>Receiving\<close>

datatype 'z next_step =
  Done received "'z receiver" "byte list list"
| Again uint64 "'z receiver" "byte list list"

definition sendCloseDueToError :: "'z receiver \<Rightarrow> byte list list \<Rightarrow> 16 word \<Rightarrow> string \<Rightarrow> 'z next_step" where
  "sendCloseDueToError ws input code reason =
     Done (ProtocolError code reason) (ws\<lparr>controls := controls ws @ [QueueClose code reason]\<rparr>) input"

definition decompress :: "'z connection \<Rightarrow> CompressionParameters \<Rightarrow> uint64 \<Rightarrow> bool \<Rightarrow> byte list \<Rightarrow>
    'z receiver \<Rightarrow> (processed \<times> 'z) option" where
  "decompress c config originalMaxSize addNullTerminator message ws =
     (let message = take (length message - 4) message @ [0, 0, 0xFF, 0xFF];
          z = decompressionContext ws;
          z = (if inboundNoContextTakeover config then inflateReset c z else z)
      in processMessage (inflate c) (inflateReset c) (Some originalMaxSize) addNullTerminator z message)"

definition deliver :: "'z receiver \<Rightarrow> byte list list \<Rightarrow> (byte list \<Rightarrow> Message) \<Rightarrow> (processed \<times> 'z) option \<Rightarrow>
    'z next_step" where
  "deliver ws input build result =
     (case result of
        None \<Rightarrow> Done NoReturn ws input
      | Some (Parts decompressed, z) \<Rightarrow> Done (Received (build decompressed)) (ws\<lparr>decompressionContext := z\<rparr>) input
      | Some (TooLarge code reason, z) \<Rightarrow>
          sendCloseDueToError (ws\<lparr>decompressionContext := z\<rparr>) input (ucast code) reason
      | Some (ZlibFailed, z) \<Rightarrow> Done DecompressionFailed (ws\<lparr>decompressionContext := z\<rparr>) input)"

text \<open>\<open>handleMessage\<close>, once the payload has been read and unmasked.\<close>

definition dispatch :: "'z connection \<Rightarrow> byte \<Rightarrow> uint64 \<Rightarrow> uint64 \<Rightarrow> bool \<Rightarrow> byte list \<Rightarrow> 'z receiver \<Rightarrow>
    byte list list \<Rightarrow> 'z next_step" where
  "dispatch c opcode maxSize originalMaxSize compressed message ws input =
     (if compressed \<and> compressionConfig c = None then
        sendCloseDueToError ws input 1002
          (''Received a WebSocket frame whose compression bit was set, but the compression '' @
           ''extension was not negotiated for this connection.'')
      else if opcode = OPCODE_CONTINUATION then Done Unreachable ws input
      else if opcode = OPCODE_TEXT then
        (case (compressed, compressionConfig c) of
           (True, Some config) \<Rightarrow> deliver ws input (TextMessage \<circ> asChars \<circ> butlast)
                                   (decompress c config originalMaxSize True message ws)
         | _ \<Rightarrow> Done (Received (TextMessage (asChars (butlast message)))) ws input)
      else if opcode = OPCODE_BINARY then
        (case (compressed, compressionConfig c) of
           (True, Some config) \<Rightarrow> deliver ws input BinaryMessage
                                   (decompress c config originalMaxSize False message ws)
         | _ \<Rightarrow> Done (Received (BinaryMessage message)) ws input)
      else if opcode = OPCODE_CLOSE then
        (if length message < 2 then Done (Received (CloseMessage 1005 '''')) ws input
         else Done (Received (CloseMessage (push_bit 8 (ucast (message ! 0)) OR ucast (message ! 1))
                                           (asChars (drop 2 message)))) ws input)
      else if opcode = OPCODE_PING then Again maxSize (ws\<lparr>controls := controls ws @ [QueuePong message]\<rparr>) input
      else if opcode = OPCODE_PONG then Again maxSize ws input
      else sendCloseDueToError ws input 1002
             (''Unknown opcode '' @ the (stringify \<lparr>bytes_of = 1, is_signed = False\<rparr> (uint opcode))))"

text \<open>The payload is what is buffered and, when that is not enough, what is read.\<close>

definition readPayload :: "nat \<Rightarrow> 'z receiver \<Rightarrow> byte list list \<Rightarrow> byte list \<times> 'z receiver \<times> byte list list" where
  "readPayload n ws input =
     (let buffered = take n (recvData ws);
          remaining = n - length buffered in
      if remaining = 0 then (buffered, ws\<lparr>recvData := drop n (recvData ws)\<rparr>, input)
      else
      let (late, input) = tryRead remaining remaining input in
      (buffered @ late, ws\<lparr>recvData := [], receivedBytes := receivedBytes ws + word_of_nat (length late)\<rparr>, input))"

text \<open>The array of the message holds the gathered fragments, the payload and, in the space that is
  allocated after it, what the fresh array held. Bytes that do not fit are written past its end.\<close>

definition handlePayload :: "'z connection \<Rightarrow> uint64 \<Rightarrow> byte list \<Rightarrow> byte \<Rightarrow> bool \<Rightarrow> byte list \<Rightarrow> uint64 \<Rightarrow>
    uint64 \<Rightarrow> 'z receiver \<Rightarrow> byte list list \<Rightarrow> 'z next_step" where
  "handlePayload c maxSize recvHeader opcode compressed gathered allocated originalMaxSize ws input =
     (let n = unat (getPayloadLen recvHeader);
          (payload, ws, input) = readPayload n ws input in
      if unat allocated < length gathered + length payload then Done Overrun ws input
      else if length payload < n then Done (Disconnected ''WebSocket EOF in message'') ws input
      else
      let message = gathered @ Mask_apply (getMask recvHeader) payload @
                    map (garbage c) [length gathered + n..<unat allocated] in
      if \<not> isFin recvHeader
      then Again (maxSize - word_of_nat (length message)) (ws\<lparr>fragments := fragments ws @ [message]\<rparr>) input
      else dispatch c opcode maxSize originalMaxSize compressed message ws input)"

definition handleFrame :: "'z connection \<Rightarrow> uint64 \<Rightarrow> 'z receiver \<Rightarrow> byte list list \<Rightarrow> 'z next_step" where
  "handleFrame c maxSize ws input =
     (let recvHeader = recvData ws in
      if hasRsv2or3 recvHeader then sendCloseDueToError ws input 1002 ''Received frame had RSV bits 2 or 3 set''
      else
      let ws = ws\<lparr>recvData := drop (headerSize recvHeader) recvHeader\<rparr>;
          payloadLen = getPayloadLen recvHeader in
      if maxSize < payloadLen then
        sendCloseDueToError ws input 1009
          (''Message is too large: '' @ the (stringify \<lparr>bytes_of = 8, is_signed = False\<rparr> (uint payloadLen)) @ '' > '' @
           the (stringify \<lparr>bytes_of = 8, is_signed = False\<rparr> (uint maxSize)))
      else
      let opcode = getOpcode recvHeader;
          isData = opcode < OPCODE_FIRST_CONTROL in
      if opcode = OPCODE_CONTINUATION \<and> fragments ws = [] then
        sendCloseDueToError ws input 1002 ''Unexpected continuation frame''
      else if opcode \<noteq> OPCODE_CONTINUATION \<and> isData \<and> fragments ws \<noteq> [] then
        sendCloseDueToError ws input 1002 ''Missing continuation frame''
      else
      let opcode = (if opcode = OPCODE_CONTINUATION then fragmentOpcode ws else opcode) in
      if isFin recvHeader then
        let compressed = (isCompressed recvHeader \<or> fragmentCompressed ws);
            amountToAllocate = (if compressed then payloadLen + 4
                                else payloadLen + (if opcode = OPCODE_TEXT then 1 else 0)) in
        if isData \<and> fragments ws \<noteq> [] then
          let gathered = concat (fragments ws);
              offset = word_of_nat (length gathered) :: uint64
          in handlePayload c maxSize recvHeader opcode compressed gathered (offset + amountToAllocate)
               (offset + maxSize) (ws\<lparr>fragments := [], fragmentOpcode := 0, fragmentCompressed := False\<rparr>) input
        else handlePayload c maxSize recvHeader opcode compressed [] amountToAllocate maxSize ws input
      else if \<not> isData then sendCloseDueToError ws input 1002 ''Received fragmented control frame''
      else handlePayload c maxSize recvHeader opcode False [] payloadLen maxSize
             (if fragments ws = []
              then ws\<lparr>fragmentOpcode := opcode, fragmentCompressed := isCompressed recvHeader\<rparr> else ws) input)"

function receive :: "'z connection \<Rightarrow> uint64 \<Rightarrow> 'z receiver \<Rightarrow> byte list list \<Rightarrow>
    received \<times> 'z receiver \<times> byte list list" where
  "receive c maxSize ws input =
     (if length (recvData ws) < headerSize (recvData ws) then
        (case tryRead 1 (recvBufferSize c - length (recvData ws)) input of
           (got, input) \<Rightarrow>
             let ws = ws\<lparr>receivedBytes := receivedBytes ws + word_of_nat (length got)\<rparr> in
             if got = [] then
               (Disconnected (if 0 < length (recvData ws) then ''WebSocket EOF in frame header''
                              else ''WebSocket disconnected between frames without sending `Close`.''), ws, input)
             else receive c maxSize (ws\<lparr>recvData := recvData ws @ got\<rparr>) input)
      else (case handleFrame c maxSize ws input of
              Done result ws input \<Rightarrow> (result, ws, input)
            | Again maxSize ws input \<Rightarrow> receive c maxSize ws input))"
  by pat_completeness auto


subsection \<open>Termination\<close>

text \<open>What is read is taken from the stream in order; less than the minimum only at its end.\<close>

definition weight :: "'z receiver \<Rightarrow> byte list list \<Rightarrow> nat" where
  "weight ws input = length (recvData ws) + 2 * length (concat input)"

lemma tryRead_weight:
  assumes "tryRead m n input = (got, rest)"
  shows "length (concat input) = length got + length (concat rest)"
  using tryRead_append [OF assms] by (metis length_append)

lemma headerSize_pos: "2 \<le> headerSize bytes"
  by (simp add: headerSize_def)

lemma dispatch_weight:
  assumes "dispatch c opcode maxSize original compressed message ws input = Again m ws' input'"
  shows "recvData ws' = recvData ws \<and> input' = input \<and> m = maxSize"
  using assms by (auto simp: dispatch_def deliver_def sendCloseDueToError_def
      split: if_splits option.splits prod.splits processed.splits bool.splits)

lemma readPayload_weight:
  assumes "readPayload n ws input = (payload, ws', input')"
  shows "weight ws' input' \<le> weight ws input"
  using assms by (auto simp: readPayload_def Let_def weight_def split: if_splits prod.splits dest: tryRead_weight)

lemma handlePayload_weight:
  assumes "handlePayload c maxSize h opcode compressed gathered allocated original ws input = Again m ws' input'"
  shows "weight ws' input' \<le> weight ws input"
proof -
  obtain payload ws1 input1 where r: "readPayload (unat (getPayloadLen h)) ws input = (payload, ws1, input1)"
    by (metis prod_cases3)
  have "weight ws' input' = weight ws1 input1"
    using assms unfolding handlePayload_def r Let_def
    by (auto simp: weight_def split: if_splits dest!: dispatch_weight)
  then show ?thesis using readPayload_weight [OF r] by simp
qed

lemma handleFrame_weight:
  assumes "handleFrame c maxSize ws input = Again m ws' input'" and "headerSize (recvData ws) \<le> length (recvData ws)"
  shows "weight ws' input' < weight ws input"
proof -
  have less: "weight ws1 input < weight ws input"
    if "recvData ws1 = drop (headerSize (recvData ws)) (recvData ws)" for ws1 :: "'a receiver"
    using assms(2) headerSize_pos [of "recvData ws"] that by (simp add: weight_def)
  show ?thesis
    using assms(1) unfolding handleFrame_def Let_def sendCloseDueToError_def
    by (auto split: if_split_asm intro!: le_less_trans [OF handlePayload_weight less])
qed

termination receive
proof (relation "measure (\<lambda>(c, maxSize, ws, input). weight ws input)", goal_cases)
  case (2 c maxSize ws input got rest ws')
  then have "length (concat input) = length got + length (concat rest)"
    by (metis tryRead_weight prod.collapse prod.inject)
  with 2 show ?case by (cases got) (auto simp: weight_def)
qed (auto dest: handleFrame_weight)

declare receive.simps [simp del]

section \<open>Sending\<close>

datatype 'z sent = Wrote "byte list" 'z | SendThrew | SendHangs

text \<open>The payload of a data frame in a connection with compression, without the tail that the
  receiver appends again.\<close>

definition compressMessage :: "'z zlib \<Rightarrow> ('z \<Rightarrow> 'z) \<Rightarrow> CompressionParameters \<Rightarrow> byte list \<Rightarrow> 'z \<Rightarrow> 'z sent" where
  "compressMessage deflate reset config message z =
     (let z = (if outboundNoContextTakeover config then reset z else z) in
      case processMessage deflate reset None False z message of
        None \<Rightarrow> SendHangs
      | Some (Parts compressed, z) \<Rightarrow>
          if 0 < length message then
            (if 4 \<le> length compressed \<and> drop (length compressed - 4) compressed = [0, 0, 0xFF, 0xFF]
             then Wrote (take (length compressed - 4) compressed) z else SendThrew)
          else Wrote [0] z
      | Some (_, z) \<Rightarrow> SendThrew)"

definition writeFrame :: "bool \<Rightarrow> Mask \<Rightarrow> byte \<Rightarrow> byte list \<Rightarrow> byte list" where
  "writeFrame compressed msk opcode message =
     (let message = (if \<not> Mask_isZero msk then Mask_apply msk message else message)
      in compose True compressed opcode (word_of_nat (length message)) msk @ message)"

text \<open>What \<open>sendImpl\<close> writes when the connection is not closed and no other send is in progress.\<close>

definition sendImpl :: "'z zlib \<Rightarrow> ('z \<Rightarrow> 'z) \<Rightarrow> CompressionParameters option \<Rightarrow> Mask \<Rightarrow> byte \<Rightarrow> byte list \<Rightarrow> 'z \<Rightarrow> 'z sent" where
  "sendImpl deflate reset configured msk opcode message z =
     (if opcode = OPCODE_BINARY \<or> opcode = OPCODE_TEXT then
        (case configured of
           Some config \<Rightarrow>
             (case compressMessage deflate reset config message z of
                Wrote payload z \<Rightarrow> Wrote (writeFrame True msk opcode payload) z
              | failed \<Rightarrow> failed)
         | None \<Rightarrow> Wrote (writeFrame False msk opcode message) z)
      else Wrote (writeFrame False msk opcode message) z)"

definition serializeClose :: "16 word \<Rightarrow> string \<Rightarrow> byte list option" where
  "serializeClose code reason =
     (if code = 1005 then (if reason = [] then Some [] else None)
      else Some ([ucast (drop_bit 8 code), ucast code] @ asBytes reason))"

text \<open>The two overloads of \<open>send\<close>, and \<open>close\<close>.\<close>

definition send_message :: "'z zlib \<Rightarrow> ('z \<Rightarrow> 'z) \<Rightarrow> CompressionParameters option \<Rightarrow> Mask \<Rightarrow> Message \<Rightarrow> 'z \<Rightarrow> 'z sent" where
  "send_message deflate reset configured msk message z =
     (case message of
        TextMessage text \<Rightarrow> sendImpl deflate reset configured msk OPCODE_TEXT (asBytes text) z
      | BinaryMessage bytes \<Rightarrow> sendImpl deflate reset configured msk OPCODE_BINARY bytes z
      | CloseMessage code reason \<Rightarrow>
          (case serializeClose code reason of
             None \<Rightarrow> SendThrew
           | Some payload \<Rightarrow> sendImpl deflate reset configured msk OPCODE_CLOSE payload z))"

fun send_all :: "'z zlib \<Rightarrow> ('z \<Rightarrow> 'z) \<Rightarrow> CompressionParameters option \<Rightarrow> (Mask \<times> Message) list \<Rightarrow> 'z \<Rightarrow> 'z sent" where
  "send_all deflate reset configured [] z = Wrote [] z"
| "send_all deflate reset configured ((msk, message) # messages) z =
     (case send_message deflate reset configured msk message z of
        Wrote bytes z \<Rightarrow>
          (case send_all deflate reset configured messages z of
             Wrote more_bytes z \<Rightarrow> Wrote (bytes @ more_bytes) z
           | failed \<Rightarrow> failed)
      | failed \<Rightarrow> failed)"

fun receive_all :: "nat \<Rightarrow> 'z connection \<Rightarrow> uint64 \<Rightarrow> 'z receiver \<Rightarrow> byte list list \<Rightarrow>
    received list \<times> 'z receiver \<times> byte list list" where
  "receive_all 0 c maxSize ws input = ([], ws, input)"
| "receive_all (Suc k) c maxSize ws input =
     (case receive c maxSize ws input of
        (result, ws, input) \<Rightarrow> (case receive_all k c maxSize ws input of
                                  (results, ws, input) \<Rightarrow> (result # results, ws, input)))"

text \<open>The state of a connection that was just opened, with what the handshake read too much.\<close>

definition newReceiver :: "byte list \<Rightarrow> 'z \<Rightarrow> 'z receiver" where
  "newReceiver leftover z =
     \<lparr>recvData = leftover, fragments = [], fragmentOpcode = 0, fragmentCompressed = False,
      decompressionContext = z, receivedBytes = 0, controls = []\<rparr>"

end
