(* ===== verification/Web_Socket_Receive.thy ===== *)
theory Web_Socket_Receive
  imports Web_Socket
begin

text \<open>
  Correctness of receiving. \<open>assemble\<close> is the protocol on whole frames, in terms of the data gathered
  so far; \<open>receive\<close> on the bytes of the frames refines it. Sending composes such frames, which gives the
  round trip. A second invariant, for any bytes, bounds what is allocated and delivered.
\<close>

section \<open>The protocol on frames\<close>

record Frame =
  final :: bool
  rsv1 :: bool
  opcode_of :: byte
  maskKey :: Mask
  body :: "byte list"

definition validFrame :: "Frame \<Rightarrow> bool" where
  "validFrame f \<longleftrightarrow> opcode_of f AND 0xf0 = 0 \<and> length (maskKey f) = 4 \<and> length (body f) < 2 ^ 32"

definition encodeFrame :: "Frame \<Rightarrow> byte list" where
  "encodeFrame f = compose (final f) (rsv1 f) (opcode_of f) (word_of_nat (length (body f))) (maskKey f) @
     Mask_apply (maskKey f) (body f)"

datatype partial = Idle | Partial byte bool "byte list"

definition gathered_of :: "partial \<Rightarrow> byte list" where
  "gathered_of p = (case p of Idle \<Rightarrow> [] | Partial _ _ d \<Rightarrow> d)"

definition inCompressed :: "partial \<Rightarrow> bool" where
  "inCompressed p = (case p of Idle \<Rightarrow> False | Partial _ z _ \<Rightarrow> z)"

definition notNegotiated :: string where
  "notNegotiated = ''Received a WebSocket frame whose compression bit was set, but the compression '' @
     ''extension was not negotiated for this connection.''"

definition decimal :: "nat \<Rightarrow> string" where
  "decimal n = the (stringify \<lparr>bytes_of = 8, is_signed = False\<rparr> (int n))"

datatype verdict = Complete Message | Violation "16 word" string | Continue partial "control list"

text \<open>A whole message with its opcode, in a connection without compression.\<close>

definition whole :: "partial \<Rightarrow> byte \<Rightarrow> bool \<Rightarrow> byte list \<Rightarrow> verdict" where
  "whole p opcode compressed data =
     (if compressed then Violation 1002 notNegotiated
      else if opcode = 1 then Complete (TextMessage (asChars data))
      else if opcode = 2 then Complete (BinaryMessage data)
      else if opcode = 8 then
        Complete (case data of
                    hi # lo # reason \<Rightarrow> CloseMessage (word_of_nat (unat hi * 256 + unat lo)) (asChars reason)
                  | _ \<Rightarrow> CloseMessage 1005 [])
      else if opcode = 9 then Continue p [QueuePong data]
      else if opcode = 10 then Continue p []
      else Violation 1002 (''Unknown opcode '' @ the (stringify \<lparr>bytes_of = 1, is_signed = False\<rparr> (uint opcode))))"

definition judge :: "nat \<Rightarrow> partial \<Rightarrow> Frame \<Rightarrow> verdict" where
  "judge maxSize p f =
     (if maxSize < length (gathered_of p) + length (body f) then
        Violation 1009 (''Message is too large: '' @ decimal (length (body f)) @ '' > '' @
          decimal (maxSize - length (gathered_of p)))
      else if 8 \<le> opcode_of f then
        (if final f then whole p (opcode_of f) (rsv1 f \<or> inCompressed p) (body f)
         else Violation 1002 ''Received fragmented control frame'')
      else
        (case p of
           Idle \<Rightarrow>
             if opcode_of f = 0 then Violation 1002 ''Unexpected continuation frame''
             else if final f then whole Idle (opcode_of f) (rsv1 f) (body f)
             else Continue (Partial (opcode_of f) (rsv1 f) (body f)) []
         | Partial opcode compressed data \<Rightarrow>
             if opcode_of f \<noteq> 0 then Violation 1002 ''Missing continuation frame''
             else if final f then whole Idle opcode (rsv1 f \<or> compressed) (data @ body f)
             else Continue (Partial opcode compressed (data @ body f)) []))"

datatype assembled =
  Assembled Message partial "control list" "Frame list"
| Violated "16 word" string "control list"
| Incomplete partial "control list"

fun assemble :: "nat \<Rightarrow> partial \<Rightarrow> control list \<Rightarrow> Frame list \<Rightarrow> assembled" where
  "assemble maxSize p cs [] = Incomplete p cs"
| "assemble maxSize p cs (f # fs) =
     (case judge maxSize p f of
        Complete message \<Rightarrow> Assembled message (if 8 \<le> opcode_of f then p else Idle) cs fs
      | Violation code reason \<Rightarrow> Violated code reason (cs @ [QueueClose code reason])
      | Continue p' more_controls \<Rightarrow> assemble maxSize p' (cs @ more_controls) fs)"


section \<open>Receiving refines the protocol\<close>

definition stream :: "'z receiver \<Rightarrow> byte list list \<Rightarrow> byte list" where
  "stream ws input = recvData ws @ concat input"

definition partial_of :: "'z receiver \<Rightarrow> partial" where
  "partial_of ws = (if fragments ws = [] then Idle
                    else Partial (fragmentOpcode ws) (fragmentCompressed ws) (concat (fragments ws)))"

definition receiver_ok :: "'z receiver \<Rightarrow> bool" where
  "receiver_ok ws \<longleftrightarrow> (if fragments ws = [] then \<not> fragmentCompressed ws else fragmentOpcode ws \<noteq> 0 \<and> fragmentOpcode ws < 8)"

lemma stream_updates [simp]:
  "stream (ws\<lparr>fragments := x\<rparr>) input = stream ws input"
  "stream (ws\<lparr>controls := cs\<rparr>) input = stream ws input"
  by (simp_all add: stream_def)

lemma partial_updates [simp]:
  "partial_of (ws\<lparr>controls := cs\<rparr>) = partial_of ws" "receiver_ok (ws\<lparr>controls := cs\<rparr>) = receiver_ok ws"
  "partial_of (ws\<lparr>recvData := d\<rparr>) = partial_of ws" "receiver_ok (ws\<lparr>recvData := d\<rparr>) = receiver_ok ws"
  "partial_of (ws\<lparr>receivedBytes := n\<rparr>) = partial_of ws" "receiver_ok (ws\<lparr>receivedBytes := n\<rparr>) = receiver_ok ws"
  by (simp_all add: partial_of_def receiver_ok_def)

lemma partial_cases:
  "fragments ws = [] \<Longrightarrow> partial_of ws = Idle"
  "fragments ws \<noteq> [] \<Longrightarrow> partial_of ws = Partial (fragmentOpcode ws) (fragmentCompressed ws) (concat (fragments ws))"
  "partial_of ws = Idle \<longleftrightarrow> fragments ws = []"
  by (simp_all add: partial_of_def)

text \<open>As soon as the buffer holds as many bytes as the header needs, it begins with the header.\<close>

lemma headerSize_prefix: "2 \<le> length bytes \<Longrightarrow> headerSize (bytes @ late) = headerSize bytes"
  by (simp add: headerSize_def nth_append)

lemma headerSize_composed:
  assumes "validFrame f" and "stream ws input = encodeFrame f @ rest"
    and h: "h = compose (final f) (rsv1 f) (opcode_of f) (word_of_nat (length (body f))) (maskKey f)"
  shows "headerSize (recvData ws) \<le> length h"
    and "headerSize (recvData ws) \<le> length (recvData ws) \<Longrightarrow> \<exists>x. recvData ws = h @ x"
proof -
  have eq: "recvData ws @ concat input = h @ Mask_apply (maskKey f) (body f) @ rest"
    using assms by (simp add: stream_def encodeFrame_def)
  have size: "headerSize (recvData ws @ concat input) = length h"
    unfolding eq using assms(1) by (simp add: h validFrame_def compose_fields)
  have two: "2 \<le> length h" using headerSize_pos [of "recvData ws @ concat input"] by (simp add: size)
  show le: "headerSize (recvData ws) \<le> length h"
  proof (cases "2 \<le> length (recvData ws)")
    case True
    then show ?thesis using size by (simp add: headerSize_prefix)
  next
    case False
    then show ?thesis using two by (simp add: headerSize_def)
  qed
  assume "headerSize (recvData ws) \<le> length (recvData ws)"
  then have "length h \<le> length (recvData ws)"
    using size headerSize_pos [of "recvData ws"] by (simp add: headerSize_prefix)
  then have "take (length h) (recvData ws @ concat input) = take (length h) (recvData ws)" by simp
  then have "h = take (length h) (recvData ws)" unfolding eq by simp
  then show "\<exists>x. recvData ws = h @ x" by (metis append_take_drop_id)
qed

lemma length_compose: "length msk = 4 \<Longrightarrow> length (compose fin z opcode n msk) \<le> 14"
  by (simp add: compose_def Let_def)

lemma readPayload_complete:
  assumes "stream ws input = payload @ rest"
  shows "\<exists>d n input'. readPayload (length payload) ws input =
      (payload, ws\<lparr>recvData := d, receivedBytes := n\<rparr>, input') \<and> d @ concat input' = rest"
proof (cases "length payload \<le> length (recvData ws)")
  case True
  have "take (length payload) (recvData ws @ concat input) = payload"
    "drop (length payload) (recvData ws @ concat input) = rest"
    using assms by (simp_all add: stream_def)
  then have "readPayload (length payload) ws input =
      (payload, ws\<lparr>recvData := drop (length payload) (recvData ws), receivedBytes := receivedBytes ws\<rparr>, input)"
    "drop (length payload) (recvData ws) @ concat input = rest"
    using True by (simp_all add: readPayload_def Let_def)
  then show ?thesis by blast
next
  case False
  define k where "k = length payload - length (recvData ws)"
  obtain late input' where r: "tryRead k k input = (late, input')" by force
  have k: "0 < k" using False by (simp add: k_def)
  have eq: "recvData ws @ late @ concat input' = payload @ rest"
    using assms tryRead_append [OF r] by (simp add: stream_def)
  have "length late = k"
  proof (rule ccontr)
    assume "length late \<noteq> k"
    then have "length late < k" "input' = []" using tryRead_bounds [OF r] by auto
    then have "length (recvData ws @ late @ concat input') < length payload" using False by (simp add: k_def)
    then show False using arg_cong [OF eq, of length] by simp
  qed
  then have "length (recvData ws @ late) = length payload" using False by (simp add: k_def)
  moreover have "(recvData ws @ late) @ concat input' = payload @ rest" using eq by simp
  ultimately have "recvData ws @ late = payload \<and> concat input' = rest" by (metis append_eq_append_conv)
  then show ?thesis using False r k by (auto simp: readPayload_def Let_def k_def)
qed

lemma handlePayload_complete:
  assumes "stream ws input = Mask_apply (getMask h) data @ rest"
    and "unat (getPayloadLen h) = length data" and "length gathered + length data \<le> unat allocated"
    and pad: "pad = map (garbage c) [length gathered + length data..<unat allocated]"
  shows "\<exists>d n input'. d @ concat input' = rest \<and>
    handlePayload c m h opcode compressed gathered allocated original ws input =
      (let ws = ws\<lparr>recvData := d, receivedBytes := n\<rparr> in
       if \<not> isFin h then Again (m - allocated) (ws\<lparr>fragments := fragments ws @ [gathered @ data @ pad]\<rparr>) input'
       else dispatch c opcode m original compressed (gathered @ data @ pad) ws input')"
proof -
  obtain d n input' where r: "readPayload (length data) ws input =
      (Mask_apply (getMask h) data, ws\<lparr>recvData := d, receivedBytes := n\<rparr>, input')" "d @ concat input' = rest"
    using readPayload_complete [OF assms(1)] by auto
  have "length (gathered @ data @ pad) = unat allocated" using assms(3) by (simp add: pad)
  then have "word_of_nat (length gathered + (length data + length pad)) = allocated"
    by simp
  then show ?thesis using r assms(2-)
    by (intro exI [of _ d] exI [of _ n] exI [of _ input'])
      (simp add: handlePayload_def Let_def Mask_apply_twice)
qed

text \<open>One frame. \<open>M\<close> is the size that the message as a whole may have.\<close>

definition agrees :: "nat \<Rightarrow> byte list \<Rightarrow> 'z receiver \<Rightarrow> bool \<Rightarrow> verdict \<Rightarrow> 'z next_step \<Rightarrow> bool" where
  "agrees M rest ws control v r =
     (case v of
        Complete message \<Rightarrow>
          (\<exists>ws' input'. r = Done (Received message) ws' input' \<and> stream ws' input' = rest \<and> receiver_ok ws' \<and>
             partial_of ws' = (if control then partial_of ws else Idle) \<and> controls ws' = controls ws)
      | Violation code reason \<Rightarrow>
          (\<exists>ws' input'. r = Done (ProtocolError code reason) ws' input' \<and>
             controls ws' = controls ws @ [QueueClose code reason])
      | Continue p cs \<Rightarrow>
          (\<exists>m ws' input'. r = Again m ws' input' \<and> stream ws' input' = rest \<and> receiver_ok ws' \<and>
             partial_of ws' = p \<and> controls ws' = controls ws @ cs \<and> unat m + length (gathered_of p) = M))"

lemma agrees_violation:
  "controls ws' = controls ws \<Longrightarrow>
   agrees M rest ws control (Violation code reason) (sendCloseDueToError ws' input code reason)"
  by (simp add: agrees_def sendCloseDueToError_def)

lemma dispatch_agrees:
  assumes "compressionConfig c = None" and "opcode \<noteq> 0" and "receiver_ok ws" and "stream ws input = rest"
    and "length pad = (if compressed then 4 else if opcode = OPCODE_TEXT then 1 else 0)"
    and "opcode = 9 \<or> opcode = 10 \<Longrightarrow> unat m + length (gathered_of (partial_of ws)) = M"
    and "controls ws = controls ws0" and "partial_of ws = (if control then partial_of ws0 else Idle)"
  shows "agrees M rest ws0 control (whole (partial_of ws) opcode compressed data)
    (dispatch c opcode m original compressed (data @ pad) ws input)"
proof -
  have code: "push_bit 8 (ucast hi) OR ucast lo = (word_of_nat (unat hi * 256 + unat lo) :: 16 word)" for hi lo :: byte
  proof -
    have small: "unat hi * 256 < 65536" "unat hi < 65536" "unat lo < 65536" "unat hi * 256 + unat lo < 65536"
      using unat_byte [of hi] unat_byte [of lo] by linarith+
    have "unat (push_bit 8 (ucast hi) OR ucast lo :: 16 word) = unat (push_bit 8 (ucast hi) :: 16 word) + unat (ucast lo :: 16 word)"
      using small by (intro unat_or_add [of 8]) (simp_all add: bits_to_nat)
    also have "\<dots> = unat hi * 256 + unat lo"
      using small by (simp add: bits_to_nat)
    finally have *: "unat (push_bit 8 (ucast hi) OR ucast lo :: 16 word) = unat hi * 256 + unat lo" .
    show ?thesis
      by (rule word_unat_eq_iff [THEN iffD2]) (simp only: * unat_of_nat, use small(4) in simp)
  qed
  note defs = agrees_def whole_def dispatch_def sendCloseDueToError_def opcodes notNegotiated_def
  note facts = assms(1-4) assms(6-8)
  have pad1: "opcode = 1 \<Longrightarrow> \<not> compressed \<Longrightarrow> butlast (data @ pad) = data"
    using assms(5) by (auto simp: opcodes length_Suc_conv)
  have pad0: "opcode \<noteq> 1 \<Longrightarrow> \<not> compressed \<Longrightarrow> pad = []"
    using assms(5) by (auto simp: opcodes)
  consider "compressed" | "\<not> compressed" "opcode = 1" | "\<not> compressed" "opcode = 2" | "\<not> compressed" "opcode = 8"
    | "\<not> compressed" "opcode = 9" | "\<not> compressed" "opcode = 10"
    | "\<not> compressed" "opcode \<noteq> 1" "opcode \<noteq> 2" "opcode \<noteq> 8" "opcode \<noteq> 9" "opcode \<noteq> 10" by blast
  then show ?thesis
  proof cases
    case 1
    then show ?thesis using facts by (simp add: defs)
  next
    case 2
    then show ?thesis using facts pad1 by (simp add: defs)
  next
    case 3
    then show ?thesis using facts pad0 by (simp add: defs)
  next
    case 4
    then show ?thesis using facts pad0 code by (auto simp: defs split: list.splits)
  next
    case 5
    then show ?thesis using facts pad0 by (simp add: defs)
  next
    case 6
    then show ?thesis using facts pad0 by (simp add: defs)
  next
    case 7
    then show ?thesis using facts pad0 by (simp add: defs)
  qed
qed

lemma uint64_small: "n < 2 ^ 64 \<Longrightarrow> unat (word_of_nat n :: uint64) = n"
  by (simp add: unat_of_nat)

lemma uint64_add:
  fixes a b :: uint64
  assumes "unat a + unat b < 2 ^ 64"
  shows "unat (a + b) = unat a + unat b"
  using assms by (simp add: unat_word_ariths)

text \<open>The fields of the header of an encoded frame, for a receive buffer that holds all of it.\<close>

lemma buffered_header:
  assumes "validFrame f" and "stream ws input = encodeFrame f @ rest"
    and "headerSize (recvData ws) \<le> length (recvData ws)"
  shows "isFin (recvData ws) = final f" and "isCompressed (recvData ws) = rsv1 f"
    and "\<not> hasRsv2or3 (recvData ws)" and "getOpcode (recvData ws) = opcode_of f"
    and "getMask (recvData ws) = maskKey f"
    and "getPayloadLen (recvData ws) = word_of_nat (length (body f))"
    and "drop (headerSize (recvData ws)) (recvData ws) @ concat input = Mask_apply (maskKey f) (body f) @ rest"
proof -
  define h where "h = compose (final f) (rsv1 f) (opcode_of f) (word_of_nat (length (body f))) (maskKey f)"
  obtain x where x: "recvData ws = h @ x" using headerSize_composed(2) [OF assms(1,2) h_def assms(3)] by blast
  have v: "opcode_of f AND 0xf0 = 0" "length (maskKey f) = 4" "length (body f) < 2 ^ 32"
    using assms(1) by (simp_all add: validFrame_def)
  note fields = compose_fields [OF v(1,2)]
  show "isFin (recvData ws) = final f" "isCompressed (recvData ws) = rsv1 f"
    "\<not> hasRsv2or3 (recvData ws)" "getOpcode (recvData ws) = opcode_of f" "getMask (recvData ws) = maskKey f"
    unfolding x h_def by (simp_all add: fields)
  have "\<not> bit (word_of_nat (length (body f)) :: uint64) i" if "32 \<le> i" for i
  proof -
    have "(word_of_nat (length (body f)) :: uint64) = take_bit 32 (word_of_nat (length (body f)))"
      by (rule word_unat_eq_iff [THEN iffD2]) (use v(3) in \<open>simp add: unat_take_bit unat_of_nat\<close>)
    then show ?thesis using that by (metis bit_take_bit_iff not_less)
  qed
  then show "getPayloadLen (recvData ws) = word_of_nat (length (body f))"
    unfolding x h_def by (subst compose_length [OF v(2)]) auto
  have size: "headerSize (recvData ws) = length h" unfolding x h_def by (simp add: fields)
  show "drop (headerSize (recvData ws)) (recvData ws) @ concat input = Mask_apply (maskKey f) (body f) @ rest"
    using assms(2) unfolding size by (simp add: x stream_def encodeFrame_def h_def)
qed

lemma final_agrees:
  assumes "stream ws input = Mask_apply (getMask h) data @ rest" and "isFin h"
    and "unat (getPayloadLen h) = length data"
    and "unat allocated = length gathered + length data +
      (if compressed then 4 else if opcode = OPCODE_TEXT then 1 else 0)"
    and "compressionConfig c = None" and "opcode \<noteq> 0" and "receiver_ok ws"
    and "opcode = 9 \<or> opcode = 10 \<Longrightarrow> unat m + length (gathered_of (partial_of ws)) = M"
    and "controls ws = controls ws0" and "partial_of ws = (if control then partial_of ws0 else Idle)"
  shows "agrees M rest ws0 control (whole (partial_of ws) opcode compressed (gathered @ data))
    (handlePayload c m h opcode compressed gathered allocated original ws input)"
proof -
  define pad where "pad = map (garbage c) [length gathered + length data..<unat allocated]"
  have le: "length gathered + length data \<le> unat allocated" using assms(4) by simp
  obtain d n input' where r: "d @ concat input' = rest"
    "handlePayload c m h opcode compressed gathered allocated original ws input =
     dispatch c opcode m original compressed ((gathered @ data) @ pad) (ws\<lparr>recvData := d, receivedBytes := n\<rparr>) input'"
    using handlePayload_complete [OF assms(1,3) le pad_def, of m opcode compressed original] assms(2) by auto
  have "length pad = (if compressed then 4 else if opcode = OPCODE_TEXT then 1 else 0)"
    using assms(4) by (simp add: pad_def)
  then show ?thesis unfolding r(2)
    using dispatch_agrees [of c opcode "ws\<lparr>recvData := d, receivedBytes := n\<rparr>" input' rest pad compressed m M ws0
        control "gathered @ data" original] assms(5-) r(1)
    by (simp add: stream_def)
qed

lemma fragment_agrees:
  assumes "stream ws input = Mask_apply (getMask h) data @ rest" and "\<not> isFin h"
    and "unat (getPayloadLen h) = length data" and "allocated = getPayloadLen h"
    and "length data \<le> unat m" and "unat m + length (concat (fragments ws)) = M"
    and "controls ws = controls ws0" and "fragmentOpcode ws \<noteq> 0" and "fragmentOpcode ws < 8"
  shows "agrees M rest ws0 control
      (Continue (Partial (fragmentOpcode ws) (fragmentCompressed ws) (concat (fragments ws) @ data)) [])
      (handlePayload c m h opcode compressed [] allocated original ws input)"
proof -
  define pad where "pad = map (garbage c) [length ([] :: byte list) + length data..<unat allocated]"
  have le: "length ([] :: byte list) + length data \<le> unat allocated" using assms(3,4) by simp
  have "pad = []" using assms(3,4) by (simp add: pad_def)
  then obtain d n input' where r: "d @ concat input' = rest"
    "handlePayload c m h opcode compressed [] allocated original ws input =
     Again (m - allocated) (ws\<lparr>recvData := d, receivedBytes := n, fragments := fragments ws @ [data]\<rparr>) input'"
    using handlePayload_complete [OF assms(1,3) le pad_def, of m opcode compressed original] assms(2) by auto
  have "allocated \<le> m" using assms(3-5) by (simp add: word_le_nat_alt)
  then have "unat (m - allocated) = unat m - length data" using assms(3,4) by (simp add: unat_sub)
  then show ?thesis using assms(5-) r(1) unfolding r(2)
    by (simp add: agrees_def stream_def receiver_ok_def partial_of_def gathered_of_def)
qed

lemma stringify_decimal:
  "the (stringify \<lparr>bytes_of = 8, is_signed = False\<rparr> (uint (n :: uint64))) = decimal (unat n)"
  by (simp add: decimal_def)

lemma opcode_control: "opcode_of f < OPCODE_FIRST_CONTROL \<longleftrightarrow> \<not> 8 \<le> opcode_of f"
  by (simp add: OPCODE_FIRST_CONTROL_def not_le)

lemma handleFrame_agrees:
  assumes "validFrame f" and "stream ws input = encodeFrame f @ rest"
    and "headerSize (recvData ws) \<le> length (recvData ws)" and "receiver_ok ws"
    and "compressionConfig c = None" and "unat m + length (gathered_of (partial_of ws)) = M" and "M + 4 < 2 ^ 64"
  shows "agrees M rest ws (8 \<le> opcode_of f) (judge M (partial_of ws) f) (handleFrame c m ws input)"
proof -
  note h = buffered_header [OF assms(1-3)]
  define ws1 where "ws1 = ws\<lparr>recvData := drop (headerSize (recvData ws)) (recvData ws)\<rparr>"
  have s: "stream ws1 input = Mask_apply (getMask (recvData ws)) (body f) @ rest"
    using h(5,7) by (simp add: ws1_def stream_def)
  have len: "length (body f) < 2 ^ 32" using assms(1) by (simp add: validFrame_def)
  then have n: "unat (getPayloadLen (recvData ws)) = length (body f)" by (simp add: h uint64_small)
  have ws1: "fragments ws1 = fragments ws" "controls ws1 = controls ws" "partial_of ws1 = partial_of ws"
    "fragmentOpcode ws1 = fragmentOpcode ws" "fragmentCompressed ws1 = fragmentCompressed ws" "receiver_ok ws1"
    using assms(4) by (simp_all add: ws1_def)
  have big: "m < getPayloadLen (recvData ws) \<longleftrightarrow> M < length (gathered_of (partial_of ws)) + length (body f)"
    using assms(6) by (auto simp: word_less_nat_alt n)
  have "unat m = M - length (gathered_of (partial_of ws))" using assms(6) by simp
  note frame = handleFrame_def [of c m ws input, unfolded Let_def, folded ws1_def]
  show ?thesis
  proof (cases "m < getPayloadLen (recvData ws)")
    case True
    then show ?thesis
      using h(3) big \<open>unat m = _\<close> n ws1
      by (simp add: frame judge_def agrees_violation stringify_decimal)
  next
    case False
    have fits: "length (gathered_of (partial_of ws)) + length (body f) \<le> M" using False big by simp
    have data: "length (body f) \<le> unat m" using fits assms(6) by simp
    define amount where "amount z opcode = (if z then getPayloadLen (recvData ws) + 4
        else getPayloadLen (recvData ws) + (if opcode = OPCODE_TEXT then 1 else 0))" for z opcode
    have amount: "unat (amount z opcode) = length (body f) + (if z then 4 else if opcode = OPCODE_TEXT then 1 else 0)"
      for z opcode
      using len by (simp add: amount_def uint64_add n)
    note frame = frame [folded amount_def]
    consider "8 \<le> opcode_of f" | "\<not> 8 \<le> opcode_of f" "fragments ws = []"
      | "\<not> 8 \<le> opcode_of f" "fragments ws \<noteq> []" by blast
    then show ?thesis
    proof cases
      case 1
      then have "opcode_of f \<noteq> 0" by auto
      moreover have "fragmentCompressed ws = inCompressed (partial_of ws)"
        using assms(4) by (simp add: receiver_ok_def inCompressed_def partial_of_def)
      moreover have "agrees M rest ws True (whole (partial_of ws1) (opcode_of f) z ([] @ body f))
          (handlePayload c m (recvData ws) (opcode_of f) z [] (amount z (opcode_of f)) m ws1 input)"
        if "final f" for z
        by (rule final_agrees [OF s]) (use that assms(5,6) amount n ws1 h(1) \<open>opcode_of f \<noteq> 0\<close> in simp_all)
      ultimately show ?thesis
        using False h(1-4) fits 1 ws1
        by (cases "final f")
          (simp_all add: frame judge_def opcode_control OPCODE_CONTINUATION_def agrees_violation)
    next
      case 2
      then have z: "\<not> fragmentCompressed ws" "partial_of ws = Idle"
        using assms(4) by (simp_all add: receiver_ok_def partial_of_def)
      have "agrees M rest ws False (whole (partial_of ws1) (opcode_of f) z ([] @ body f))
          (handlePayload c m (recvData ws) (opcode_of f) z [] (amount z (opcode_of f)) m ws1 input)"
        if "final f" "opcode_of f \<noteq> 0" for z
        by (rule final_agrees [OF s]) (use that assms(5,6) amount n ws1 h(1) 2 z in auto)
      moreover have "agrees M rest ws False (Continue (Partial (opcode_of f) (rsv1 f) (body f)) [])
          (handlePayload c m (recvData ws) (opcode_of f) False [] (getPayloadLen (recvData ws)) m
            (ws1\<lparr>fragmentOpcode := opcode_of f, fragmentCompressed := rsv1 f\<rparr>) input)"
        if "\<not> final f" "opcode_of f \<noteq> 0"
        using fragment_agrees [of "ws1\<lparr>fragmentOpcode := opcode_of f, fragmentCompressed := rsv1 f\<rparr>" input
            "recvData ws" "body f" rest "getPayloadLen (recvData ws)" m M ws] that s data n h(1) ws1 2 z assms(6)
        by (simp add: stream_def gathered_of_def not_le)
      ultimately show ?thesis
        using False h(1-4) fits 2 z ws1
        by (cases "opcode_of f = 0"; cases "final f")
          (simp_all add: frame judge_def opcode_control OPCODE_CONTINUATION_def agrees_violation)
    next
      case 3
      have p: "fragmentOpcode ws \<noteq> 0" "fragmentOpcode ws < 8" "gathered_of (partial_of ws) = concat (fragments ws)"
        "partial_of ws = Partial (fragmentOpcode ws) (fragmentCompressed ws) (concat (fragments ws))"
        using assms(4) 3 by (simp_all add: receiver_ok_def partial_of_def gathered_of_def)
      define offset :: uint64 where "offset = word_of_nat (length (concat (fragments ws)))"
      define ws2 where "ws2 = ws1\<lparr>fragments := [], fragmentOpcode := 0, fragmentCompressed := False\<rparr>"
      have sum: "length (concat (fragments ws)) + length (body f) + 4 < 2 ^ 64" using fits p(3) assms(7) by simp
      have offset: "unat offset = length (concat (fragments ws))" using sum by (simp add: offset_def uint64_small)
      have small: "unat (amount z opcode) \<le> length (body f) + 4" for z opcode by (simp add: amount)
      have size: "unat (offset + amount z opcode) = unat offset + unat (amount z opcode)" for z opcode
        using sum small [of z opcode] by (intro uint64_add) (simp add: offset)
      have s2: "stream ws2 input = Mask_apply (getMask (recvData ws)) (body f) @ rest" using s by (simp add: ws2_def stream_def)
      have "agrees M rest ws False (whole (partial_of ws2) (fragmentOpcode ws) z (concat (fragments ws) @ body f))
          (handlePayload c m (recvData ws) (fragmentOpcode ws) z (concat (fragments ws))
            (offset + amount z (fragmentOpcode ws)) original ws2 input)"
        if "final f" for z original
        by (rule final_agrees [OF s2])
          (use that assms(5) amount size offset n p h(1) ws1 in \<open>auto simp: ws2_def partial_of_def receiver_ok_def\<close>)
      moreover have "agrees M rest ws False
          (Continue (Partial (fragmentOpcode ws) (fragmentCompressed ws) (concat (fragments ws) @ body f)) [])
          (handlePayload c m (recvData ws) (fragmentOpcode ws) False [] (getPayloadLen (recvData ws)) m ws1 input)"
        if "\<not> final f"
        using fragment_agrees [OF s] that data n h(1) ws1 p assms(6) by simp
      moreover have zero: "0 < OPCODE_FIRST_CONTROL" by (simp add: OPCODE_FIRST_CONTROL_def)
      moreover have "partial_of ws2 = Idle" by (simp add: ws2_def partial_of_def)
      ultimately show ?thesis
        using False h(1-4) fits 3 p ws1
        by (cases "opcode_of f = 0"; cases "final f")
          (simp_all add: frame judge_def opcode_control OPCODE_CONTINUATION_def agrees_violation
            zero offset_def [symmetric] ws2_def [symmetric])
    qed
  qed
qed

text \<open>The buffer is filled until it holds the header.\<close>

lemma receive_fill:
  assumes "validFrame f" and "stream ws input = encodeFrame f @ rest" and "14 \<le> recvBufferSize c"
  shows "\<exists>d n input'. d @ concat input' = encodeFrame f @ rest \<and> headerSize d \<le> length d \<and>
    receive c m ws input = receive c m (ws\<lparr>recvData := d, receivedBytes := n\<rparr>) input'"
  using assms
proof (induction c m ws input rule: receive.induct)
  case (1 c m ws input)
  define h where "h = compose (final f) (rsv1 f) (opcode_of f) (word_of_nat (length (body f))) (maskKey f)"
  show ?case
  proof (cases "length (recvData ws) < headerSize (recvData ws)")
    case False
    then show ?thesis using "1.prems"
      by (intro exI [of _ "recvData ws"] exI [of _ "receivedBytes ws"] exI [of _ input]) (simp add: stream_def)
  next
    case True
    obtain got input1 where r: "tryRead 1 (recvBufferSize c - length (recvData ws)) input = (got, input1)" by force
    define ws1 where "ws1 = ws\<lparr>receivedBytes := receivedBytes ws + word_of_nat (length got)\<rparr>"
    have "length h \<le> 14" using "1.prems"(1) by (simp add: h_def validFrame_def length_compose)
    moreover have le: "headerSize (recvData ws) \<le> length h" by (rule headerSize_composed [OF "1.prems"(1,2) h_def])
    ultimately have "1 \<le> recvBufferSize c - length (recvData ws)" using True "1.prems"(3) by simp
    moreover have "concat input \<noteq> []"
    proof
      assume "concat input = []"
      then have "recvData ws = encodeFrame f @ rest" using "1.prems"(2) by (metis append_Nil2 stream_def)
      then show False using True le by (simp add: encodeFrame_def h_def)
    qed
    ultimately have got: "got \<noteq> []" using tryRead_bounds [OF r] tryRead_append [OF r] by auto
    have "stream (ws1\<lparr>recvData := recvData ws @ got\<rparr>) input1 = encodeFrame f @ rest"
      using "1.prems"(2) tryRead_append [OF r] by (simp add: stream_def ws1_def)
    from "1.IH"(1) [OF True r [symmetric] ws1_def got, of] this "1.prems"(1,3) got True
    obtain d n input' where "d @ concat input' = encodeFrame f @ rest" "headerSize d \<le> length d"
      "receive c m (ws1\<lparr>recvData := recvData ws @ got\<rparr>) input1 =
       receive c m (ws1\<lparr>recvData := recvData ws @ got, recvData := d, receivedBytes := n\<rparr>) input'"
      by (auto simp: ws1_def)
    then show ?thesis using True r got
      by (intro exI [of _ d] exI [of _ n] exI [of _ input']) (simp add: receive.simps [of c m ws] ws1_def Let_def)
  qed
qed

definition received_as :: "byte list \<Rightarrow> received \<times> 'z receiver \<times> byte list list \<Rightarrow> assembled \<Rightarrow> bool" where
  "received_as tail r a =
     (case r of (result, ws, input) \<Rightarrow>
        (case a of
           Assembled message p cs fs \<Rightarrow> result = Received message \<and> partial_of ws = p \<and> controls ws = cs \<and>
             receiver_ok ws \<and> stream ws input = concat (map encodeFrame fs) @ tail
         | Violated code reason cs \<Rightarrow> result = ProtocolError code reason \<and> controls ws = cs
         | Incomplete p cs \<Rightarrow> True))"

lemma receive_frames:
  assumes "list_all validFrame fs" and "stream ws input = concat (map encodeFrame fs) @ tail"
    and "14 \<le> recvBufferSize c" and "receiver_ok ws" and "compressionConfig c = None"
    and "unat m + length (gathered_of (partial_of ws)) = M" and "M + 4 < 2 ^ 64"
  shows "received_as tail (receive c m ws input) (assemble M (partial_of ws) (controls ws) fs)"
  using assms
proof (induction fs arbitrary: m ws input)
  case Nil
  then show ?case by (simp add: received_as_def split: prod.splits)
next
  case (Cons f fs)
  have f: "validFrame f" and fs: "list_all validFrame fs" using Cons.prems(1) by simp_all
  define rest where "rest = concat (map encodeFrame fs) @ tail"
  have "stream ws input = encodeFrame f @ rest" using Cons.prems(2) by (simp add: rest_def)
  from receive_fill [OF f this Cons.prems(3), of m]
  obtain d n input1 where d: "d @ concat input1 = encodeFrame f @ rest" "headerSize d \<le> length d"
    "receive c m ws input = receive c m (ws\<lparr>recvData := d, receivedBytes := n\<rparr>) input1" by blast
  define ws1 where "ws1 = ws\<lparr>recvData := d, receivedBytes := n\<rparr>"
  have ws1: "stream ws1 input1 = encodeFrame f @ rest" "headerSize (recvData ws1) \<le> length (recvData ws1)"
    "receiver_ok ws1" "partial_of ws1 = partial_of ws" "controls ws1 = controls ws"
    using d(1,2) Cons.prems(4) by (simp_all add: ws1_def stream_def)
  have "unat m + length (gathered_of (partial_of ws1)) = M" using Cons.prems(6) ws1(4) by simp
  from handleFrame_agrees [OF f ws1(1-3) Cons.prems(5) this Cons.prems(7)]
  have agree: "agrees M rest ws1 (8 \<le> opcode_of f) (judge M (partial_of ws) f) (handleFrame c m ws1 input1)"
    by (simp only: ws1(4))
  have step: "receive c m ws input = (case handleFrame c m ws1 input1 of
      Done result ws input \<Rightarrow> (result, ws, input) | Again m ws input \<Rightarrow> receive c m ws input)"
    using ws1(2) by (simp add: d(3) ws1_def [symmetric] receive.simps [of c m ws1])
  show ?case
  proof (cases "judge M (partial_of ws) f")
    case (Complete message)
    then show ?thesis using agree ws1(4,5) by (auto simp: step agrees_def received_as_def rest_def)
  next
    case (Violation code reason)
    then show ?thesis using agree ws1(5) by (auto simp: step agrees_def received_as_def)
  next
    case (Continue p cs)
    then obtain m' ws' input' where r: "handleFrame c m ws1 input1 = Again m' ws' input'" "stream ws' input' = rest"
      "receiver_ok ws'" "partial_of ws' = p" "controls ws' = controls ws @ cs" "unat m' + length (gathered_of p) = M"
      using agree ws1(5) by (auto simp: agrees_def)
    have "received_as tail (receive c m' ws' input') (assemble M p (controls ws @ cs) fs)"
      using Cons.IH [OF fs, of ws' input' m'] r Cons.prems(3,5,7) by (simp add: rest_def)
    then show ?thesis using Continue r(1) by (simp add: step)
  qed
qed

section \<open>Round trip\<close>

definition opcode_of_message :: "Message \<Rightarrow> byte" where
  "opcode_of_message message =
     (case message of TextMessage _ \<Rightarrow> 1 | BinaryMessage _ \<Rightarrow> 2 | CloseMessage _ _ \<Rightarrow> 8)"

definition payload_of :: "Message \<Rightarrow> byte list" where
  "payload_of message =
     (case message of
        TextMessage text \<Rightarrow> asBytes text
      | BinaryMessage bytes \<Rightarrow> bytes
      | CloseMessage code reason \<Rightarrow>
          (if code = 1005 then [] else [ucast (drop_bit 8 code), ucast code] @ asBytes reason))"

text \<open>Code 1005 stands for a close message without a code.\<close>

definition sendable :: "nat \<Rightarrow> Mask \<times> Message \<Rightarrow> bool" where
  "sendable limit m \<longleftrightarrow> length (fst m) = 4 \<and> length (payload_of (snd m)) \<le> limit \<and>
     length (payload_of (snd m)) < 2 ^ 32 \<and>
     (case snd m of CloseMessage code reason \<Rightarrow> code = 1005 \<longrightarrow> reason = [] | _ \<Rightarrow> True)"

definition frame_of :: "Mask \<times> Message \<Rightarrow> Frame" where
  "frame_of m = \<lparr>final = True, rsv1 = False, opcode_of = opcode_of_message (snd m), maskKey = fst m,
                 body = payload_of (snd m)\<rparr>"

lemma writeFrame_encodes:
  assumes "length (maskKey f) = 4" and "final f"
  shows "writeFrame (rsv1 f) (maskKey f) (opcode_of f) (body f) = encodeFrame f"
  using assms by (simp add: writeFrame_def encodeFrame_def Mask_isZero_iff Mask_apply_none Let_def)

lemma send_message_frame:
  assumes "sendable limit (msk, message)"
  shows "send_message deflate reset None msk message z = Wrote (encodeFrame (frame_of (msk, message))) z"
  using assms writeFrame_encodes [of "frame_of (msk, message)"]
  by (cases message) (auto simp: send_message_def sendImpl_def frame_of_def sendable_def serializeClose_def
      opcode_of_message_def payload_of_def opcodes)

lemma send_all_frames:
  assumes "list_all (sendable limit) ms"
  shows "send_all deflate reset None ms z = Wrote (concat (map encodeFrame (map frame_of ms))) z"
  using assms
proof (induction ms)
  case (Cons m ms)
  obtain msk message where m: "m = (msk, message)" by force
  show ?case using Cons send_message_frame [of limit msk message deflate reset z] by (simp add: m)
qed simp

lemma frame_of_valid: "sendable limit m \<Longrightarrow> validFrame (frame_of m)"
  by (auto simp: sendable_def validFrame_def frame_of_def opcode_of_message_def split: Message.splits)

lemma code_bytes: "(word_of_nat (unat (ucast (drop_bit 8 code) :: byte) * 256 + unat (ucast code :: byte)) :: 16 word) = code"
proof (rule word_unat_eq_iff [THEN iffD2])
  have small: "unat code < 65536" using unat_bound [of code] by simp
  moreover from this have "unat code div 256 < 256" by (simp add: less_mult_imp_div_less)
  ultimately have "unat code div 256 mod 256 * 256 + unat code mod 256 = unat code" by simp
  with small show "unat (word_of_nat (unat (ucast (drop_bit 8 code) :: byte) * 256 + unat (ucast code :: byte)) :: 16 word) = unat code"
    by (simp only: unat_of_nat) (simp add: bits_to_nat)
qed

lemmas code_bytes_ucast = code_bytes [simplified]

lemma frame_of_complete:
  assumes "sendable limit m" and "limit \<le> M"
  shows "judge M Idle (frame_of m) = Complete (snd m)"
  using assms by (auto simp: judge_def whole_def frame_of_def sendable_def opcode_of_message_def payload_of_def
      gathered_of_def inCompressed_def code_bytes_ucast comp_def split: Message.splits)

lemma receive_all_frames:
  assumes "list_all (sendable M) ms" and "stream ws input = concat (map encodeFrame (map frame_of ms)) @ tail"
    and "14 \<le> recvBufferSize c" and "receiver_ok ws" and "compressionConfig c = None"
    and "unat m = M" and "M + 4 < 2 ^ 64" and "partial_of ws = Idle"
  shows "\<exists>ws' input'. receive_all (length ms) c m ws input = (map (Received \<circ> snd) ms, ws', input') \<and>
    stream ws' input' = tail \<and> partial_of ws' = Idle \<and> receiver_ok ws' \<and> controls ws' = controls ws"
  using assms
proof (induction ms arbitrary: ws input)
  case (Cons m' ms)
  obtain result ws1 input1 where r: "receive c m ws input = (result, ws1, input1)" by (metis prod_cases3)
  have valid: "list_all validFrame (map frame_of (m' # ms))"
    using Cons.prems(1) by (auto simp: list.pred_map list_all_iff intro: frame_of_valid)
  have "judge M Idle (frame_of m') = Complete (snd m')"
    using Cons.prems(1) frame_of_complete [of M m' M] by simp
  then have "assemble M (partial_of ws) (controls ws) (map frame_of (m' # ms)) =
      Assembled (snd m') Idle (controls ws) (map frame_of ms)"
    using Cons.prems(8) by simp
  with receive_frames [OF valid Cons.prems(2-5), of m M] Cons.prems(6-8)
  have step: "result = Received (snd m')" "partial_of ws1 = Idle" "controls ws1 = controls ws" "receiver_ok ws1"
    "stream ws1 input1 = concat (map encodeFrame (map frame_of ms)) @ tail"
    by (simp_all add: r received_as_def gathered_of_def)
  then show ?case
    using Cons.IH [of ws1 input1] Cons.prems(1,3,5-7) by (auto simp: r)
qed simp

section \<open>The compression loop\<close>

lemma processLoop_bounded:
  assumes "processLoop pump reset maxSize sofar z input = Some r"
  shows "\<forall>m out. maxSize = Some m \<longrightarrow> length sofar \<le> unat m \<longrightarrow> fst r = Parts out \<longrightarrow> length out \<le> unat m"
proof (rule processLoop.raw_induct [where P = "\<lambda>pump reset maxSize sofar z input r.
    \<forall>m out. maxSize = Some m \<longrightarrow> length sofar \<le> unat m \<longrightarrow> fst r = Parts out \<longrightarrow> length out \<le> unat m",
    OF _ assms], intro allI impI, goal_cases)
  case (1 loop pump reset maxSize sofar z input r m out)
  obtain status part rest z' where p: "pump z input 4096 = (status, part, rest, z')" by (metis prod_cases4)
  show ?case
    using 1(2-5) 1(1) [of pump reset maxSize "sofar @ part" z' rest r]
    by (auto simp: p not_less split: if_splits)
qed

lemma processMessage_bounded:
  assumes "processMessage pump reset (Some m) nul z message = Some (Parts out, z')"
  shows "length out \<le> unat m + (if nul then 1 else 0)"
  using assms processLoop_bounded [of pump reset "Some m" "[]" z message]
  by (fastforce simp: processMessage_def split: option.splits processed.splits if_splits)

text \<open>A call of zlib with input makes progress: it finishes, uses input or produces output. Then the
  loop ends, however much the message expands.\<close>

definition makesProgress :: "'z zlib \<Rightarrow> bool" where
  "makesProgress pump \<longleftrightarrow>
     (\<forall>z input. case pump z input 4096 of (status, part, rest, z') \<Rightarrow>
        length rest \<le> length input \<and>
        (status \<in> {Z_OK, Z_BUF_ERROR} \<longrightarrow>
           rest = [] \<and> length part \<noteq> 4096 \<or> length rest < length input \<or> part \<noteq> []))"

lemma processLoop_terminates:
  assumes "makesProgress pump" and "length sofar \<le> unat m"
  shows "\<exists>r. processLoop pump reset (Some m) sofar z input = Some r"
  using assms(2)
proof (induction "length input + (unat m - length sofar)" arbitrary: sofar z input rule: less_induct)
  case less
  obtain status part rest z' where p: "pump z input 4096 = (status, part, rest, z')" by (metis prod_cases4)
  have progress: "length rest \<le> length input"
    "status \<in> {Z_OK, Z_BUF_ERROR} \<Longrightarrow>
       rest = [] \<and> length part \<noteq> 4096 \<or> length rest < length input \<or> part \<noteq> []"
    using spec [OF spec [OF assms(1) [unfolded makesProgress_def], of z], of input] by (auto simp: p)
  show ?case
  proof (cases "status \<in> {Z_OK, Z_BUF_ERROR} \<and> \<not> (part \<noteq> [] \<and> unat m < length (sofar @ part)) \<and>
      \<not> (rest = [] \<and> length part \<noteq> 4096)")
    case True
    then have "length (sofar @ part) \<le> unat m" using less.prems by (cases "part = []") simp_all
    moreover have "length rest + (unat m - length (sofar @ part)) < length input + (unat m - length sofar)"
      using True progress \<open>length (sofar @ part) \<le> unat m\<close> by (cases part) auto
    ultimately have "\<exists>r. processLoop pump reset (Some m) (sofar @ part) z' rest = Some r" by (intro less.hyps)
    then show ?thesis using True by (subst processLoop.simps) (auto simp: p)
  next
    case False
    then show ?thesis by (subst processLoop.simps) (auto simp: p)
  qed
qed

section \<open>Bounds of what is received\<close>

definition safe_result :: "nat \<Rightarrow> received \<Rightarrow> bool" where
  "safe_result M result =
     (case result of
        Received (TextMessage text) \<Rightarrow> length text \<le> M
      | Received (BinaryMessage bytes) \<Rightarrow> length bytes \<le> M
      | Received (CloseMessage code reason) \<Rightarrow> length reason \<le> M + 2
      | Overrun \<Rightarrow> False
      | Unreachable \<Rightarrow> False
      | _ \<Rightarrow> True)"

definition within :: "nat \<Rightarrow> uint64 \<Rightarrow> 'z receiver \<Rightarrow> bool" where
  "within M m ws \<longleftrightarrow> unat m + length (concat (fragments ws)) = M \<and> (fragments ws \<noteq> [] \<longrightarrow> fragmentOpcode ws \<noteq> 0 \<and> fragmentOpcode ws < 8)"

definition safe_step :: "nat \<Rightarrow> 'z next_step \<Rightarrow> bool" where
  "safe_step M r =
     (case r of Done result _ _ \<Rightarrow> safe_result M result | Again m ws _ \<Rightarrow> within M m ws)"

lemma safe_error [simp]: "safe_step M (sendCloseDueToError ws input code reason)"
  by (simp add: safe_step_def safe_result_def sendCloseDueToError_def)

lemma safe_disconnected [simp]: "safe_result M (Disconnected reason)"
  by (simp add: safe_result_def)

lemma safe_deliver:
  assumes "\<And>out z. result = Some (Parts out, z) \<Longrightarrow> safe_result M (Received (build out))"
  shows "safe_step M (deliver ws input build result)"
  using assms by (auto simp: deliver_def safe_step_def safe_result_def sendCloseDueToError_def
      split: option.splits processed.splits)

lemma safe_dispatch:
  assumes "opcode \<noteq> 0" and "length message = len + (if compressed then 4 else if opcode = 1 then 1 else 0)"
    and "len \<le> M" and "unat original \<le> M" and "opcode = 9 \<or> opcode = 10 \<Longrightarrow> within M m ws"
  shows "safe_step M (dispatch c opcode m original compressed message ws input)"
proof -
  have decompressed: "length out \<le> M + (if nul then 1 else 0)"
    if "decompress c config original nul message ws = Some (Parts out, z)" for config nul out z
    using that assms(4) processMessage_bounded [of "inflate c" "inflateReset c" original nul _ _ out z]
    by (fastforce simp: decompress_def Let_def)
  note defs = dispatch_def safe_step_def safe_result_def opcodes
  consider "opcode = 1" | "opcode = 2" | "opcode = 8" | "opcode = 9" | "opcode = 10"
    | "opcode \<noteq> 1" "opcode \<noteq> 2" "opcode \<noteq> 8" "opcode \<noteq> 9" "opcode \<noteq> 10" by blast
  then show ?thesis
  proof cases
    case 1
    show ?thesis
    proof (cases "compressed \<and> compressionConfig c \<noteq> None")
      case True
      then obtain config where "compressed" "compressionConfig c = Some config" by blast
      moreover have "safe_step M (deliver ws input (TextMessage \<circ> asChars \<circ> butlast) (decompress c config original True message ws))"
        by (rule safe_deliver) (use decompressed [of config True] in \<open>fastforce simp: safe_result_def\<close>)
      ultimately show ?thesis using 1 by (simp add: dispatch_def opcodes)
    next
      case False
      then show ?thesis using 1 assms(2,3)
        by (cases compressed) (simp_all add: dispatch_def opcodes, simp_all add: safe_step_def safe_result_def)
    qed
  next
    case 2
    show ?thesis
    proof (cases "compressed \<and> compressionConfig c \<noteq> None")
      case True
      then obtain config where "compressed" "compressionConfig c = Some config" by blast
      moreover have "safe_step M (deliver ws input BinaryMessage (decompress c config original False message ws))"
        by (rule safe_deliver) (use decompressed [of config False] in \<open>fastforce simp: safe_result_def\<close>)
      ultimately show ?thesis using 2 by (simp add: dispatch_def opcodes)
    next
      case False
      then show ?thesis using 2 assms(2,3)
        by (cases compressed) (simp_all add: dispatch_def opcodes, simp_all add: safe_step_def safe_result_def)
    qed
  next
    case 3
    then show ?thesis using assms(1-3)
      by (simp add: dispatch_def opcodes) (auto simp: safe_step_def safe_result_def)
  next
    case 4
    then show ?thesis using assms(1,5) by (simp add: dispatch_def opcodes) (simp add: safe_step_def within_def)
  next
    case 5
    then show ?thesis using assms(1,5) by (simp add: dispatch_def opcodes) (simp add: safe_step_def within_def)
  next
    case 6
    then show ?thesis using assms(1) by (simp add: dispatch_def opcodes)
  qed
qed

lemma readPayload_fields:
  assumes "readPayload n ws input = (payload, ws', input')"
  shows "length payload \<le> n \<and> fragments ws' = fragments ws \<and> fragmentOpcode ws' = fragmentOpcode ws"
  using assms by (auto simp: readPayload_def Let_def split: if_splits prod.splits dest!: tryRead_bounds)

lemma safe_final:
  assumes "isFin h" and "opcode \<noteq> 0"
    and "unat allocated = length gathered + unat (getPayloadLen h) + (if compressed then 4 else if opcode = 1 then 1 else 0)"
    and "length gathered + unat (getPayloadLen h) \<le> M" and "unat original \<le> M"
    and "opcode = 9 \<or> opcode = 10 \<Longrightarrow> within M m ws"
  shows "safe_step M (handlePayload c m h opcode compressed gathered allocated original ws input)"
proof -
  obtain payload ws' input' where r: "readPayload (unat (getPayloadLen h)) ws input = (payload, ws', input')"
    by (metis prod_cases3)
  note f = readPayload_fields [OF r]
  show ?thesis
  proof (cases "length payload < unat (getPayloadLen h)")
    case True
    then show ?thesis using assms(3) by (auto simp: handlePayload_def r Let_def safe_step_def safe_result_def)
  next
    case False
    then have n: "length payload = unat (getPayloadLen h)" using f by simp
    have "within M m ws' = within M m ws" using f by (simp add: within_def)
    then have "safe_step M (dispatch c opcode m original compressed (gathered @ Mask_apply (getMask h) payload @
        map (garbage c) [length gathered + unat (getPayloadLen h)..<unat allocated]) ws' input')"
      using assms(2-) n by (intro safe_dispatch [where len = "length gathered + unat (getPayloadLen h)"]) simp_all
    then show ?thesis using assms(1,3) n by (simp add: handlePayload_def r Let_def)
  qed
qed

lemma safe_fragment:
  assumes "\<not> isFin h" and "unat (getPayloadLen h) \<le> unat m"
    and "unat m + length (concat (fragments ws)) = M" and "fragmentOpcode ws \<noteq> 0"
    and "fragmentOpcode ws < 8"
  shows "safe_step M (handlePayload c m h opcode compressed [] (getPayloadLen h) original ws input)"
proof -
  obtain payload ws' input' where r: "readPayload (unat (getPayloadLen h)) ws input = (payload, ws', input')"
    by (metis prod_cases3)
  note f = readPayload_fields [OF r]
  have "getPayloadLen h \<le> m" using assms(2) by (simp add: word_le_nat_alt)
  then have "unat (m - getPayloadLen h) = unat m - unat (getPayloadLen h)" by (simp add: unat_sub)
  then show ?thesis
    using assms f by (auto simp: handlePayload_def r Let_def safe_step_def safe_result_def within_def)
qed

lemma safe_frame:
  assumes "within M m ws" and "M + 4 < 2 ^ 64"
  shows "safe_step M (handleFrame c m ws input)"
proof -
  define ws1 where "ws1 = ws\<lparr>recvData := drop (headerSize (recvData ws)) (recvData ws)\<rparr>"
  define n where "n = getPayloadLen (recvData ws)"
  define offset :: uint64 where "offset = word_of_nat (length (concat (fragments ws)))"
  define amount where "amount z opcode = (if z then n + 4 else n + (if opcode = OPCODE_TEXT then 1 else 0))" for z opcode
  note frame = handleFrame_def [of c m ws input, unfolded Let_def, folded ws1_def n_def, folded amount_def]
  have ws1: "fragments ws1 = fragments ws" "fragmentOpcode ws1 = fragmentOpcode ws" "within M m' ws1 = within M m' ws" for m'
    by (simp_all add: ws1_def within_def)
  have sum: "unat m + length (concat (fragments ws)) = M" using assms(1) by (simp add: within_def)
  have offset: "unat offset = length (concat (fragments ws))" using sum assms(2) by (simp add: offset_def uint64_small)
  show ?thesis
  proof (cases "hasRsv2or3 (recvData ws) \<or> m < n")
    case True
    then show ?thesis by (auto simp: frame)
  next
    case False
    then have le: "unat n \<le> unat m" by (simp add: word_less_nat_alt not_less)
    have amount: "unat (amount z opcode) = unat n + (if z then 4 else if opcode = 1 then 1 else 0)" for z opcode
      using le sum assms(2) by (simp add: amount_def uint64_add OPCODE_TEXT_def)
    have small: "unat (amount z opcode) \<le> unat n + 4" for z opcode by (simp add: amount)
    have total: "unat (offset + amount z opcode) = length (concat (fragments ws)) + unat (amount z opcode)" for z opcode
      using le sum assms(2) small [of z opcode] by (subst uint64_add) (simp_all add: offset)
    have "unat (offset + m) = M" using sum assms(2) by (subst uint64_add) (simp_all add: offset)
    define ws2 where "ws2 = ws1\<lparr>fragments := [], fragmentOpcode := 0, fragmentCompressed := False\<rparr>"
    have final: "safe_step M (handlePayload c m (recvData ws) opcode z [] (amount z opcode) m ws1 input)"
      if "isFin (recvData ws)" "opcode \<noteq> 0" for opcode z
      using that le sum assms(1) by (intro safe_final) (simp_all add: amount n_def [symmetric] ws1)
    have gathered: "safe_step M (handlePayload c m (recvData ws) opcode z (concat (fragments ws))
        (offset + amount z opcode) (offset + m) ws2 input)"
      if "isFin (recvData ws)" "opcode \<noteq> 0" "opcode < 8" for opcode z
      using that le sum \<open>unat (offset + m) = M\<close>
      by (intro safe_final) (auto simp: amount total n_def [symmetric])
    have fragment: "safe_step M (handlePayload c m (recvData ws) opcode False [] n m ws' input)"
      if "\<not> isFin (recvData ws)" "fragments ws' = fragments ws" "fragmentOpcode ws' \<noteq> 0" "fragmentOpcode ws' < 8" for opcode ws'
      using that le sum unfolding n_def by (intro safe_fragment) simp_all
    consider "getOpcode (recvData ws) = 0" "fragments ws = []" | "getOpcode (recvData ws) = 0" "fragments ws \<noteq> []"
      | "getOpcode (recvData ws) \<noteq> 0" "getOpcode (recvData ws) < 8" "fragments ws \<noteq> []"
      | "getOpcode (recvData ws) \<noteq> 0" "getOpcode (recvData ws) < 8" "fragments ws = []"
      | "getOpcode (recvData ws) \<noteq> 0" "\<not> getOpcode (recvData ws) < 8" by blast
    then show ?thesis
    proof cases
      case 2
      then have "fragmentOpcode ws \<noteq> 0" "fragmentOpcode ws < 8" using assms(1) by (simp_all add: within_def)
      then show ?thesis
        using False 2 gathered [of "fragmentOpcode ws"] fragment [of ws1 "fragmentOpcode ws"]
        by (simp add: frame opcodes(1,7) ws1 offset_def [symmetric] ws2_def [symmetric])
    qed (use False final fragment in \<open>simp_all add: frame opcodes(1,7) ws1\<close>)
  qed
qed

lemma receive_safe:
  assumes "within M m ws" and "M + 4 < 2 ^ 64"
  shows "safe_result M (fst (receive c m ws input))"
  using assms
proof (induction c m ws input rule: receive.induct)
  case (1 c m ws input)
  show ?case
  proof (cases "length (recvData ws) < headerSize (recvData ws)")
    case True
    obtain got input1 where r: "tryRead 1 (recvBufferSize c - length (recvData ws)) input = (got, input1)" by force
    define ws1 where "ws1 = ws\<lparr>receivedBytes := receivedBytes ws + word_of_nat (length got)\<rparr>"
    have "within M m (ws1\<lparr>recvData := recvData ws1 @ got\<rparr>)" using "1.prems"(1) by (simp add: within_def ws1_def)
    from "1.IH"(1) [OF True r [symmetric] ws1_def _ this "1.prems"(2)]
    show ?thesis using True r by (simp add: receive.simps [of c m ws] Let_def ws1_def)
  next
    case False
    have safe: "safe_step M (handleFrame c m ws input)" by (rule safe_frame [OF "1.prems"])
    show ?thesis
    proof (cases "handleFrame c m ws input")
      case (Done result ws' input')
      then show ?thesis using False safe by (simp add: receive.simps [of c m ws] safe_step_def)
    next
      case (Again m' ws' input')
      then show ?thesis using False safe "1.IH"(2) [OF False Again _ "1.prems"(2)]
        by (simp add: receive.simps [of c m ws] safe_step_def)
    qed
  qed
qed

section \<open>Properties\<close>

definition plainConnection :: "unit connection" where
  "plainConnection = \<lparr>compressionConfig = None, recvBufferSize = 4096, inflate = (\<lambda>z input n. (0, [], [], z)),
     inflateReset = (\<lambda>z. z), garbage = (\<lambda>_. 0xAA)\<rparr>"

lemma newReceiver_facts [simp]:
  "receiver_ok (newReceiver leftover z)" "partial_of (newReceiver leftover z) = Idle"
  "controls (newReceiver leftover z) = []" "recvData (newReceiver leftover z) = leftover"
  "within M m (newReceiver leftover z) \<longleftrightarrow> unat m = M" "fragments (newReceiver leftover z) = []"
  "\<not> fragmentCompressed (newReceiver leftover z)"
  by (simp_all add: newReceiver_def receiver_ok_def partial_of_def within_def)


definition demoFrames :: "Frame list" where
  "demoFrames =
     [\<lparr>final = False, rsv1 = False, opcode_of = 1, maskKey = [1, 2, 3, 4], body = [0x68, 0x65]\<rparr>,
      \<lparr>final = True, rsv1 = False, opcode_of = 9, maskKey = [0, 0, 0, 0], body = [7]\<rparr>,
      \<lparr>final = True, rsv1 = False, opcode_of = 0, maskKey = [0, 0, 0, 0], body = [0x79]\<rparr>]"

lemma demoFrames_bytes:
  "concat (map encodeFrame demoFrames) = [0x01, 0x82, 1, 2, 3, 4, 0x69, 0x67, 0x89, 1, 7, 0x80, 1, 0x79]"
  by (simp add: demoFrames_def encodeFrame_def compose_def Mask_isZero_def Mask_apply_def header_masks Let_def upt_rec)


text \<open>
  C10. What is sent is received: messages and close codes in order, nothing else, and what follows
  them stays in the stream.
\<close>

theorem websocket_roundtrip:
  assumes "list_all (sendable (unat maxSize)) messages" and "unat maxSize + 4 < 2 ^ 64"
    and "compressionConfig c = None" and "14 \<le> recvBufferSize c"
    and "send_all deflate reset None messages z = Wrote bytes z'" and "leftover @ concat input = bytes @ tail"
  shows "\<exists>ws' input'. receive_all (length messages) c maxSize (newReceiver leftover zd) input =
      (map (Received \<circ> snd) messages, ws', input') \<and> recvData ws' @ concat input' = tail \<and> controls ws' = []"
proof -
  have "bytes = concat (map encodeFrame (map frame_of messages))"
    using assms(5) by (simp add: send_all_frames [OF assms(1)])
  then have "stream (newReceiver leftover zd) input = concat (map encodeFrame (map frame_of messages)) @ tail"
    using assms(6) by (simp add: stream_def)
  from receive_all_frames [OF assms(1) this assms(4) _ assms(3) refl assms(2)]
  show ?thesis by (auto simp: stream_def)
qed

definition demoMessages :: "(Mask \<times> Message) list" where
  "demoMessages = [([1, 2, 3, 4], TextMessage ''hi''), ([0, 0, 0, 0], CloseMessage 1000 ''bye'')]"

lemma demoMessages_facts:
  "send_all (inflate plainConnection) (\<lambda>z. z) None demoMessages () =
     Wrote [0x81, 0x82, 1, 2, 3, 4, 0x69, 0x6b, 0x88, 5, 0x03, 0xE8, 0x62, 0x79, 0x65] ()"
  "list_all (sendable (unat (100 :: uint64))) demoMessages" "length demoMessages = 2"
  "map (Received \<circ> snd) demoMessages = [Received (TextMessage ''hi''), Received (CloseMessage 1000 ''bye'')]"
  "compressionConfig plainConnection = None" "14 \<le> recvBufferSize plainConnection"
  "unat (100 :: uint64) + 4 < 2 ^ 64"
        apply code_simp
       apply (simp add: demoMessages_def sendable_def payload_of_def)
      apply (simp_all add: demoMessages_def plainConnection_def)
  done

theorem websocket_roundtrip_witness:
  "\<exists>ws' input'. receive_all 2 plainConnection 100 (newReceiver [0x81] ())
      [[0x82, 1, 2, 3], [4, 0x69, 0x6b, 0x88, 5], [0x03, 0xE8, 0x62, 0x79, 0x65, 0x89]] =
      ([Received (TextMessage ''hi''), Received (CloseMessage 1000 ''bye'')], ws', input') \<and>
    recvData ws' @ concat input' = [0x89] \<and> controls ws' = []"
proof -
  note facts = demoMessages_facts
  have "[0x81] @ concat [[0x82, 1, 2, 3], [4, 0x69, 0x6b, 0x88, 5], [0x03, 0xE8, 0x62, 0x79, 0x65, 0x89]] =
      [0x81, 0x82, 1, 2, 3, 4, 0x69, 0x6b, 0x88, 5, 0x03, 0xE8, 0x62, 0x79, 0x65] @ [0x89 :: byte]" by simp
  from websocket_roundtrip [OF facts(2,7,5,6,1) this] show ?thesis by (simp only: facts(3,4))
qed



text \<open>With the greatest \<open>maxSize\<close> the space that is allocated wraps around.\<close>

definition greatestFrame :: "byte list" where
  "greatestFrame = [0x81, 0x7f, 0xff, 0xff, 0xff, 0xff, 0xff, 0xff, 0xff, 0xff, 0]"

lemma greatestFrame_facts:
  "headerSize greatestFrame = 10" "getPayloadLen greatestFrame = 0xffffffffffffffff" "getOpcode greatestFrame = 1"
  "isFin greatestFrame" "\<not> hasRsv2or3 greatestFrame" "\<not> isCompressed greatestFrame"
  by code_simp+

lemma receive_unlimited_overruns:
  "fst (receive plainConnection 0xffffffffffffffff (newReceiver greatestFrame ()) []) = Overrun"
proof -
  have d: "drop 10 greatestFrame = [0]" "length greatestFrame = 11" by (simp_all add: greatestFrame_def)
  show ?thesis
    by (simp add: receive.simps [of plainConnection] handleFrame_def handlePayload_def readPayload_def
        greatestFrame_facts opcodes d)
qed

text \<open>
  C35. Decompression with a limit ends, provided that every call of zlib makes progress.
\<close>

theorem decompression_terminates:
  assumes "makesProgress pump"
  shows "\<exists>r. processMessage pump reset (Some maxSize) addNullTerminator z message = Some r"
proof -
  obtain r where "processLoop pump reset (Some maxSize) [] z message = Some r"
    using processLoop_terminates [OF assms, of "[]" maxSize reset z message] by auto
  then show ?thesis by (cases r) (auto simp: processMessage_def split: processed.splits)
qed

theorem decompression_terminates_witness:
  "\<exists>r. processMessage (\<lambda>z input n. (Z_OK, take n input, drop n input, z)) (\<lambda>z. z) (Some 5) True () [1, 2, 3] = Some r"
  by (rule decompression_terminates) (auto simp: makesProgress_def)

text \<open>A ping between the fragments of a compressed message is answered with four bytes more than it
  had, which nothing has written.\<close>

lemma ping_reveals_memory:
  assumes "validFrame f" and "stream ws input = encodeFrame f @ rest"
    and "headerSize (recvData ws) \<le> length (recvData ws)" and "opcode_of f = 9" and "final f"
    and "fragmentCompressed ws" and "compressionConfig c = Some config" and "length (body f) \<le> unat m"
  shows "\<exists>ws' input'. handleFrame c m ws input = Again m ws' input' \<and> controls ws' = controls ws @
    [QueuePong (body f @ map (garbage c) [length (body f)..<length (body f) + 4])]"
proof -
  note h = buffered_header [OF assms(1-3)]
  define ws1 where "ws1 = ws\<lparr>recvData := drop (headerSize (recvData ws)) (recvData ws)\<rparr>"
  have s: "stream ws1 input = Mask_apply (getMask (recvData ws)) (body f) @ rest"
    using h(5,7) by (simp add: ws1_def stream_def)
  have len: "length (body f) < 2 ^ 32" using assms(1) by (simp add: validFrame_def)
  then have n: "unat (getPayloadLen (recvData ws)) = length (body f)" by (simp add: h uint64_small)
  then have total: "unat (getPayloadLen (recvData ws) + 4) = length (body f) + 4"
    using len by (subst uint64_add) simp_all
  have "\<not> m < getPayloadLen (recvData ws)" using assms(8) n by (simp add: word_less_nat_alt)
  moreover obtain d k input' where "handlePayload c m (recvData ws) 9 True [] (getPayloadLen (recvData ws) + 4) m ws1 input =
      dispatch c 9 m m True (body f @ map (garbage c) [length (body f)..<length (body f) + 4])
        (ws1\<lparr>recvData := d, receivedBytes := k\<rparr>) input'"
    using handlePayload_complete [OF s n, of "[]" "getPayloadLen (recvData ws) + 4" _ c m 9 True m] total assms(5) h(1)
    by (auto simp: Let_def)
  ultimately show ?thesis
    using assms(4-7) h(1-4)
    by (simp add: handleFrame_def Let_def ws1_def [symmetric] opcodes) (simp add: dispatch_def opcodes ws1_def)
qed

text \<open>A length of 2^32 is written as 0.\<close>

lemma composed_length_lost: "getPayloadLen (compose True False 2 0x100000000 Mask_none) = 0"
  by code_simp

end
