(* ===== verification/Web_Socket_Sender.thy ===== *)
theory Web_Socket_Sender
  imports Web_Socket
begin

text \<open>
  The sending side of a WebSocket connection (\<open>WebSocketImpl\<close> of \<open>zc/http/http.cc\<close>) as a state
  machine: the coroutine of \<open>sendImpl\<close>, the control messages that receiving queues, and the
  promise \<open>sendingControlMessage\<close> with the continuations that are chained to it. \<open>internal\<close> are the turns
  of the event loop, \<open>external\<close> what the application and the other side do, \<open>violation\<close> a protocol error.
  \<open>started\<close> logs the frames in the order their writes begin.
\<close>

section \<open>State\<close>

record ControlMessage =
  opcode :: byte
  payload :: "byte list"
  fulfiller :: "nat option"

text \<open>A promise of a chain of calls of \<open>writeQueuedControlMessage\<close>: the write that is in flight and the
  number of calls that wait for it.\<close>

record promise =
  active :: "ControlMessage option"
  later :: nat

datatype coroutine =
  NotSending
| AwaitingControl byte "byte list" promise
| Writing byte "byte list"

record sender =
  disconnected :: bool
  hasSentClose :: bool
  currentlySending :: bool
  queuedControlMessage :: "ControlMessage option"
  sendingControlMessage :: "promise option"
  sendCoroutine :: coroutine
  started :: "(byte \<times> byte list) list"
  fulfilled :: "nat list"

definition newSender :: "promise option \<Rightarrow> sender" where
  "newSender waitBeforeSend =
     \<lparr>disconnected = False, hasSentClose = False, currentlySending = False, queuedControlMessage = None,
      sendingControlMessage = waitBeforeSend, sendCoroutine = NotSending, started = [], fulfilled = []\<rparr>"

section \<open>Operations\<close>

definition fulfill :: "ControlMessage \<Rightarrow> sender \<Rightarrow> sender" where
  "fulfill q s = (case fulfiller q of None \<Rightarrow> s | Some f \<Rightarrow> s\<lparr>fulfilled := fulfilled s @ [f]\<rparr>)"

text \<open>The part of \<open>writeQueuedControlMessage\<close> that runs at once, with the write it begins.\<close>

definition writeQueuedControlMessage :: "sender \<Rightarrow> ControlMessage option \<times> sender" where
  "writeQueuedControlMessage s =
     (case queuedControlMessage s of
        None \<Rightarrow> (None, s)
      | Some q \<Rightarrow>
          let s = s\<lparr>queuedControlMessage := None\<rparr> in
          if hasSentClose s \<or> disconnected s then (None, fulfill q s)
          else (Some q, s\<lparr>started := started s @ [(opcode q, payload q)]\<rparr>))"

definition setUpSendingControlMessage :: "sender \<Rightarrow> sender" where
  "setUpSendingControlMessage s =
     (case sendingControlMessage s of
        Some p \<Rightarrow> s\<lparr>sendingControlMessage := Some (p\<lparr>later := later p + 1\<rparr>)\<rparr>
      | None \<Rightarrow> (case writeQueuedControlMessage s of
                   (q, s) \<Rightarrow> s\<lparr>sendingControlMessage := Some \<lparr>active = q, later = 0\<rparr>\<rparr>))"

definition queuePong :: "byte list \<Rightarrow> sender \<Rightarrow> sender" where
  "queuePong data s =
     (case queuedControlMessage s of
        Some q \<Rightarrow>
          if opcode q = OPCODE_CLOSE then s
          else s\<lparr>queuedControlMessage := Some \<lparr>opcode = OPCODE_PONG, payload = data, fulfiller = None\<rparr>\<rparr>
      | None \<Rightarrow>
          let s = s\<lparr>queuedControlMessage := Some \<lparr>opcode = OPCODE_PONG, payload = data, fulfiller = None\<rparr>\<rparr> in
          if currentlySending s then s else setUpSendingControlMessage s)"

definition queueClose :: "16 word \<Rightarrow> string \<Rightarrow> nat \<Rightarrow> sender \<Rightarrow> sender" where
  "queueClose code reason f s =
     (case serializeClose code reason of
        None \<Rightarrow> s
      | Some data \<Rightarrow>
      let alreadyWaiting = queuedControlMessage s \<noteq> None;
          s = s\<lparr>queuedControlMessage := Some \<lparr>opcode = OPCODE_CLOSE, payload = data, fulfiller = Some f\<rparr>\<rparr> in
      if \<not> alreadyWaiting then setUpSendingControlMessage s else s)"

text \<open>The loop of \<open>sendImpl\<close>: while there is a promise of control messages, take and await it. Then
  the message is written.\<close>

definition sendLoop :: "byte \<Rightarrow> byte list \<Rightarrow> sender \<Rightarrow> sender" where
  "sendLoop op message s =
     (case sendingControlMessage s of
        Some p \<Rightarrow> if disconnected s then s\<lparr>sendCoroutine := NotSending\<rparr>
                  else s\<lparr>sendingControlMessage := None, sendCoroutine := AwaitingControl op message p\<rparr>
      | None \<Rightarrow> s\<lparr>hasSentClose := (hasSentClose s \<or> op = OPCODE_CLOSE), sendCoroutine := Writing op message,
                 started := started s @ [(op, message)]\<rparr>)"

definition sendImpl_start :: "byte \<Rightarrow> byte list \<Rightarrow> sender \<Rightarrow> sender" where
  "sendImpl_start op message s =
     (if disconnected s \<or> currentlySending s then s else sendLoop op message (s\<lparr>currentlySending := True\<rparr>))"

definition sendImpl_written :: "sender \<Rightarrow> sender" where
  "sendImpl_written s =
     (let s = s\<lparr>currentlySending := False, sendCoroutine := NotSending\<rparr> in
      if queuedControlMessage s \<noteq> None then setUpSendingControlMessage s else s)"

definition disconnect :: "sender \<Rightarrow> sender" where
  "disconnect s = s\<lparr>sendingControlMessage := None, disconnected := True\<rparr>"

text \<open>One turn of a promise: its write ends, or, with no write in flight, its next call begins.\<close>

definition advance :: "promise \<Rightarrow> sender \<Rightarrow> promise \<times> sender" where
  "advance p s =
     (case active p of
        Some q \<Rightarrow> (p\<lparr>active := None\<rparr>, fulfill q s)
      | None \<Rightarrow> (case writeQueuedControlMessage s of (q, s) \<Rightarrow> (\<lparr>active = q, later = later p - 1\<rparr>, s)))"

definition finished :: "promise \<Rightarrow> bool" where
  "finished p \<longleftrightarrow> active p = None \<and> later p = 0"

section \<open>Steps\<close>

text \<open>What the event loop does.\<close>

inductive internal :: "sender \<Rightarrow> sender \<Rightarrow> bool" where
  control_turn: "sendingControlMessage s = Some p \<Longrightarrow> \<not> finished p \<Longrightarrow> advance p s = (p', s') \<Longrightarrow>
    internal s (s'\<lparr>sendingControlMessage := Some p'\<rparr>)"
| awaited_turn: "sendCoroutine s = AwaitingControl op message p \<Longrightarrow> \<not> finished p \<Longrightarrow> advance p s = (p', s') \<Longrightarrow>
    internal s (s'\<lparr>sendCoroutine := AwaitingControl op message p'\<rparr>)"
| resumed: "sendCoroutine s = AwaitingControl op message p \<Longrightarrow> finished p \<Longrightarrow> internal s (sendLoop op message s)"
| written: "sendCoroutine s = Writing op message \<Longrightarrow> internal s (sendImpl_written s)"

text \<open>What the application and the other side do. The application does not disconnect while it sends.\<close>

inductive external :: "sender \<Rightarrow> sender \<Rightarrow> bool" where
  app_send: "op \<in> {OPCODE_TEXT, OPCODE_BINARY, OPCODE_CLOSE} \<Longrightarrow> external s (sendImpl_start op message s)"
| ping_received: "external s (queuePong data s)"
| app_disconnect: "sendCoroutine s = NotSending \<Longrightarrow> external s (disconnect s)"

inductive violation :: "sender \<Rightarrow> sender \<Rightarrow> bool" where
  error_received: "violation s (queueClose code reason f s)"

inductive_cases internalE: "internal s t"
inductive_cases externalE: "external s t"
inductive_cases violationE: "violation s t"

inductive regular :: "sender \<Rightarrow> bool" where
  initial: "regular (newSender None)"
| step_internal: "regular s \<Longrightarrow> internal s t \<Longrightarrow> regular t"
| step_external: "regular s \<Longrightarrow> external s t \<Longrightarrow> regular t"

inductive reachable :: "sender \<Rightarrow> bool" where
  reachable_initial: "reachable (newSender None)"
| reachable_internal: "reachable s \<Longrightarrow> internal s t \<Longrightarrow> reachable t"
| reachable_external: "reachable s \<Longrightarrow> external s t \<Longrightarrow> reachable t"
| reachable_violation: "reachable s \<Longrightarrow> violation s t \<Longrightarrow> reachable t"

section \<open>Without protocol errors\<close>

definition inFlight :: "sender \<Rightarrow> nat" where
  "inFlight s =
     (case sendCoroutine s of NotSending \<Rightarrow> 0 | Writing _ _ \<Rightarrow> 1
      | AwaitingControl _ _ p \<Rightarrow> (if active p = None then 0 else 1)) +
     (case sendingControlMessage s of None \<Rightarrow> 0 | Some p \<Rightarrow> (if active p = None then 0 else 1))"

fun noPongAfterClose :: "(byte \<times> byte list) list \<Rightarrow> bool" where
  "noPongAfterClose [] = True"
| "noPongAfterClose ((op, data) # log) \<longleftrightarrow>
     (op = OPCODE_CLOSE \<longrightarrow> OPCODE_PONG \<notin> fst ` set log) \<and> noPongAfterClose log"

lemma noPongAfterClose_snoc [simp]:
  "noPongAfterClose (log @ [(op, x)]) \<longleftrightarrow>
   noPongAfterClose log \<and> (OPCODE_CLOSE \<in> fst ` set log \<longrightarrow> op \<noteq> OPCODE_PONG)"
  by (induction log rule: noPongAfterClose.induct) auto

lemma opcodes_distinct [simp]:
  "OPCODE_CLOSE \<noteq> OPCODE_PONG" "OPCODE_PONG \<noteq> OPCODE_CLOSE" "OPCODE_TEXT \<noteq> OPCODE_PONG" "OPCODE_BINARY \<noteq> OPCODE_PONG"
  "OPCODE_TEXT \<noteq> OPCODE_CLOSE" "OPCODE_BINARY \<noteq> OPCODE_CLOSE"
  by (simp_all add: opcodes)

text \<open>The invariant of a connection, apart from the coroutine that sends.\<close>

definition control_ok :: "sender \<Rightarrow> bool" where
  "control_ok s \<longleftrightarrow>
     (\<forall>q. queuedControlMessage s = Some q \<longrightarrow> opcode q = OPCODE_PONG) \<and>
     (hasSentClose s \<longleftrightarrow> OPCODE_CLOSE \<in> fst ` set (started s)) \<and>
     noPongAfterClose (started s)"

lemma control_ok_updates [simp]:
  "control_ok (s\<lparr>sendingControlMessage := x\<rparr>) = control_ok s"
  "control_ok (s\<lparr>sendCoroutine := y\<rparr>) = control_ok s"
  "control_ok (s\<lparr>currentlySending := b\<rparr>) = control_ok s"
  "control_ok (s\<lparr>fulfilled := fs\<rparr>) = control_ok s"
  "control_ok (s\<lparr>disconnected := b\<rparr>) = control_ok s"
  by (simp_all add: control_ok_def)

lemma fulfill_fields [simp]:
  "disconnected (fulfill q s) = disconnected s" "hasSentClose (fulfill q s) = hasSentClose s"
  "currentlySending (fulfill q s) = currentlySending s" "queuedControlMessage (fulfill q s) = queuedControlMessage s"
  "sendingControlMessage (fulfill q s) = sendingControlMessage s" "sendCoroutine (fulfill q s) = sendCoroutine s"
  "started (fulfill q s) = started s" "control_ok (fulfill q s) = control_ok s"
  by (simp_all add: fulfill_def split: option.splits)

lemma writeQueued_fields:
  assumes "writeQueuedControlMessage s = (q, s')"
  shows "disconnected s' = disconnected s" "currentlySending s' = currentlySending s" "queuedControlMessage s' = None"
    "sendingControlMessage s' = sendingControlMessage s" "sendCoroutine s' = sendCoroutine s"
    "control_ok s \<Longrightarrow> control_ok s'"
  using assms by (auto simp: writeQueuedControlMessage_def Let_def control_ok_def split: option.splits if_splits)

lemma advance_fields:
  assumes "advance p s = (p', s')"
  shows "disconnected s' = disconnected s" "currentlySending s' = currentlySending s"
    "queuedControlMessage s' = queuedControlMessage s \<or> queuedControlMessage s' = None"
    "sendingControlMessage s' = sendingControlMessage s" "sendCoroutine s' = sendCoroutine s"
    "control_ok s \<Longrightarrow> control_ok s'" "active p \<noteq> None \<Longrightarrow> later p' = later p \<and> queuedControlMessage s' = queuedControlMessage s"
    "active p = None \<Longrightarrow> queuedControlMessage s' = None"
  using assms by (auto simp: advance_def split: option.splits prod.splits dest: writeQueued_fields)

definition sender_ok :: "sender \<Rightarrow> bool" where
  "sender_ok s \<longleftrightarrow> control_ok s \<and> (currentlySending s \<longleftrightarrow> sendCoroutine s \<noteq> NotSending) \<and>
     (currentlySending s \<longrightarrow> sendingControlMessage s = None) \<and>
     (\<forall>op message p. sendCoroutine s = AwaitingControl op message p \<longrightarrow> op \<noteq> OPCODE_PONG)"

lemma setUp_control_ok:
  assumes "control_ok s"
  shows "control_ok (setUpSendingControlMessage s)" "currentlySending (setUpSendingControlMessage s) = currentlySending s"
    "sendCoroutine (setUpSendingControlMessage s) = sendCoroutine s"
  using assms by (auto simp: setUpSendingControlMessage_def split: option.splits prod.splits dest: writeQueued_fields)

lemma sendLoop_ok:
  assumes "control_ok s" and "op \<noteq> OPCODE_PONG" and "currentlySending s" and "\<not> disconnected s \<or> sendingControlMessage s = None"
  shows "sender_ok (sendLoop op message s)"
  using assms by (auto simp: sendLoop_def sender_ok_def control_ok_def split: option.splits)

lemma regular_external:
  assumes "external s t" and "sender_ok s"
  shows "sender_ok t"
  using assms(1)
proof cases
  case (app_send op message)
  then show ?thesis using assms(2) sendLoop_ok [of "s\<lparr>currentlySending := True\<rparr>" op message]
    by (auto simp: sendImpl_start_def sender_ok_def)
next
  case (ping_received data)
  define s1 where "s1 = s\<lparr>queuedControlMessage := Some \<lparr>opcode = OPCODE_PONG, payload = data, fulfiller = None\<rparr>\<rparr>"
  have "control_ok s1" "currentlySending s1 = currentlySending s" "sendCoroutine s1 = sendCoroutine s"
    "sendingControlMessage s1 = sendingControlMessage s"
    using assms(2) by (auto simp: s1_def sender_ok_def control_ok_def)
  then show ?thesis using ping_received assms(2) setUp_control_ok [of s1]
    by (auto simp: queuePong_def Let_def sender_ok_def s1_def [symmetric] split: option.splits)
next
  case app_disconnect
  then show ?thesis using assms(2) by (auto simp: disconnect_def sender_ok_def)
qed

lemma regular_internal:
  assumes "internal s t" and "sender_ok s"
  shows "sender_ok t"
  using assms(1)
proof cases
  case (control_turn p p' s')
  then show ?thesis using assms(2) advance_fields [OF control_turn(4)] by (auto simp: sender_ok_def)
next
  case (awaited_turn op message p p' s')
  then show ?thesis using assms(2) advance_fields [OF awaited_turn(4)] by (auto simp: sender_ok_def)
next
  case (resumed op message p)
  then show ?thesis using assms(2) sendLoop_ok [of s op message] by (auto simp: sender_ok_def)
next
  case (written op message)
  then show ?thesis using assms(2) setUp_control_ok [of "s\<lparr>currentlySending := False, sendCoroutine := NotSending\<rparr>"]
    by (auto simp: sendImpl_written_def Let_def sender_ok_def)
qed

lemma regular_ok: "regular s \<Longrightarrow> sender_ok s"
proof (induction rule: regular.induct)
  case initial
  then show ?case by (simp add: newSender_def sender_ok_def control_ok_def)
qed (auto intro: regular_internal regular_external)

lemma sender_ok_inFlight: "sender_ok s \<Longrightarrow> inFlight s \<le> 1"
  by (auto simp: sender_ok_def inFlight_def split: coroutine.splits option.splits)

text \<open>
  C36. Without protocol errors at most one write is in progress at any time, and no pong is
  written after a close message.
\<close>

theorem sends_one_at_a_time:
  assumes "regular s"
  shows "inFlight s \<le> 1 \<and> noPongAfterClose (started s)"
  using regular_ok [OF assms] sender_ok_inFlight [of s] by (simp add: sender_ok_def control_ok_def)

text \<open>A ping that is received while a message is written.\<close>

theorem sends_one_at_a_time_witness:
  "\<exists>s. inFlight s \<le> 1 \<and> noPongAfterClose (started s) \<and> queuedControlMessage s \<noteq> None"
proof -
  have "regular (queuePong [7] (sendImpl_start OPCODE_TEXT [1] (newSender None)))"
    by (intro step_external [OF step_external [OF initial app_send] ping_received]) simp
  moreover have "queuedControlMessage (queuePong [7] (sendImpl_start OPCODE_TEXT [1] (newSender None))) \<noteq> None"
    by (simp add: queuePong_def sendImpl_start_def sendLoop_def newSender_def)
  ultimately show ?thesis using sends_one_at_a_time by blast
qed

text \<open>A protocol error that is noticed meanwhile is not delayed: two writes are in flight then.\<close>

lemma close_interleaves: "\<exists>s. reachable s \<and> inFlight s = 2"
proof -
  have "reachable (queueClose 1002 [] 0 (sendImpl_start OPCODE_TEXT [1] (newSender None)))"
    by (intro reachable_violation [OF reachable_external [OF reachable_initial app_send] error_received]) simp
  moreover have "inFlight (queueClose 1002 [] 0 (sendImpl_start OPCODE_TEXT [1] (newSender None))) = 2"
    by (simp add: queueClose_def serializeClose_def sendImpl_start_def sendLoop_def newSender_def
        setUpSendingControlMessage_def writeQueuedControlMessage_def inFlight_def)
  ultimately show ?thesis by blast
qed

section \<open>Liveness\<close>

definition turns :: "promise \<Rightarrow> nat" where
  "turns p = 2 * later p + (if active p = None then 0 else 1)"

definition work :: "sender \<Rightarrow> nat" where
  "work s =
     (case sendCoroutine s of NotSending \<Rightarrow> 0 | Writing _ _ \<Rightarrow> 4 | AwaitingControl _ _ p \<Rightarrow> 5 + turns p) +
     (case sendingControlMessage s of None \<Rightarrow> 0 | Some p \<Rightarrow> 1 + turns p)"

lemma advance_turns: "\<not> finished p \<Longrightarrow> advance p s = (p', s') \<Longrightarrow> turns p' < turns p"
  by (auto simp: advance_def turns_def finished_def split: option.splits prod.splits)

lemma setUp_work: "work (setUpSendingControlMessage s) \<le> work s + 2"
  by (auto simp: setUpSendingControlMessage_def work_def turns_def split: option.splits prod.splits
      dest!: writeQueued_fields(4,5))

lemma internal_work:
  assumes "internal s t"
  shows "work t < work s"
  using assms
proof cases
  case (control_turn p p' s')
  then show ?thesis using advance_turns [OF control_turn(3,4)] advance_fields(4,5) [OF control_turn(4)]
    by (simp add: work_def)
next
  case (awaited_turn op message p p' s')
  then show ?thesis using advance_turns [OF awaited_turn(3,4)] advance_fields(4,5) [OF awaited_turn(4)]
    by (simp add: work_def)
next
  case (resumed op message p)
  then show ?thesis by (auto simp: work_def sendLoop_def turns_def finished_def split: option.splits)
next
  case (written op message)
  then show ?thesis using setUp_work [of "s\<lparr>currentlySending := False, sendCoroutine := NotSending\<rparr>"]
    by (auto simp: sendImpl_written_def Let_def work_def)
qed

lemma internal_steps_work: "(internal ^^ n) s t \<Longrightarrow> n + work t \<le> work s"
proof (induction n arbitrary: t)
  case (Suc n)
  then obtain u where "(internal ^^ n) s u" "internal u t" by auto
  then show ?case using Suc.IH [of u] internal_work [of u t] by simp
qed simp

text \<open>Whoever will write a queued control message.\<close>

definition served :: "sender \<Rightarrow> bool" where
  "served s \<longleftrightarrow> queuedControlMessage s = None \<or> disconnected s \<or> sendCoroutine s \<noteq> NotSending \<or>
     (\<exists>p. sendingControlMessage s = Some p \<and> 0 < later p)"

definition consistent :: "sender \<Rightarrow> bool" where
  "consistent s \<longleftrightarrow> (currentlySending s \<longleftrightarrow> sendCoroutine s \<noteq> NotSending) \<and>
     (disconnected s \<longrightarrow> sendCoroutine s = NotSending)"

lemma setUp_served:
  shows "served (setUpSendingControlMessage s)" "consistent s \<Longrightarrow> consistent (setUpSendingControlMessage s)"
  by (auto simp: setUpSendingControlMessage_def served_def consistent_def split: option.splits prod.splits
      dest: writeQueued_fields)

lemma served_internal:
  assumes "internal s t" and "served s" and "consistent s"
  shows "served t \<and> consistent t"
  using assms(1)
proof cases
  case (control_turn p p' s')
  note f = advance_fields [OF control_turn(4)]
  show ?thesis
  proof (cases "active p")
    case None
    then show ?thesis using control_turn f assms(3) by (simp add: served_def consistent_def)
  next
    case (Some q)
    then show ?thesis using control_turn f assms(2,3) by (auto simp: served_def consistent_def)
  qed
next
  case (awaited_turn op message p p' s')
  then show ?thesis using advance_fields [OF awaited_turn(4)] assms(3) by (auto simp: served_def consistent_def)
next
  case (resumed op message p)
  then show ?thesis using assms(3) by (auto simp: sendLoop_def served_def consistent_def split: option.splits)
next
  case (written op message)
  have "consistent (s\<lparr>currentlySending := False, sendCoroutine := NotSending\<rparr>)" by (simp add: consistent_def)
  then show ?thesis using written setUp_served [of "s\<lparr>currentlySending := False, sendCoroutine := NotSending\<rparr>"]
    by (auto simp: sendImpl_written_def Let_def served_def consistent_def)
qed

lemma served_external:
  assumes "external s t" and "served s" and "consistent s"
  shows "served t \<and> consistent t"
  using assms(1)
proof cases
  case (app_send op message)
  then show ?thesis using assms(2,3)
    by (auto simp: sendImpl_start_def sendLoop_def served_def consistent_def split: option.splits)
next
  case (ping_received data)
  define s1 where "s1 = s\<lparr>queuedControlMessage := Some \<lparr>opcode = OPCODE_PONG, payload = data, fulfiller = None\<rparr>\<rparr>"
  have "consistent s1" "currentlySending s1 = currentlySending s" using assms(3) by (simp_all add: consistent_def s1_def)
  moreover have "served s1" if "queuedControlMessage s \<noteq> None \<or> currentlySending s"
    using that assms(2,3) by (auto simp: served_def consistent_def s1_def)
  ultimately show ?thesis using ping_received assms(2,3) setUp_served [of s1]
    by (auto simp: queuePong_def Let_def s1_def [symmetric] split: option.splits)
next
  case app_disconnect
  then show ?thesis using assms(3) by (auto simp: disconnect_def served_def consistent_def)
qed

lemma served_violation:
  assumes "violation s t" and "served s" and "consistent s"
  shows "served t \<and> consistent t"
  using assms(1)
proof cases
  case (error_received code reason f)
  define queued where "queued data = s\<lparr>queuedControlMessage := Some \<lparr>opcode = OPCODE_CLOSE, payload = data, fulfiller = Some f\<rparr>\<rparr>"
    for data
  have "consistent (queued data)" for data using assms(3) by (simp add: consistent_def queued_def)
  moreover have "served (queued data)" if "queuedControlMessage s \<noteq> None" for data
    using that assms(2) by (auto simp: served_def queued_def)
  ultimately show ?thesis using error_received assms(2,3) setUp_served
    by (auto simp: queueClose_def Let_def queued_def [symmetric] split: option.splits)
qed

lemma reachable_served: "reachable s \<Longrightarrow> served s \<and> consistent s"
proof (induction rule: reachable.induct)
  case reachable_initial
  then show ?case by (simp add: newSender_def served_def consistent_def)
qed (blast dest: served_internal served_external served_violation)+

lemma internal_reachable: "internal\<^sup>*\<^sup>* s t \<Longrightarrow> reachable s \<Longrightarrow> reachable t"
  by (induction rule: rtranclp_induct) (auto intro: reachable_internal)

lemma quiescent:
  assumes "served s" and "\<And>t. \<not> internal s t"
  shows "inFlight s = 0 \<and> sendCoroutine s = NotSending \<and> (queuedControlMessage s = None \<or> disconnected s)"
proof -
  have "sendCoroutine s = NotSending"
    using assms(2) by (cases "sendCoroutine s") (metis internal.intros(2-4) prod.collapse)+
  moreover have "finished p" if "sendingControlMessage s = Some p" for p
    using that assms(2) by (metis internal.intros(1) prod.collapse)
  ultimately show ?thesis
    using assms(1) by (auto simp: served_def inFlight_def finished_def split: option.splits)
qed


lemma settles: "\<exists>t. internal\<^sup>*\<^sup>* s t \<and> (\<forall>u. \<not> internal t u)"
proof (induction "work s" arbitrary: s rule: less_induct)
  case less
  show ?case
  proof (cases "\<exists>u. internal s u")
    case True
    then obtain u where u: "internal s u" by blast
    then show ?thesis using less.hyps [OF internal_work [OF u]] by (meson converse_rtranclp_into_rtranclp)
  qed blast
qed

lemma internal_disconnected: "internal\<^sup>*\<^sup>* s t \<Longrightarrow> disconnected t = disconnected s"
proof (induction rule: rtranclp_induct)
  case (step t u)
  have "disconnected u = disconnected t" using step.hyps(2)
    by cases (auto simp: sendLoop_def sendImpl_written_def setUpSendingControlMessage_def Let_def
        dest: advance_fields writeQueued_fields split: option.splits prod.splits)
  then show ?case using step.IH by simp
qed simp


end
