(* ===== verification/Http_Names.thy ===== *)
theory Http_Names
  imports Char_Group Number_Text
begin

text \<open>Names in HTTP messages: the request methods and their recognition by a decision tree over characters
  (consumeHttpMethod), the character groups of header names, the comparison of names without their case, and the
  tables that number header names (HttpHeaderTable and its Builder) of http.cc. The standard library's hash map is
  the list of its entries; only entries with the hash of the key are compared with it.\<close>

section \<open>Methods\<close>

datatype HttpMethod =
  GET | HEAD | POST | PUT | DELETE | PATCH | PURGE | OPTIONS | TRACE
| COPY | LOCK | MKCOL | MOVE | PROPFIND | PROPPATCH | SEARCH | UNLOCK | ACL
| REPORT | MKACTIVITY | CHECKOUT | MERGE
| MSEARCH | NOTIFY | SUBSCRIBE | UNSUBSCRIBE

text \<open>\<open>OneOf<HttpMethod, HttpConnectMethod>\<close>.\<close>

datatype AnyMethod = Method HttpMethod | ConnectMethod

fun method_name :: "HttpMethod \<Rightarrow> string" where
  "method_name GET = ''GET''" | "method_name HEAD = ''HEAD''" | "method_name POST = ''POST''"
| "method_name PUT = ''PUT''" | "method_name DELETE = ''DELETE''" | "method_name PATCH = ''PATCH''"
| "method_name PURGE = ''PURGE''" | "method_name OPTIONS = ''OPTIONS''" | "method_name TRACE = ''TRACE''"
| "method_name COPY = ''COPY''" | "method_name LOCK = ''LOCK''" | "method_name MKCOL = ''MKCOL''"
| "method_name MOVE = ''MOVE''" | "method_name PROPFIND = ''PROPFIND''" | "method_name PROPPATCH = ''PROPPATCH''"
| "method_name SEARCH = ''SEARCH''" | "method_name UNLOCK = ''UNLOCK''" | "method_name ACL = ''ACL''"
| "method_name REPORT = ''REPORT''" | "method_name MKACTIVITY = ''MKACTIVITY''"
| "method_name CHECKOUT = ''CHECKOUT''" | "method_name MERGE = ''MERGE''" | "method_name MSEARCH = ''MSEARCH''"
| "method_name NOTIFY = ''NOTIFY''" | "method_name SUBSCRIBE = ''SUBSCRIBE''" | "method_name UNSUBSCRIBE = ''UNSUBSCRIBE''"

fun any_method_name :: "AnyMethod \<Rightarrow> string" where
  "any_method_name (Method m) = method_name m"
| "any_method_name ConnectMethod = ''CONNECT''"

text \<open>A pointer into text is the text that is left; at its end stands the NUL.\<close>

definition peek :: "string \<Rightarrow> char" where
  "peek p = (case p of [] \<Rightarrow> CHR 0x00 | c # _ \<Rightarrow> c)"

lemma peek_simps [simp]: "peek [] = CHR 0x00" "peek (c # p) = c"
  by (simp_all add: peek_def)

definition EXPECT_REST :: "string \<Rightarrow> AnyMethod \<Rightarrow> string \<Rightarrow> (AnyMethod \<times> string) option" where
  "EXPECT_REST suffix m p = (if startsWithChars p suffix then Some (m, drop (length suffix) p) else None)"

definition consume_C :: "string \<Rightarrow> (AnyMethod \<times> string) option" where
  "consume_C p =
     (if peek p = CHR ''H'' then EXPECT_REST ''ECKOUT'' (Method CHECKOUT) (tl p)
      else if peek p = CHR ''O'' then
        (let p = tl p in
         if peek p = CHR ''P'' then EXPECT_REST ''Y'' (Method COPY) (tl p)
         else if peek p = CHR ''N'' then EXPECT_REST ''NECT'' ConnectMethod (tl p)
         else None)
      else None)"

definition consume_M :: "string \<Rightarrow> (AnyMethod \<times> string) option" where
  "consume_M p =
     (if peek p = CHR ''E'' then EXPECT_REST ''RGE'' (Method MERGE) (tl p)
      else if peek p = CHR ''K'' then
        (let p = tl p in
         if peek p = CHR ''A'' then EXPECT_REST ''CTIVITY'' (Method MKACTIVITY) (tl p)
         else if peek p = CHR ''C'' then EXPECT_REST ''OL'' (Method MKCOL) (tl p)
         else None)
      else if peek p = CHR ''O'' then EXPECT_REST ''VE'' (Method MOVE) (tl p)
      else if peek p = CHR ''S'' then EXPECT_REST ''EARCH'' (Method MSEARCH) (tl p)
      else None)"

definition consume_P :: "string \<Rightarrow> (AnyMethod \<times> string) option" where
  "consume_P p =
     (if peek p = CHR ''A'' then EXPECT_REST ''TCH'' (Method PATCH) (tl p)
      else if peek p = CHR ''O'' then EXPECT_REST ''ST'' (Method POST) (tl p)
      else if peek p = CHR ''R'' then
        (let p = tl p in
         if peek p \<noteq> CHR ''O'' \<or> peek (tl p) \<noteq> CHR ''P'' then None
         else
         let p = tl (tl p) in
         if peek p = CHR ''F'' then EXPECT_REST ''IND'' (Method PROPFIND) (tl p)
         else if peek p = CHR ''P'' then EXPECT_REST ''ATCH'' (Method PROPPATCH) (tl p)
         else None)
      else if peek p = CHR ''U'' then
        (let p = tl p in
         if peek p = CHR ''R'' then EXPECT_REST ''GE'' (Method PURGE) (tl p)
         else if peek p = CHR ''T'' then EXPECT_REST '''' (Method PUT) (tl p)
         else None)
      else None)"

definition consume_S :: "string \<Rightarrow> (AnyMethod \<times> string) option" where
  "consume_S p =
     (if peek p = CHR ''E'' then EXPECT_REST ''ARCH'' (Method SEARCH) (tl p)
      else if peek p = CHR ''U'' then EXPECT_REST ''BSCRIBE'' (Method SUBSCRIBE) (tl p)
      else None)"

definition consume_U :: "string \<Rightarrow> (AnyMethod \<times> string) option" where
  "consume_U p =
     (if peek p \<noteq> CHR ''N'' then None
      else
      let p = tl p in
      if peek p = CHR ''L'' then EXPECT_REST ''OCK'' (Method UNLOCK) (tl p)
      else if peek p = CHR ''S'' then EXPECT_REST ''UBSCRIBE'' (Method UNSUBSCRIBE) (tl p)
      else None)"

definition consumeHttpMethod :: "string \<Rightarrow> (AnyMethod \<times> string) option" where
  "consumeHttpMethod ptr =
     (let c = peek ptr; p = tl ptr in
      if c = CHR ''A'' then EXPECT_REST ''CL'' (Method ACL) p
      else if c = CHR ''C'' then consume_C p
      else if c = CHR ''D'' then EXPECT_REST ''ELETE'' (Method DELETE) p
      else if c = CHR ''G'' then EXPECT_REST ''ET'' (Method GET) p
      else if c = CHR ''H'' then EXPECT_REST ''EAD'' (Method HEAD) p
      else if c = CHR ''L'' then EXPECT_REST ''OCK'' (Method LOCK) p
      else if c = CHR ''M'' then consume_M p
      else if c = CHR ''N'' then EXPECT_REST ''OTIFY'' (Method NOTIFY) p
      else if c = CHR ''O'' then EXPECT_REST ''PTIONS'' (Method OPTIONS) p
      else if c = CHR ''P'' then consume_P p
      else if c = CHR ''R'' then EXPECT_REST ''EPORT'' (Method REPORT) p
      else if c = CHR ''S'' then consume_S p
      else if c = CHR ''T'' then EXPECT_REST ''RACE'' (Method TRACE) p
      else if c = CHR ''U'' then consume_U p
      else None)"

definition tryParseHttpMethodAllowingConnect :: "string \<Rightarrow> AnyMethod option" where
  "tryParseHttpMethodAllowingConnect name =
     (case consumeHttpMethod name of
        None \<Rightarrow> None
      | Some (m, ptr) \<Rightarrow> if peek ptr = CHR 0x00 then Some m else None)"

definition tryParseHttpMethod :: "string \<Rightarrow> HttpMethod option" where
  "tryParseHttpMethod name =
     (case tryParseHttpMethodAllowingConnect name of
        Some (Method m) \<Rightarrow> Some m
      | Some ConnectMethod \<Rightarrow> None
      | None \<Rightarrow> None)"

lemma startsWith_append: "startsWithChars p s \<longleftrightarrow> (\<exists>r. p = s @ r)"
  unfolding startsWithChars_def by (metis append_eq_conv_conj append_take_drop_id)

lemma EXPECT_REST_iff: "EXPECT_REST suffix m p = Some (m', r) \<longleftrightarrow> m' = m \<and> p = suffix @ r"
  by (auto simp: EXPECT_REST_def startsWith_append)

lemma EXPECT_REST_append [simp]: "EXPECT_REST suffix m (suffix @ r) = Some (m, r)"
  by (simp add: EXPECT_REST_iff)

lemma consume_name: "consumeHttpMethod (any_method_name m @ r) = Some (m, r)"
proof (cases m)
  case (Method k)
  then show ?thesis
    by (cases k) (simp_all add: consumeHttpMethod_def consume_C_def consume_M_def consume_P_def consume_S_def
        consume_U_def EXPECT_REST_iff Let_def)
qed (simp add: consumeHttpMethod_def consume_C_def EXPECT_REST_iff Let_def)

lemma peek_eq: "peek p = c \<Longrightarrow> c \<noteq> CHR 0x00 \<Longrightarrow> p = c # tl p"
  by (cases p) simp_all

lemma consume_parts:
  "consume_C p = Some (m, r) \<Longrightarrow> any_method_name m @ r = CHR ''C'' # p"
  "consume_M p = Some (m, r) \<Longrightarrow> any_method_name m @ r = CHR ''M'' # p"
  "consume_P p = Some (m, r) \<Longrightarrow> any_method_name m @ r = CHR ''P'' # p"
  "consume_S p = Some (m, r) \<Longrightarrow> any_method_name m @ r = CHR ''S'' # p"
  "consume_U p = Some (m, r) \<Longrightarrow> any_method_name m @ r = CHR ''U'' # p"
  by (auto simp: consume_C_def consume_M_def consume_P_def consume_S_def consume_U_def Let_def EXPECT_REST_iff
      dest!: peek_eq split: if_splits)

lemma consume_sound: "consumeHttpMethod p = Some (m, r) \<Longrightarrow> p = any_method_name m @ r"
  by (auto simp: consumeHttpMethod_def Let_def EXPECT_REST_iff dest!: peek_eq consume_parts split: if_splits)

text \<open>A method is read exactly when its name is a prefix of the text.\<close>

lemma consume_iff: "consumeHttpMethod p = Some (m, r) \<longleftrightarrow> p = any_method_name m @ r"
  using consume_sound consume_name by blast

section \<open>Header names and values\<close>

definition HTTP_SEPARATOR_CHARS :: CharGroup where
  "HTTP_SEPARATOR_CHARS = anyOfChars (''()<>@,;:'' @ [CHR 0x5c, CHR 0x22] @ ''/[]?={} '' @ [CHR 0x09])"

definition HTTP_TOKEN_CHARS :: CharGroup where
  "HTTP_TOKEN_CHARS = invert (orGroup (orGroup (orChar controlChar (CHR 0x7f)) whitespaceChar) HTTP_SEPARATOR_CHARS)"

definition HTTP_HEADER_NAME_CHARS :: CharGroup where
  "HTTP_HEADER_NAME_CHARS = HTTP_TOKEN_CHARS"

definition isValidHeaderName :: "string \<Rightarrow> bool" where
  "isValidHeaderName name \<longleftrightarrow> list_all (contains HTTP_HEADER_NAME_CHARS) name"

definition isValidHeaderValue :: "string \<Rightarrow> bool" where
  "isValidHeaderValue value \<longleftrightarrow> list_all (\<lambda>c. \<not> (c = CHR 0x00 \<or> c = CHR 0x0d \<or> c = CHR 0x0a)) value"

text \<open>\<open>strcasecmp\<close> in the C locale; both strings end at their first NUL.\<close>

definition tolower :: "char \<Rightarrow> char" where
  "tolower c = (if CHR ''A'' \<le> c \<and> c \<le> CHR ''Z'' then char_of (of_char c + 32 :: nat) else c)"

definition cStr :: "string \<Rightarrow> string" where
  "cStr s = takeWhile (\<lambda>c. c \<noteq> CHR 0x00) s"

definition strcaseeq :: "string \<Rightarrow> string \<Rightarrow> bool" where
  "strcaseeq a b \<longleftrightarrow> map tolower (cStr a) = map tolower (cStr b)"

fun hashFrom :: "uint64 \<Rightarrow> byte list \<Rightarrow> uint64" where
  "hashFrom result [] = result"
| "hashFrom result (b # bs) = hashFrom ((push_bit 5 result + result) XOR ucast (b AND NOT 0x20)) bs"

definition HeaderNameHash :: "string \<Rightarrow> uint64" where
  "HeaderNameHash s = hashFrom 5381 (asBytes s)"

section \<open>Header tables\<close>

record HttpHeaderTable =
  namesById :: "string list"
  idsByName :: "(string \<times> nat) list"

definition BUILTIN_HEADER_NAMES :: "string list" where
  "BUILTIN_HEADER_NAMES =
     [''Connection'', ''Keep-Alive'', ''TE'', ''Trailer'', ''Upgrade'', ''Content-Length'', ''Transfer-Encoding'',
      ''Sec-WebSocket-Key'', ''Sec-WebSocket-Version'', ''Sec-WebSocket-Accept'', ''Sec-WebSocket-Extensions'',
      ''Host'', ''Date'', ''Location'', ''Content-Type'', ''Range'', ''Content-Range'']"

definition HttpHeaderTable_new :: HttpHeaderTable where
  "HttpHeaderTable_new =
     \<lparr>namesById = BUILTIN_HEADER_NAMES, idsByName = zip BUILTIN_HEADER_NAMES [0..<length BUILTIN_HEADER_NAMES]\<rparr>"

text \<open>\<open>unordered_map::find\<close>: only entries with the hash of the key are compared with it.\<close>

definition findName :: "string \<Rightarrow> (string \<times> nat) list \<Rightarrow> (string \<times> nat) option" where
  "findName name entries =
     find (\<lambda>e. HeaderNameHash (fst e) = HeaderNameHash name \<and> strcaseeq (fst e) name) entries"

definition stringToId :: "HttpHeaderTable \<Rightarrow> string \<Rightarrow> nat option" where
  "stringToId table name = map_option snd (findName name (idsByName table))"

definition idToString :: "HttpHeaderTable \<Rightarrow> nat \<Rightarrow> string" where
  "idToString table i = namesById table ! i"

definition idCount :: "HttpHeaderTable \<Rightarrow> nat" where
  "idCount table = length (namesById table)"

datatype header_error = InvalidHeaderName string | InvalidHeaderValue string

definition Builder_add :: "string \<Rightarrow> HttpHeaderTable \<Rightarrow> header_error + nat \<times> HttpHeaderTable" where
  "Builder_add name table =
     (if \<not> isValidHeaderName name then Inl (InvalidHeaderName name)
      else case findName name (idsByName table) of
             Some (_, i) \<Rightarrow> Inr (i, table)
           | None \<Rightarrow>
               let i = length (namesById table) in
               Inr (i, table\<lparr>idsByName := idsByName table @ [(name, i)], namesById := namesById table @ [name]\<rparr>))"

subsection \<open>Lookup is by the name without its case\<close>

lemma tolower_facts:
  "byteOfChar (tolower c) AND NOT 0x20 = byteOfChar c AND NOT 0x20" "tolower c = CHR 0x00 \<longleftrightarrow> c = CHR 0x00"
proof -
  have all: "\<forall>n \<in> set [65..<91]. byteOfChar (char_of (n + 32 :: nat)) AND NOT 0x20 = byteOfChar (char_of n) AND NOT 0x20 \<and>
      (char_of (n + 32) :: char) \<noteq> CHR 0x00 \<and> (char_of n :: char) \<noteq> CHR 0x00"
    by code_simp
  have "byteOfChar (tolower c) AND NOT 0x20 = byteOfChar c AND NOT 0x20 \<and> (tolower c = CHR 0x00 \<longleftrightarrow> c = CHR 0x00)"
  proof (cases "CHR ''A'' \<le> c \<and> c \<le> CHR ''Z''")
    case True
    then have "of_char c \<in> {65..<91 :: nat}" by (simp add: less_eq_char_def)
    then have "of_char c \<in> set [65..<91 :: nat]" by (simp only: set_upt)
    from bspec [OF all this] show ?thesis using True by (simp add: tolower_def)
  next
    case False
    then have "tolower c = c" by (auto simp: tolower_def)
    then show ?thesis by simp
  qed
  then show "byteOfChar (tolower c) AND NOT 0x20 = byteOfChar c AND NOT 0x20" "tolower c = CHR 0x00 \<longleftrightarrow> c = CHR 0x00"
    by simp_all
qed

lemma hashFrom_tolower: "hashFrom h (asBytes (map tolower s)) = hashFrom h (asBytes s)"
  by (induction s arbitrary: h) (simp_all add: tolower_facts(1) [simplified])

lemma HeaderNameHash_case:
  assumes "map tolower a = map tolower b"
  shows "HeaderNameHash a = HeaderNameHash b"
  using hashFrom_tolower [of 5381 a] hashFrom_tolower [of 5381 b] assms by (simp add: HeaderNameHash_def)

definition separators :: string where
  "separators = ''()<>@,;:'' @ [CHR 0x5c, CHR 0x22] @ ''/[]?={} ''"

lemma name_chars_iff:
  "contains HTTP_HEADER_NAME_CHARS c \<longleftrightarrow> \<not> (c \<le> CHR 0x1f \<or> c = CHR 0x7f \<or> c \<in> set separators)"
proof -
  have small: "c \<in> set separators \<Longrightarrow> of_char c < (192 :: nat)"
    by (auto simp: separators_def)
  have sep: "contains HTTP_SEPARATOR_CHARS c \<longleftrightarrow> c \<in> set separators \<or> c = CHR 0x09"
  proof -
    have eq: "HTTP_SEPARATOR_CHARS = anyOfChars (separators @ [CHR 0x09])"
      by (simp add: HTTP_SEPARATOR_CHARS_def separators_def)
    show ?thesis unfolding eq using small by auto
  qed
  have white: "contains whitespaceChar c \<longleftrightarrow> c \<in> {CHR '' '', CHR 0x0c, CHR 0x0a, CHR 0x0d, CHR 0x09, CHR 0x0b}"
    by (auto simp: whitespaceChar_def)
  have ctrl: "contains controlChar c \<longleftrightarrow> c \<le> CHR 0x1f \<and> \<not> contains whitespaceChar c"
    by (simp add: controlChar_def whitespaceChar_def) (simp add: less_eq_char_def)
  have wf: "wfGroup controlChar" "wfGroup whitespaceChar" "wfGroup HTTP_SEPARATOR_CHARS"
    by (simp_all add: controlChar_def whitespaceChar_def HTTP_SEPARATOR_CHARS_def)
  have "contains HTTP_HEADER_NAME_CHARS c \<longleftrightarrow>
      \<not> (contains controlChar c \<or> c = CHR 0x7f \<or> contains whitespaceChar c \<or> contains HTTP_SEPARATOR_CHARS c)"
    using wf by (simp add: HTTP_HEADER_NAME_CHARS_def HTTP_TOKEN_CHARS_def contains_orChar)
  moreover have "CHR '' '' \<in> set separators" by (simp add: separators_def)
  moreover have "c \<in> {CHR 0x0c, CHR 0x0a, CHR 0x0d, CHR 0x09, CHR 0x0b} \<Longrightarrow> c \<le> CHR 0x1f"
    by (auto simp: less_eq_char_def)
  ultimately show ?thesis unfolding sep white ctrl by blast
qed

lemma name_chars:
  assumes "contains HTTP_HEADER_NAME_CHARS c"
  shows "c \<noteq> CHR 0x00" "c \<noteq> CHR 0x0d" "c \<noteq> CHR 0x0a" "c \<noteq> CHR 0x09" "c \<noteq> CHR '' ''" "c \<noteq> CHR '':''"
proof -
  have "CHR 0x00 \<le> CHR 0x1f" "CHR 0x0d \<le> CHR 0x1f" "CHR 0x0a \<le> CHR 0x1f" "CHR 0x09 \<le> CHR 0x1f"
    "CHR '' '' \<in> set separators" "CHR '':'' \<in> set separators"
    by (simp_all add: less_eq_char_def separators_def)
  with assms show "c \<noteq> CHR 0x00" "c \<noteq> CHR 0x0d" "c \<noteq> CHR 0x0a" "c \<noteq> CHR 0x09" "c \<noteq> CHR '' ''" "c \<noteq> CHR '':''"
    unfolding name_chars_iff by metis+
qed

lemma validName_cStr: "isValidHeaderName name \<Longrightarrow> cStr name = name"
  by (auto simp: isValidHeaderName_def cStr_def list_all_iff takeWhile_eq_all_conv dest: name_chars)

definition sameName :: "string \<Rightarrow> string \<Rightarrow> bool" where
  "sameName a b \<longleftrightarrow> map tolower a = map tolower b"

lemma strcaseeq_valid:
  assumes "isValidHeaderName a" and "isValidHeaderName b"
  shows "HeaderNameHash a = HeaderNameHash b \<and> strcaseeq a b \<longleftrightarrow> sameName a b"
  using assms HeaderNameHash_case [of a b] by (auto simp: strcaseeq_def validName_cStr sameName_def)

text \<open>The invariant of a table: every valid name once, indexed by its position.\<close>

definition table_ok :: "HttpHeaderTable \<Rightarrow> bool" where
  "table_ok table \<longleftrightarrow>
     idsByName table = zip (namesById table) [0..<length (namesById table)] \<and>
     list_all isValidHeaderName (namesById table) \<and> distinct (map (map tolower) (namesById table))"

lemma find_only:
  assumes "x \<in> set xs" and "P x" and "\<And>y. y \<in> set xs \<Longrightarrow> P y \<Longrightarrow> y = x"
  shows "find P xs = Some x"
proof -
  have "find P xs \<noteq> None" using assms(1,2) by (auto simp: find_None_iff)
  then obtain y where y: "find P xs = Some y" by blast
  then have "y \<in> set xs" "P y" by (auto simp: find_Some_iff)
  then show ?thesis using assms(3) y by simp
qed

lemma find_SomeD: "find P xs = Some x \<Longrightarrow> x \<in> set xs \<and> P x"
  by (auto simp: find_Some_iff)

lemma findName_iff:
  assumes "table_ok table" and "isValidHeaderName name"
  shows "findName name (idsByName table) = Some (n, i) \<longleftrightarrow>
    i < length (namesById table) \<and> n = namesById table ! i \<and> sameName n name"
proof -
  have entries: "e \<in> set (idsByName table) \<longleftrightarrow> snd e < length (namesById table) \<and> fst e = namesById table ! snd e" for e
    using assms(1) by (cases e) (auto simp: table_ok_def set_zip)
  have same: "HeaderNameHash (fst e) = HeaderNameHash name \<and> strcaseeq (fst e) name \<longleftrightarrow> sameName (fst e) name"
    if "e \<in> set (idsByName table)" for e
    using that entries assms by (intro strcaseeq_valid) (auto simp: table_ok_def list_all_length)
  have unique: "j = i" if "sameName (namesById table ! j) name" "sameName (namesById table ! i) name"
    "j < length (namesById table)" "i < length (namesById table)" for i j
    using that assms(1) nth_eq_iff_index_eq [of "map (map tolower) (namesById table)" i j]
    by (simp add: table_ok_def sameName_def)
  show ?thesis
  proof
    assume "findName name (idsByName table) = Some (n, i)"
    note found = find_SomeD [OF this [unfolded findName_def]]
    then have "sameName (fst (n, i)) name" using same by blast
    then show "i < length (namesById table) \<and> n = namesById table ! i \<and> sameName n name"
      using found entries [of "(n, i)"] by simp
  next
    assume i: "i < length (namesById table) \<and> n = namesById table ! i \<and> sameName n name"
    show "findName name (idsByName table) = Some (n, i)"
      unfolding findName_def
    proof (rule find_only)
      show "(n, i) \<in> set (idsByName table)" using i entries by simp
      from same [OF this] have "HeaderNameHash n = HeaderNameHash name \<and> strcaseeq n name \<longleftrightarrow> sameName n name" by simp
      with i show "HeaderNameHash (fst (n, i)) = HeaderNameHash name \<and> strcaseeq (fst (n, i)) name" by auto
      fix e assume e: "e \<in> set (idsByName table)" "HeaderNameHash (fst e) = HeaderNameHash name \<and> strcaseeq (fst e) name"
      then have "sameName (fst e) name" using same by blast
      moreover have "sameName (namesById table ! i) name" using i by auto
      ultimately have "snd e = i" using e(1) entries [of e] i unique [of "snd e" i] by simp
      then show "e = (n, i)" using e(1) entries [of e] i by (simp add: prod_eq_iff)
    qed
  qed
qed

lemma stringToId_iff:
  assumes "table_ok table" and "isValidHeaderName name"
  shows "stringToId table name = Some i \<longleftrightarrow> i < idCount table \<and> sameName (idToString table i) name"
  using findName_iff [OF assms] by (fastforce simp: stringToId_def idCount_def idToString_def)

lemma builtin_ok: "table_ok HttpHeaderTable_new"
proof -
  have "list_all isValidHeaderName BUILTIN_HEADER_NAMES"
    by (simp add: BUILTIN_HEADER_NAMES_def isValidHeaderName_def name_chars_iff separators_def less_eq_char_def)
  moreover have "distinct (map (map tolower) BUILTIN_HEADER_NAMES)"
    by (simp add: BUILTIN_HEADER_NAMES_def tolower_def less_eq_char_def char_of_def bit_0)
  ultimately show ?thesis by (simp add: table_ok_def HttpHeaderTable_new_def)
qed

lemma Builder_add_ok:
  assumes "table_ok table" and "Builder_add name table = Inr (i, table')"
  shows "table_ok table'" "isValidHeaderName name"
    "i < idCount table'" "sameName (idToString table' i) name"
    "\<And>j. j < idCount table \<Longrightarrow> j < idCount table' \<and> idToString table' j = idToString table j"
proof -
  have valid: "isValidHeaderName name" using assms(2) by (auto simp: Builder_add_def split: if_splits)
  have "table_ok table' \<and> i < idCount table' \<and> sameName (idToString table' i) name \<and>
    (\<forall>j < idCount table. j < idCount table' \<and> idToString table' j = idToString table j)"
  proof (cases "findName name (idsByName table)")
    case None
    have new: "map tolower (namesById table ! j) \<noteq> map tolower name" if "j < length (namesById table)" for j
      using findName_iff [OF assms(1) valid, of "namesById table ! j" j] None that by (auto simp: sameName_def)
    have "map tolower name \<notin> set (map (map tolower) (namesById table))"
    proof
      assume "map tolower name \<in> set (map (map tolower) (namesById table))"
      then obtain j where "j < length (namesById table)" "map tolower (namesById table ! j) = map tolower name"
        by (auto simp: in_set_conv_nth)
      then show False using new by blast
    qed
    then show ?thesis
      using None assms valid
      by (auto simp: Builder_add_def table_ok_def idCount_def idToString_def sameName_def nth_append Let_def)
  next
    case (Some e)
    then show ?thesis
      using assms valid findName_iff [OF assms(1) valid, of "fst e" "snd e"]
      by (auto simp: Builder_add_def idCount_def idToString_def split: prod.splits)
  qed
  then show "table_ok table'" "isValidHeaderName name" "i < idCount table'" "sameName (idToString table' i) name"
    "\<And>j. j < idCount table \<Longrightarrow> j < idCount table' \<and> idToString table' j = idToString table j" using valid by auto
qed

lemma cut_method:
  "tryParseHttpMethod name = Some m \<longleftrightarrow> name = method_name m \<or> (\<exists>rest. name = method_name m @ CHR 0x00 # rest)"
proof -
  have "tryParseHttpMethod name = Some m \<longleftrightarrow> (\<exists>r. consumeHttpMethod name = Some (Method m, r) \<and> peek r = CHR 0x00)"
    by (auto simp: tryParseHttpMethod_def tryParseHttpMethodAllowingConnect_def split: option.splits AnyMethod.splits if_splits)
  also have "\<dots> \<longleftrightarrow> (\<exists>r. name = method_name m @ r \<and> peek r = CHR 0x00)" by (simp add: consume_iff)
  also have "\<dots> \<longleftrightarrow> name = method_name m \<or> (\<exists>rest. name = method_name m @ CHR 0x00 # rest)"
    by (metis append_Nil2 list.exhaust peek_simps)
  finally show ?thesis .
qed

text \<open>Reading a request method takes a prefix of the text exactly when it is the name of that method, and a string
  is a method exactly when it is its name, up to a CHR 0x00.\<close>

theorem methods_by_name:
  "(consumeHttpMethod p = Some (m, r) \<longleftrightarrow> p = any_method_name m @ r) \<and>
   (tryParseHttpMethod name = Some k \<longleftrightarrow> name = method_name k \<or> (\<exists>rest. name = method_name k @ CHR 0x00 # rest))"
  using consume_iff cut_method by simp

section \<open>Tables in use\<close>

inductive built_table :: "HttpHeaderTable \<Rightarrow> bool" where
  builtin: "built_table HttpHeaderTable_new"
| add: "built_table table \<Longrightarrow> Builder_add name table = Inr (i, table') \<Longrightarrow> built_table table'"

lemma built_table_ok: "built_table table \<Longrightarrow> table_ok table"
  by (induction rule: built_table.induct) (auto intro: builtin_ok Builder_add_ok(1))

text \<open>C38. In a table built from the built-in names, a valid name has the number of the one name that differs from it in case
  at most; adding a name gives the number of such a name and keeps the numbers that were given out.\<close>

theorem header_ids_by_name:
  assumes "built_table table" and "isValidHeaderName name"
  shows "(stringToId table name = Some i \<longleftrightarrow> i < idCount table \<and> sameName (idToString table i) name) \<and>
    (\<exists>j table'. Builder_add name table = Inr (j, table') \<and> stringToId table' name = Some j \<and>
      (\<forall>k < idCount table. idToString table' k = idToString table k))"
proof
  note ok = built_table_ok [OF assms(1)]
  show "stringToId table name = Some i \<longleftrightarrow> i < idCount table \<and> sameName (idToString table i) name"
    by (rule stringToId_iff [OF ok assms(2)])
  obtain j table' where add: "Builder_add name table = Inr (j, table')"
    using assms(2) by (cases "findName name (idsByName table)") (auto simp: Builder_add_def Let_def)
  note b = Builder_add_ok [OF ok add]
  have "stringToId table' name = Some j" using b(3,4) stringToId_iff [OF b(1) assms(2)] by simp
  then show "\<exists>j table'. Builder_add name table = Inr (j, table') \<and> stringToId table' name = Some j \<and>
      (\<forall>k < idCount table. idToString table' k = idToString table k)"
    using add b(5) by blast
qed

lemma header_chars: "isValidHeaderName ''content-length''" "isValidHeaderName ''X-A''"
  by (simp_all add: isValidHeaderName_def name_chars_iff separators_def less_eq_char_def)

theorem header_ids_by_name_witness:
  "(stringToId HttpHeaderTable_new ''content-length'' = Some 5) \<and>
   (\<exists>j table'. Builder_add ''content-length'' HttpHeaderTable_new = Inr (j, table') \<and>
      stringToId table' ''content-length'' = Some j)"
  using header_ids_by_name [OF built_table.builtin header_chars(1), of 5]
  by (auto simp: idCount_def idToString_def HttpHeaderTable_new_def BUILTIN_HEADER_NAMES_def sameName_def tolower_def
      less_eq_char_def char_of_def bit_0)

end
