(* ===== verification/Http_Headers.thy ===== *)
theory Http_Headers
  imports Http_Names
begin

text \<open>The headers of a message (HttpHeaders of http.cc): the values of numbered headers and the other headers in
  order, the operations that change them, the parsers of requests and responses and the serialization. A pointer into
  the text is the text that is left; \<open>reachable_headers\<close> are the headers that the operations and the parsers give.\<close>

section \<open>Headers\<close>

text \<open>A header that is not set is the empty string: a \<open>StringPtr\<close> equals \<open>nullptr\<close> when its size is 0.\<close>

record HttpHeaders =
  indexedHeaders :: "string list"
  unindexedHeaders :: "(string \<times> string) list"

definition HttpHeaders_new :: "HttpHeaderTable \<Rightarrow> HttpHeaders" where
  "HttpHeaders_new table = \<lparr>indexedHeaders = replicate (idCount table) [], unindexedHeaders = []\<rparr>"

definition headers_clear :: "HttpHeaders \<Rightarrow> HttpHeaders" where
  "headers_clear h = h\<lparr>indexedHeaders := map (\<lambda>_. []) (indexedHeaders h), unindexedHeaders := []\<rparr>"

definition headers_size :: "HttpHeaders \<Rightarrow> nat" where
  "headers_size h = length (unindexedHeaders h) + length (filter (\<lambda>v. v \<noteq> []) (indexedHeaders h))"

definition headers_get :: "nat \<Rightarrow> HttpHeaders \<Rightarrow> string option" where
  "headers_get i h = (let result = indexedHeaders h ! i in if result = [] then None else Some result)"

definition headers_unset :: "nat \<Rightarrow> HttpHeaders \<Rightarrow> HttpHeaders" where
  "headers_unset i h = h\<lparr>indexedHeaders := (indexedHeaders h)[i := []]\<rparr>"

definition headers_set :: "nat \<Rightarrow> string \<Rightarrow> HttpHeaders \<Rightarrow> header_error + HttpHeaders" where
  "headers_set i value h =
     (if \<not> isValidHeaderValue value then Inl (InvalidHeaderValue value)
      else Inr (h\<lparr>indexedHeaders := (indexedHeaders h)[i := value]\<rparr>))"

definition addNoCheck :: "HttpHeaderTable \<Rightarrow> string \<Rightarrow> string \<Rightarrow> HttpHeaders \<Rightarrow> HttpHeaders" where
  "addNoCheck table name value h =
     (case stringToId table name of
        Some i \<Rightarrow>
          if indexedHeaders h ! i = [] then h\<lparr>indexedHeaders := (indexedHeaders h)[i := value]\<rparr>
          else if strcaseeq name ''set-cookie'' then h\<lparr>unindexedHeaders := unindexedHeaders h @ [(name, value)]\<rparr>
          else h\<lparr>indexedHeaders := (indexedHeaders h)[i := indexedHeaders h ! i @ '', '' @ value]\<rparr>
      | None \<Rightarrow> h\<lparr>unindexedHeaders := unindexedHeaders h @ [(name, value)]\<rparr>)"

definition headers_add :: "HttpHeaderTable \<Rightarrow> string \<Rightarrow> string \<Rightarrow> HttpHeaders \<Rightarrow> header_error + HttpHeaders" where
  "headers_add table name value h =
     (if \<not> isValidHeaderName name then Inl (InvalidHeaderName name)
      else if \<not> isValidHeaderValue value then Inl (InvalidHeaderValue value)
      else Inr (addNoCheck table name value h))"

definition headers_forEach :: "HttpHeaderTable \<Rightarrow> HttpHeaders \<Rightarrow> (string \<times> string) list" where
  "headers_forEach table h =
     map (\<lambda>i. (idToString table i, indexedHeaders h ! i))
       (filter (\<lambda>i. indexedHeaders h ! i \<noteq> []) [0..<length (indexedHeaders h)]) @
     unindexedHeaders h"

section \<open>Parsing\<close>

abbreviation CR :: char where "CR \<equiv> CHR 0x0d"
abbreviation LF :: char where "LF \<equiv> CHR 0x0a"
abbreviation NUL :: char where "NUL \<equiv> CHR 0x00"
abbreviation TAB :: char where "TAB \<equiv> CHR 0x09"
abbreviation SP :: char where "SP \<equiv> CHR '' ''"
abbreviation CRLF :: string where "CRLF \<equiv> [CR, LF]"

fun skipSpace :: "string \<Rightarrow> string" where
  "skipSpace [] = []"
| "skipSpace (c # p) = (if c = TAB \<or> c = SP then skipSpace p else c # p)"

fun wordLoop :: "string \<Rightarrow> (string \<times> string) option" where
  "wordLoop [] = Some ([], [])"
| "wordLoop (c # p) =
     (if c = NUL then Some ([], c # p)
      else if c = TAB \<or> c = SP then Some ([], p)
      else if c = LF \<or> c = CR then None
      else map_option (\<lambda>(word, ptr). (c # word, ptr)) (wordLoop p))"

definition consumeWord :: "string \<Rightarrow> (string \<times> string) option" where
  "consumeWord ptr = wordLoop (skipSpace ptr)"

fun numberLoop :: "uint32 \<Rightarrow> string \<Rightarrow> uint32 \<times> string" where
  "numberLoop result [] = (result, [])"
| "numberLoop result (c # p) =
     (if CHR ''0'' \<le> c \<and> c \<le> CHR ''9'' then numberLoop (result * 10 + word_of_nat (of_char c - 48)) p
      else (result, c # p))"

definition consumeNumber :: "string \<Rightarrow> (uint32 \<times> string) option" where
  "consumeNumber ptr =
     (let start = skipSpace ptr; (result, p) = numberLoop 0 start
      in if p = start then None else Some (result, p))"

text \<open>A line that begins with a blank continues the one before; the line break becomes blanks.\<close>

function lineLoop :: "string \<Rightarrow> string \<times> string" where
  "lineLoop [] = ([], [])"
| "lineLoop (c # p) =
     (if c = NUL then ([], c # p)
      else if c = CR then
        (let p' = (if peek p = LF then tl p else p) in
         if peek p' = SP \<or> peek p' = TAB then
           (case lineLoop p' of (line, ptr) \<Rightarrow> ((if peek p = LF then [SP, SP] else [SP]) @ line, ptr))
         else ([], p'))
      else if c = LF then
        (if peek p = SP \<or> peek p = TAB then (case lineLoop p of (line, ptr) \<Rightarrow> (SP # line, ptr)) else ([], p))
      else (case lineLoop p of (line, ptr) \<Rightarrow> (c # line, ptr)))"
  by pat_completeness auto
termination by (relation "measure length") auto

definition consumeLine :: "string \<Rightarrow> string \<times> string" where
  "consumeLine ptr = lineLoop (skipSpace ptr)"

definition consumeHeaderName :: "string \<Rightarrow> (string \<times> string) option" where
  "consumeHeaderName ptr =
     (let name = takeWhile (contains HTTP_HEADER_NAME_CHARS) ptr;
          p = skipSpace (dropWhile (contains HTTP_HEADER_NAME_CHARS) ptr)
      in if name = [] \<or> peek p \<noteq> CHR '':'' then None else Some (name, skipSpace (tl p)))"

text \<open>The text up to the final line break.\<close>

definition trimHeaderEnding :: "string \<Rightarrow> string option" where
  "trimHeaderEnding content =
     (if length content < 2 then None
      else if last content \<noteq> LF then None
      else let content = butlast content in Some (if last content = CR then butlast content else content))"

lemma skipSpace_length: "length (skipSpace p) \<le> length p"
  by (induction p) simp_all

lemma lineLoop_length: "length (snd (lineLoop p)) \<le> length p"
proof (induction p rule: lineLoop.induct)
  case (2 c p)
  have tl: "length (tl p) \<le> length p" by simp
  show ?case using 2 tl by (auto simp: Let_def split: prod.splits)
qed simp

lemma consumeLine_length: "consumeLine p = (line, q) \<Longrightarrow> length q \<le> length p"
  using lineLoop_length [of "skipSpace p"] skipSpace_length [of p] by (simp add: consumeLine_def)

lemma consumeHeaderName_length: "consumeHeaderName p = Some (name, ptr) \<Longrightarrow> length ptr < length p"
proof -
  assume "consumeHeaderName p = Some (name, ptr)"
  then have name: "name = takeWhile (contains HTTP_HEADER_NAME_CHARS) p" "name \<noteq> []"
    and ptr: "ptr = skipSpace (tl (skipSpace (dropWhile (contains HTTP_HEADER_NAME_CHARS) p)))"
    by (auto simp: consumeHeaderName_def Let_def split: if_splits)
  have "length ptr \<le> length (dropWhile (contains HTTP_HEADER_NAME_CHARS) p)"
    unfolding ptr using skipSpace_length [of "tl (skipSpace (dropWhile (contains HTTP_HEADER_NAME_CHARS) p))"]
      skipSpace_length [of "dropWhile (contains HTTP_HEADER_NAME_CHARS) p"] by simp
  also have "\<dots> < length p"
    using name by (metis add_diff_cancel_left' diff_less length_append length_greater_0_conv takeWhile_dropWhile_id
        trans_less_add1 less_add_same_cancel2)
  finally show "length ptr < length p" .
qed

function parseHeaders :: "HttpHeaderTable \<Rightarrow> string \<Rightarrow> HttpHeaders \<Rightarrow> bool \<times> HttpHeaders" where
  "parseHeaders table ptr h =
     (if peek ptr = NUL then (ptr = [], h)
      else
        case consumeHeaderName ptr of
          None \<Rightarrow> (False, h)
        | Some (name, ptr) \<Rightarrow>
            (case consumeLine ptr of (line, ptr) \<Rightarrow> parseHeaders table ptr (addNoCheck table name line h)))"
  by pat_completeness auto
termination
  by (relation "measure (\<lambda>(table, ptr, h). length ptr)")
    (auto dest!: consumeHeaderName_length dest: sym [THEN consumeLine_length] intro: le_less_trans)

declare parseHeaders.simps [simp del]

record http_error =
  statusCode :: nat
  statusMessage :: string
  description :: string

definition http_error :: "nat \<Rightarrow> string \<Rightarrow> string \<Rightarrow> http_error" where
  "http_error code message text = \<lparr>statusCode = code, statusMessage = message, description = text\<rparr>"

datatype request = Request HttpMethod string | ConnectRequest string

datatype response = Response uint32 string

definition badMethod :: http_error where
  "badMethod = http_error 501 ''Not Implemented'' ''Unrecognized request method.''"

definition tryParseRequestOrConnect :: "HttpHeaderTable \<Rightarrow> string \<Rightarrow> HttpHeaders \<Rightarrow>
    (http_error + request) \<times> HttpHeaders" where
  "tryParseRequestOrConnect table content h =
     (case trimHeaderEnding content of
        None \<Rightarrow> (Inl (http_error 400 ''Bad Request'' ''Request headers have no terminal newline.''), h)
      | Some text \<Rightarrow>
          (case consumeHttpMethod text of
             None \<Rightarrow> (Inl badMethod, h)
           | Some (method, ptr) \<Rightarrow>
               if peek ptr \<noteq> SP \<and> peek ptr \<noteq> TAB then (Inl badMethod, h)
               else
                 (case consumeWord (tl ptr) of
                    None \<Rightarrow> (Inl (http_error 400 ''Bad Request'' ''Invalid request line.''), h)
                  | Some (path, ptr) \<Rightarrow>
                      (case parseHeaders table (snd (consumeLine ptr)) h of
                         (ok, h) \<Rightarrow>
                           if \<not> ok then
                             (Inl (http_error 400 ''Bad Request'' ''The headers sent by your client are not valid.''), h)
                           else (Inr (case method of Method m \<Rightarrow> Request m path | ConnectMethod \<Rightarrow> ConnectRequest path), h)))))"

definition tryParseRequest :: "HttpHeaderTable \<Rightarrow> string \<Rightarrow> HttpHeaders \<Rightarrow> (http_error + request) \<times> HttpHeaders" where
  "tryParseRequest table content h =
     (case tryParseRequestOrConnect table content h of
        (Inr (ConnectRequest _), h) \<Rightarrow> (Inl badMethod, h)
      | (other, h) \<Rightarrow> (other, h))"

definition tryParseResponse :: "HttpHeaderTable \<Rightarrow> string \<Rightarrow> HttpHeaders \<Rightarrow> (http_error + response) \<times> HttpHeaders" where
  "tryParseResponse table content h =
     (let bad = http_error 502 ''Bad Gateway'' in
      case trimHeaderEnding content of
        None \<Rightarrow> (Inl (bad ''Response headers have no terminal newline.''), h)
      | Some text \<Rightarrow>
          (case consumeWord text of
             None \<Rightarrow> (Inl (bad ''Invalid response status line (no spaces).''), h)
           | Some (version, ptr) \<Rightarrow>
               if \<not> startsWithChars version ''HTTP/'' then
                 (Inl (bad ''Invalid response status line (invalid protocol).''), h)
               else
                 (case consumeNumber ptr of
                    None \<Rightarrow> (Inl (bad ''Invalid response status line (invalid status code).''), h)
                  | Some (code, ptr) \<Rightarrow>
                      (case consumeLine ptr of
                         (statusText, ptr) \<Rightarrow>
                           (case parseHeaders table ptr h of
                              (ok, h) \<Rightarrow>
                                if \<not> ok then (Inl (bad ''The headers sent by the server are not valid.''), h)
                                else (Inr (Response code statusText), h))))))"

definition headers_tryParse :: "HttpHeaderTable \<Rightarrow> string \<Rightarrow> HttpHeaders \<Rightarrow> bool \<times> HttpHeaders" where
  "headers_tryParse table content h =
     (case trimHeaderEnding content of None \<Rightarrow> (False, h) | Some text \<Rightarrow> parseHeaders table text h)"

section \<open>Serialization\<close>

definition headerLine :: "string \<Rightarrow> string \<Rightarrow> string" where
  "headerLine name value = name @ '': '' @ value @ CRLF"

definition serialize :: "HttpHeaderTable \<Rightarrow> string \<Rightarrow> string \<Rightarrow> string \<Rightarrow> string list \<Rightarrow> HttpHeaders \<Rightarrow> string" where
  "serialize table word1 word2 word3 connectionHeaders h =
     (if word1 \<noteq> [] then word1 @ '' '' @ word2 @ '' '' @ word3 @ CRLF else []) @
     concat (map (\<lambda>i. let value = (if i < length connectionHeaders then connectionHeaders ! i else indexedHeaders h ! i)
                      in if value \<noteq> [] then headerLine (idToString table i) value else [])
       [0..<length (indexedHeaders h)]) @
     concat (map (\<lambda>(name, value). headerLine name value) (unindexedHeaders h)) @
     CRLF"

definition serializeRequest :: "HttpHeaderTable \<Rightarrow> HttpMethod \<Rightarrow> string \<Rightarrow> string list \<Rightarrow> HttpHeaders \<Rightarrow> string" where
  "serializeRequest table method url connectionHeaders h =
     serialize table (method_name method) url ''HTTP/1.1'' connectionHeaders h"

definition serializeConnectRequest :: "HttpHeaderTable \<Rightarrow> string \<Rightarrow> string list \<Rightarrow> HttpHeaders \<Rightarrow> string" where
  "serializeConnectRequest table authority connectionHeaders h =
     serialize table ''CONNECT'' authority ''HTTP/1.1'' connectionHeaders h"

text \<open>\<open>zc::str(statusCode)\<close>.\<close>

definition decimal_text :: "uint32 \<Rightarrow> string" where
  "decimal_text code = the (stringify \<lparr>bytes_of = 4, is_signed = False\<rparr> (uint code))"

definition serializeResponse :: "HttpHeaderTable \<Rightarrow> uint32 \<Rightarrow> string \<Rightarrow> string list \<Rightarrow> HttpHeaders \<Rightarrow> string" where
  "serializeResponse table code statusText connectionHeaders h =
     serialize table ''HTTP/1.1'' (decimal_text code) statusText connectionHeaders h"

definition headers_toString :: "HttpHeaderTable \<Rightarrow> HttpHeaders \<Rightarrow> string" where
  "headers_toString table h = serialize table [] [] [] [] h"

section \<open>Headers stay safe\<close>

definition safeValue :: "string \<Rightarrow> bool" where
  "safeValue v \<longleftrightarrow> NUL \<notin> set v \<and> CR \<notin> set v \<and> LF \<notin> set v"

lemma isValidHeaderValue_iff: "isValidHeaderValue v \<longleftrightarrow> safeValue v"
  by (auto simp: isValidHeaderValue_def safeValue_def list_all_iff)

lemma safeName: "isValidHeaderName n \<Longrightarrow> safeValue n"
  by (auto simp: isValidHeaderName_def safeValue_def list_all_iff dest: name_chars)

lemma safeValue_simps [simp]:
  "safeValue []" "safeValue (c # v) \<longleftrightarrow> c \<noteq> NUL \<and> c \<noteq> CR \<and> c \<noteq> LF \<and> safeValue v"
  "safeValue (v @ w) \<longleftrightarrow> safeValue v \<and> safeValue w"
  by (auto simp: safeValue_def)

definition headers_safe :: "HttpHeaderTable \<Rightarrow> HttpHeaders \<Rightarrow> bool" where
  "headers_safe table h \<longleftrightarrow>
     length (indexedHeaders h) = idCount table \<and> list_all safeValue (indexedHeaders h) \<and>
     list_all (\<lambda>(n, v). isValidHeaderName n \<and> safeValue v) (unindexedHeaders h)"

lemma list_all_update: "list_all P xs \<Longrightarrow> P x \<Longrightarrow> list_all P (xs[i := x])"
  unfolding list_all_iff using set_update_subset_insert [of xs i x] by blast

lemma safe_new: "headers_safe table (HttpHeaders_new table)"
  by (simp add: headers_safe_def HttpHeaders_new_def list_all_length)

lemma safe_clear: "headers_safe table h \<Longrightarrow> headers_safe table (headers_clear h)"
  by (simp add: headers_safe_def headers_clear_def list_all_length)

lemma safe_unset: "headers_safe table h \<Longrightarrow> headers_safe table (headers_unset i h)"
  by (simp add: headers_safe_def headers_unset_def list_all_update)

lemma safe_set: "headers_safe table h \<Longrightarrow> headers_set i v h = Inr h' \<Longrightarrow> headers_safe table h'"
  by (auto simp: headers_safe_def headers_set_def list_all_update isValidHeaderValue_iff split: if_splits)

lemma safe_addNoCheck:
  assumes "table_ok table" and "headers_safe table h" and "isValidHeaderName n" and "safeValue v"
  shows "headers_safe table (addNoCheck table n v h)"
proof -
  have "safeValue (indexedHeaders h ! i)" if "stringToId table n = Some i" for i
    using that stringToId_iff [OF assms(1,3)] assms(2) by (simp add: headers_safe_def list_all_length)
  then show ?thesis
    using assms by (auto simp: headers_safe_def addNoCheck_def list_all_update split: option.splits)
qed

lemma safe_add:
  assumes "table_ok table" and "headers_safe table h" and "headers_add table n v h = Inr h'"
  shows "headers_safe table h'"
  using assms safe_addNoCheck by (auto simp: headers_add_def isValidHeaderValue_iff split: if_splits)

lemma lineLoop_safe: "safeValue (fst (lineLoop p))"
proof (induction p rule: lineLoop.induct)
  case (2 c p)
  then show ?case by (auto simp: Let_def split: prod.splits)
qed simp

lemma consumeHeaderName_valid: "consumeHeaderName p = Some (n, q) \<Longrightarrow> isValidHeaderName n \<and> n \<noteq> []"
  by (auto simp: consumeHeaderName_def isValidHeaderName_def list_all_iff Let_def split: if_splits dest: set_takeWhileD)

lemma safe_parseHeaders:
  assumes "table_ok table" and "headers_safe table h"
  shows "headers_safe table (snd (parseHeaders table p h))"
  using assms
proof (induction table p h rule: parseHeaders.induct)
  case (1 table p h)
  show ?case
  proof (cases "peek p = NUL \<or> consumeHeaderName p = None")
    case True
    then show ?thesis using 1(3) by (auto simp: parseHeaders.simps [of table p])
  next
    case False
    then obtain n q where n: "consumeHeaderName p = Some (n, q)" by auto
    obtain line r where l: "consumeLine q = (line, r)" by force
    have "headers_safe table (addNoCheck table n line h)"
      using safe_addNoCheck [OF 1(2,3)] consumeHeaderName_valid [OF n] lineLoop_safe [of "skipSpace q"] l
      by (simp add: consumeLine_def)
    then show ?thesis
      using 1(1) [OF _ n refl l [symmetric] 1(2)] False n l by (simp add: parseHeaders.simps [of table p])
  qed
qed

lemma safe_parse: "table_ok table \<Longrightarrow> headers_safe table h \<Longrightarrow> parseHeaders table p h = (ok, h') \<Longrightarrow> headers_safe table h'"
  using safe_parseHeaders [of table h p] by simp

text \<open>The headers that a program can have, from the operations of the class and from messages.\<close>

inductive reachable_headers :: "HttpHeaderTable \<Rightarrow> HttpHeaders \<Rightarrow> bool" for table where
  new: "reachable_headers table (HttpHeaders_new table)"
| clear: "reachable_headers table h \<Longrightarrow> reachable_headers table (headers_clear h)"
| unset: "reachable_headers table h \<Longrightarrow> reachable_headers table (headers_unset i h)"
| set: "reachable_headers table h \<Longrightarrow> headers_set i v h = Inr h' \<Longrightarrow> reachable_headers table h'"
| add: "reachable_headers table h \<Longrightarrow> headers_add table n v h = Inr h' \<Longrightarrow> reachable_headers table h'"
| parse: "reachable_headers table h \<Longrightarrow> reachable_headers table (snd (headers_tryParse table content h))"
| parse_request: "reachable_headers table h \<Longrightarrow> reachable_headers table (snd (tryParseRequest table content h))"
| parse_response: "reachable_headers table h \<Longrightarrow> reachable_headers table (snd (tryParseResponse table content h))"

lemma safe_tryParseRequestOrConnect:
  assumes "table_ok table" and "headers_safe table h"
  shows "headers_safe table (snd (tryParseRequestOrConnect table content h))"
  using assms(2) safe_parse [OF assms]
  by (auto simp: tryParseRequestOrConnect_def split: option.splits prod.splits)

lemma safe_tryParseResponse:
  assumes "table_ok table" and "headers_safe table h"
  shows "headers_safe table (snd (tryParseResponse table content h))"
  using assms(2) safe_parse [OF assms]
  by (auto simp: tryParseResponse_def Let_def split: option.splits prod.splits)

lemma safe_tryParseRequest:
  assumes "table_ok table" and "headers_safe table h"
  shows "headers_safe table (snd (tryParseRequest table content h))"
  using safe_tryParseRequestOrConnect [OF assms, of content]
  by (auto simp: tryParseRequest_def split: prod.splits sum.splits request.splits)

lemma reachable_safe:
  assumes "table_ok table" and "reachable_headers table h"
  shows "headers_safe table h"
  using assms(2)
proof induction
  case (parse h content)
  then show ?case using safe_parseHeaders [OF assms(1)] by (auto simp: headers_tryParse_def split: option.splits)
qed (auto intro: safe_new safe_clear safe_unset safe_set safe_add safe_tryParseRequest safe_tryParseResponse assms(1))

section \<open>The lines of a message\<close>

fun lines_of :: "string \<Rightarrow> string list" where
  "lines_of [] = [[]]"
| "lines_of (c # p) =
     (if c = CR \<and> peek p = LF \<and> p \<noteq> [] then [] # lines_of (tl p)
      else (case lines_of p of line # lines \<Rightarrow> (c # line) # lines | [] \<Rightarrow> [[c]]))"

lemma lines_of_line: "safeValue l \<Longrightarrow> lines_of (l @ CR # LF # r) = l # lines_of r"
  by (induction l) auto

definition line_of :: "string \<times> string \<Rightarrow> string" where
  "line_of h = fst h @ '': '' @ snd h"

lemma serialize_pairs:
  "serialize table w1 w2 w3 [] h =
   (if w1 \<noteq> [] then w1 @ '' '' @ w2 @ '' '' @ w3 @ CRLF else []) @
   concat (map (\<lambda>p. line_of p @ CRLF) (headers_forEach table h)) @ CRLF"
proof -
  have "concat (map (\<lambda>i. if indexedHeaders h ! i \<noteq> [] then headerLine (idToString table i) (indexedHeaders h ! i) else []) is) =
      concat (map (\<lambda>p. line_of p @ CRLF) (map (\<lambda>i. (idToString table i, indexedHeaders h ! i))
        (filter (\<lambda>i. indexedHeaders h ! i \<noteq> []) is)))" for "is"
    by (induction "is") (simp_all add: headerLine_def line_of_def)
  moreover have "concat (map (\<lambda>(name, value). headerLine name value) ps) = concat (map (\<lambda>p. line_of p @ CRLF) ps)" for ps
    by (induction ps) (auto simp: headerLine_def line_of_def)
  ultimately show ?thesis by (simp add: serialize_def headers_forEach_def Let_def)
qed

lemma safe_pairs:
  assumes "table_ok table" and "headers_safe table h"
  shows "list_all (\<lambda>(n, v). isValidHeaderName n \<and> safeValue v) (headers_forEach table h)"
  using assms by (auto simp: headers_safe_def headers_forEach_def list_all_iff table_ok_def idCount_def idToString_def)

lemma lines_of_pairs:
  assumes "list_all (\<lambda>(n, v). isValidHeaderName n \<and> safeValue v) ps"
  shows "lines_of (concat (map (\<lambda>p. line_of p @ CRLF) ps) @ CRLF) = map line_of ps @ [[], []]"
  using assms
proof (induction ps)
  case (Cons p ps)
  have "safeValue (line_of p)" using Cons.prems by (auto simp: line_of_def dest: safeName)
  then show ?case using Cons by (simp add: lines_of_line)
qed simp

section \<open>Header lines\<close>

text \<open>The connection level headers take the place of the indexed headers with the same numbers.\<close>

definition with_connection :: "string list \<Rightarrow> HttpHeaders \<Rightarrow> HttpHeaders" where
  "with_connection cs h = h\<lparr>indexedHeaders := cs @ drop (length cs) (indexedHeaders h)\<rparr>"

lemma serialize_connection:
  assumes "length cs \<le> length (indexedHeaders h)"
  shows "serialize table w1 w2 w3 cs h = serialize table w1 w2 w3 [] (with_connection cs h)"
proof -
  have "(if i < length cs then cs ! i else indexedHeaders h ! i) = (cs @ drop (length cs) (indexedHeaders h)) ! i"
    if "i < length (indexedHeaders h)" for i
    using that assms by (auto simp: nth_append)
  then have "concat (map (\<lambda>i. let v = (if i < length cs then cs ! i else indexedHeaders h ! i) in
        if v \<noteq> [] then headerLine (idToString table i) v else []) [0..<length (indexedHeaders h)]) =
      concat (map (\<lambda>i. let v = (cs @ drop (length cs) (indexedHeaders h)) ! i in
        if v \<noteq> [] then headerLine (idToString table i) v else []) [0..<length (indexedHeaders h)])"
    by (intro arg_cong [where f = concat] map_cong) simp_all
  then show ?thesis using assms by (simp add: serialize_def with_connection_def)
qed

lemma safe_with_connection:
  assumes "headers_safe table h" and "list_all safeValue cs" and "length cs \<le> idCount table"
  shows "headers_safe table (with_connection cs h)"
  using assms by (auto simp: headers_safe_def with_connection_def list_all_iff dest: in_set_dropD)

lemma lines_of_message:
  assumes "table_ok table" and "headers_safe table h" and "list_all safeValue cs" and "length cs \<le> idCount table"
    and "w1 \<noteq> []" and "safeValue w1" and "safeValue w2" and "safeValue w3"
  shows "lines_of (serialize table w1 w2 w3 cs h) =
    (w1 @ '' '' @ w2 @ '' '' @ w3) # map line_of (headers_forEach table (with_connection cs h)) @ [[], []]"
proof -
  have l: "length cs \<le> length (indexedHeaders h)" using assms(2,4) by (simp add: headers_safe_def)
  have first: "safeValue (w1 @ '' '' @ w2 @ '' '' @ w3)" using assms(6,7,8) by simp
  from lines_of_line [OF this] show ?thesis
    using lines_of_pairs [OF safe_pairs [OF assms(1) safe_with_connection [OF assms(2,3,4)]]] assms(5)
    by (simp add: serialize_connection [OF l] serialize_pairs)
qed

lemma lines_of_headers:
  assumes "table_ok table" and "headers_safe table h"
  shows "lines_of (headers_toString table h) = map line_of (headers_forEach table h) @ [[], []]"
  using lines_of_pairs [OF safe_pairs [OF assms]] by (simp add: headers_toString_def serialize_pairs)

lemma method_name_safe: "safeValue (method_name m)" "method_name m \<noteq> []"
  by (cases m; simp)+

lemma decimal_text_digits: "decimal_text code = map decimalChar (rev (digitLoop 10 (unat code)))"
proof -
  have "inType \<lparr>bytes_of = 4, is_signed = False\<rparr> (uint code)"
    using uint_lt2p [of code] by (simp add: inType_def minValue_def maxValue_def bits_of_def)
  then show ?thesis unfolding decimal_text_def by (subst stringify_digits) (simp_all add: supported_def)
qed

lemma number_safe: "safeValue (decimal_text code)"
proof -
  define ds where "ds = rev (digitLoop 10 (unat code))"
  have d: "\<forall>d \<in> set ds. d < 10" using digitLoop_facts [of 10 "unat code"] by (simp add: ds_def)
  have all: "\<forall>d \<in> set [0..<10]. decimalChar d \<noteq> NUL \<and> decimalChar d \<noteq> CR \<and> decimalChar d \<noteq> LF"
    by (simp add: upt_rec decimalChar_def char_of_def bit_0)
  show ?thesis unfolding decimal_text_digits ds_def [symmetric] using d ball_upt [OF all] by (induction ds) simp_all
qed


definition example_headers :: HttpHeaders where
  "example_headers = addNoCheck HttpHeaderTable_new ''X-A'' ''b: c'' (HttpHeaders_new HttpHeaderTable_new)"

lemma example_unknown: "stringToId HttpHeaderTable_new ''X-A'' = None"
proof -
  have "list_all (\<lambda>n. length n \<noteq> 3) BUILTIN_HEADER_NAMES" by (simp add: BUILTIN_HEADER_NAMES_def)
  then have "\<not> (i < idCount HttpHeaderTable_new \<and> sameName (idToString HttpHeaderTable_new i) ''X-A'')" for i
    by (auto simp: sameName_def idCount_def idToString_def HttpHeaderTable_new_def list_all_length dest!: map_eq_imp_length_eq)
  then have "stringToId HttpHeaderTable_new ''X-A'' \<noteq> Some i" for i
    using stringToId_iff [OF builtin_ok header_chars(2)] by simp
  then show ?thesis by (cases "stringToId HttpHeaderTable_new ''X-A''") auto
qed

lemma builtin_count: "idCount HttpHeaderTable_new = 17"
  by (simp add: idCount_def HttpHeaderTable_new_def BUILTIN_HEADER_NAMES_def)

lemma example_fields:
  "indexedHeaders example_headers = replicate 17 []" "unindexedHeaders example_headers = [(''X-A'', ''b: c'')]"
  by (simp_all add: example_headers_def addNoCheck_def example_unknown HttpHeaders_new_def builtin_count)

lemma example_reachable: "reachable_headers HttpHeaderTable_new example_headers"
proof (rule reachable_headers.add [OF reachable_headers.new])
  show "headers_add HttpHeaderTable_new ''X-A'' ''b: c'' (HttpHeaders_new HttpHeaderTable_new) = Inr example_headers"
    using header_chars(2) by (simp add: headers_add_def isValidHeaderValue_def example_headers_def)
qed

lemma example_forEach: "headers_forEach HttpHeaderTable_new example_headers = [(''X-A'', ''b: c'')]"
proof -
  have "filter (\<lambda>i. replicate 17 ([] :: string) ! i \<noteq> []) [0..<17] = []" by (auto simp: filter_empty_conv)
  then show ?thesis by (simp add: headers_forEach_def example_fields)
qed


end
