(* ===== verification/Http_Message.thy ===== *)
theory Http_Message
  imports Http_Headers
begin

text \<open>Messages are read back as they were written: the parsers of http.cc give the first line and the headers from
  which a request or response was serialized.\<close>

section \<open>Round trips\<close>

definition noLeadingBlank :: "string \<Rightarrow> bool" where
  "noLeadingBlank v \<longleftrightarrow> peek v \<noteq> SP \<and> peek v \<noteq> TAB"

text \<open>Headers that are read back as they are: values do not begin with blanks, and a header that is not
  indexed has a name that the table does not know, or is one more \<open>Set-Cookie\<close>.\<close>

definition headers_plain :: "HttpHeaderTable \<Rightarrow> HttpHeaders \<Rightarrow> bool" where
  "headers_plain table h \<longleftrightarrow>
     headers_safe table h \<and> list_all noLeadingBlank (indexedHeaders h) \<and>
     list_all (\<lambda>(n, v). n \<noteq> [] \<and> noLeadingBlank v \<and>
       (case stringToId table n of
          None \<Rightarrow> True
        | Some i \<Rightarrow> strcaseeq n ''set-cookie'' \<and> indexedHeaders h ! i \<noteq> [])) (unindexedHeaders h)"

definition plainPair :: "string \<times> string \<Rightarrow> bool" where
  "plainPair p \<longleftrightarrow> isValidHeaderName (fst p) \<and> fst p \<noteq> [] \<and> safeValue (snd p) \<and> noLeadingBlank (snd p)"

fun linesText :: "(string \<times> string) list \<Rightarrow> string" where
  "linesText [] = []"
| "linesText (p # ps) = line_of p @ (if ps = [] then [] else CRLF @ linesText ps)"

lemma linesText_CRLF:
  "concat (map (\<lambda>p. line_of p @ CRLF) ps) = (if ps = [] then [] else linesText ps @ CRLF)"
  by (induction ps) auto

lemma skipSpace_id: "noLeadingBlank v \<Longrightarrow> skipSpace v = v"
  by (cases v) (simp_all add: noLeadingBlank_def)

lemma skipSpace_noLeadingBlank [simp]: "noLeadingBlank (skipSpace v)"
  by (induction v) (simp_all add: noLeadingBlank_def)

lemma lineLoop_end: "safeValue v \<Longrightarrow> lineLoop v = (v, [])"
  by (induction v) simp_all

lemma lineLoop_line: "safeValue v \<Longrightarrow> noLeadingBlank r \<Longrightarrow> lineLoop (v @ CR # LF # r) = (v, r)"
  by (induction v) (simp_all add: noLeadingBlank_def)

lemma name_first:
  assumes "isValidHeaderName n" and "n \<noteq> []"
  shows "noLeadingBlank (n @ r)" "peek (n @ r) \<noteq> NUL"
  using assms by (cases n; auto simp: noLeadingBlank_def isValidHeaderName_def dest: name_chars)+

lemma linesText_first: "plainPair p \<Longrightarrow> noLeadingBlank (linesText (p # ps)) \<and> peek (linesText (p # ps)) \<noteq> NUL"
  using name_first [of "fst p"] by (simp add: plainPair_def line_of_def)

lemma colon_not_name: "\<not> contains HTTP_HEADER_NAME_CHARS (CHR '':'')"
  using name_chars(6) by blast

lemma consumeHeaderName_line:
  assumes "isValidHeaderName n" and "n \<noteq> []"
  shows "consumeHeaderName (n @ '': '' @ r) = Some (n, skipSpace r)"
  using assms colon_not_name by (simp add: consumeHeaderName_def isValidHeaderName_def list_all_iff Let_def)

lemma parse_lines:
  assumes "list_all plainPair ps"
  shows "parseHeaders table (linesText ps) h = (True, fold (\<lambda>(n, v). addNoCheck table n v) ps h)"
  using assms
proof (induction ps arbitrary: h)
  case Nil
  then show ?case by (simp add: parseHeaders.simps)
next
  case (Cons p ps)
  obtain n v where p: "p = (n, v)" by force
  define tail where "tail = (if ps = [] then [] else CRLF @ linesText ps)"
  note all = Cons.prems and IH = Cons.IH
  have v: "plainPair p" "isValidHeaderName n" "n \<noteq> []" "safeValue v" "noLeadingBlank v"
    using Cons.prems by (simp_all add: p plainPair_def)
  have lt: "linesText (p # ps) = n @ '': '' @ v @ tail" by (simp add: p line_of_def tail_def)
  have "noLeadingBlank (v @ tail)"
    using v(5) by (cases v) (simp_all add: noLeadingBlank_def tail_def)
  moreover have "lineLoop (v @ tail) = (v, linesText ps)"
  proof (cases ps)
    case Nil
    then show ?thesis using lineLoop_end [OF v(4)] by (simp add: tail_def)
  next
    case (Cons q qs)
    then have "noLeadingBlank (linesText ps)" using linesText_first [of q qs] all by simp
    then show ?thesis using Cons lineLoop_line [OF v(4)] by (simp add: tail_def)
  qed
  ultimately have "consumeLine (skipSpace (v @ tail)) = (v, linesText ps)"
    by (simp add: consumeLine_def skipSpace_id)
  moreover have "peek (linesText (p # ps)) \<noteq> NUL" using linesText_first [OF v(1)] by blast
  moreover have "consumeHeaderName (linesText (p # ps)) = Some (n, skipSpace (v @ tail))"
    unfolding lt using consumeHeaderName_line [OF v(2,3)] by simp
  ultimately have "parseHeaders table (linesText (p # ps)) h = parseHeaders table (linesText ps) (addNoCheck table n v h)"
    by (subst parseHeaders.simps) (simp del: linesText.simps)
  then show ?case using all IH by (simp add: p del: linesText.simps)
qed

subsection \<open>Reading the headers back\<close>

lemma stringToId_idToString:
  assumes "table_ok table" and "i < idCount table"
  shows "stringToId table (idToString table i) = Some i"
proof -
  have "isValidHeaderName (idToString table i)"
    using assms by (simp add: table_ok_def list_all_length idCount_def idToString_def)
  then show ?thesis using assms by (simp add: stringToId_iff sameName_def)
qed

lemma fold_indexed:
  assumes "table_ok table" and "length vs = idCount table" and "k \<le> idCount table"
  shows "fold (\<lambda>(n, v). addNoCheck table n v)
      (map (\<lambda>i. (idToString table i, vs ! i)) (filter (\<lambda>i. vs ! i \<noteq> []) [0..<k])) (HttpHeaders_new table) =
    \<lparr>indexedHeaders = take k vs @ replicate (idCount table - k) [], unindexedHeaders = []\<rparr>"
  using assms(3)
proof (induction k)
  case 0
  then show ?case by (simp add: HttpHeaders_new_def)
next
  case (Suc k)
  let ?h = "\<lparr>indexedHeaders = take k vs @ replicate (idCount table - k) [], unindexedHeaders = []\<rparr>"
  have k: "k < length vs" "k < idCount table" using Suc.prems assms(2) by simp_all
  have free: "indexedHeaders ?h ! k = []" using k by (simp add: nth_append)
  have next_k: "take k vs @ replicate (idCount table - k) [] = take k vs @ [] # replicate (idCount table - Suc k) []"
    using k(2) by (metis Suc_diff_Suc replicate_Suc)
  have "(take k vs @ replicate (idCount table - k) [])[k := vs ! k] = take (Suc k) vs @ replicate (idCount table - Suc k) []"
    unfolding next_k using k(1) by (simp add: list_update_append take_Suc_conv_app_nth)
  moreover have "take (Suc k) vs @ replicate (idCount table - Suc k) [] = take k vs @ replicate (idCount table - k) []"
    if "vs ! k = []"
    unfolding next_k using k(1) that by (simp add: take_Suc_conv_app_nth)
  ultimately show ?case
    using Suc k free stringToId_idToString [OF assms(1) k(2)] by (simp add: addNoCheck_def)
qed

lemma fold_unindexed:
  assumes "list_all (\<lambda>(n, v). case stringToId table n of None \<Rightarrow> True
      | Some i \<Rightarrow> strcaseeq n ''set-cookie'' \<and> vs ! i \<noteq> []) ps"
  shows "fold (\<lambda>(n, v). addNoCheck table n v) ps \<lparr>indexedHeaders = vs, unindexedHeaders = us\<rparr> =
    \<lparr>indexedHeaders = vs, unindexedHeaders = us @ ps\<rparr>"
  using assms
proof (induction ps arbitrary: us)
  case (Cons p ps)
  obtain n v where p: "p = (n, v)" by force
  have "addNoCheck table n v \<lparr>indexedHeaders = vs, unindexedHeaders = us\<rparr> =
      \<lparr>indexedHeaders = vs, unindexedHeaders = us @ [p]\<rparr>"
    using Cons.prems by (auto simp: p addNoCheck_def split: option.splits)
  then show ?case using Cons by (simp add: p)
qed simp

lemma fold_headers:
  assumes "table_ok table" and "headers_plain table h"
  shows "fold (\<lambda>(n, v). addNoCheck table n v) (headers_forEach table h) (HttpHeaders_new table) = h"
proof -
  have l: "length (indexedHeaders h) = idCount table" using assms(2) by (simp add: headers_plain_def headers_safe_def)
  have "list_all (\<lambda>(n, v). case stringToId table n of None \<Rightarrow> True
      | Some i \<Rightarrow> strcaseeq n ''set-cookie'' \<and> indexedHeaders h ! i \<noteq> []) (unindexedHeaders h)"
    using assms(2) by (auto simp: headers_plain_def list_all_iff)
  from fold_unindexed [OF this, of "[]"] show ?thesis
    using fold_indexed [OF assms(1) l, of "idCount table"] l by (simp add: headers_forEach_def)
qed

lemma plain_pairs:
  assumes "table_ok table" and "headers_plain table h" and "list_all (\<lambda>n. n \<noteq> []) (namesById table)"
  shows "list_all plainPair (headers_forEach table h)"
proof -
  have "list_all (\<lambda>(n, v). isValidHeaderName n \<and> safeValue v) (headers_forEach table h)"
    using safe_pairs [OF assms(1), of h] assms(2) by (simp add: headers_plain_def)
  moreover have "list_all (\<lambda>(n, v). n \<noteq> [] \<and> noLeadingBlank v) (headers_forEach table h)"
    using assms(2,3)
    by (auto simp: headers_plain_def list_all_iff headers_forEach_def headers_safe_def idCount_def idToString_def)
  ultimately show ?thesis by (auto simp: list_all_iff plainPair_def)
qed

lemma trim_text:
  assumes "t @ CRLF = content" and "t \<noteq> []"
  shows "trimHeaderEnding content = Some t"
  using assms by (auto simp: trimHeaderEnding_def butlast_append simp flip: assms(1))

lemma wordLoop_word:
  assumes "list_all (\<lambda>c. c \<notin> {NUL, SP, TAB, CR, LF}) w"
  shows "wordLoop (w @ SP # r) = Some (w, r)"
  using assms by (induction w) simp_all

definition isWord :: "string \<Rightarrow> bool" where
  "isWord w \<longleftrightarrow> w \<noteq> [] \<and> list_all (\<lambda>c. c \<notin> {NUL, SP, TAB, CR, LF}) w"

lemma consumeWord_word: "isWord w \<Longrightarrow> consumeWord (w @ SP # r) = Some (w, r)"
proof -
  assume w: "isWord w"
  then have "noLeadingBlank (w @ SP # r)" by (cases w) (simp_all add: isWord_def noLeadingBlank_def)
  then show ?thesis using w wordLoop_word [of w r] by (simp add: consumeWord_def skipSpace_id isWord_def)
qed

text \<open>The text of a message without its last line break, as it is handed to the parser.\<close>

lemma message_text:
  assumes "w1 \<noteq> []" and "serialize table w1 w2 w3 [] h = content @ CRLF"
  shows "content = w1 @ SP # w2 @ SP # w3 @ CRLF @ concat (map (\<lambda>p. line_of p @ CRLF) (headers_forEach table h))"
  using assms by (simp add: serialize_pairs)

definition firstLine_text :: "string \<Rightarrow> (string \<times> string) list \<Rightarrow> string" where
  "firstLine_text rest ps = rest @ (if ps = [] then [] else CRLF @ linesText ps)"

lemma first_line:
  assumes "safeValue rest" and "noLeadingBlank rest" and "list_all plainPair ps"
  shows "consumeLine (firstLine_text rest ps) = (rest, linesText ps)"
proof (cases ps)
  case Nil
  then show ?thesis using assms by (simp add: firstLine_text_def consumeLine_def skipSpace_id lineLoop_end)
next
  case (Cons p qs)
  have "noLeadingBlank (rest @ CRLF @ linesText ps)" using assms(2) by (cases rest) (simp_all add: noLeadingBlank_def)
  moreover have "noLeadingBlank (linesText ps)" using linesText_first [of p qs] assms(3) Cons by simp
  ultimately show ?thesis using lineLoop_line [OF assms(1)] Cons
    by (simp add: firstLine_text_def consumeLine_def skipSpace_id del: linesText.simps)
qed

lemma trimmed_message:
  assumes "w1 \<noteq> []" and "serialize table w1 w2 w3 [] h = content @ CRLF"
  shows "trimHeaderEnding content = Some (w1 @ SP # w2 @ SP # firstLine_text w3 (headers_forEach table h))"
proof (rule trim_text)
  show "(w1 @ SP # w2 @ SP # firstLine_text w3 (headers_forEach table h)) @ CRLF = content"
    unfolding message_text [OF assms] linesText_CRLF by (simp add: firstLine_text_def)
qed (use assms(1) in simp)

definition namesNonempty :: "HttpHeaderTable \<Rightarrow> bool" where
  "namesNonempty table \<longleftrightarrow> list_all (\<lambda>n. n \<noteq> []) (namesById table)"

lemma request_parsed:
  assumes "table_ok table" and "namesNonempty table" and "headers_plain table h" and "isWord url"
    and "serialize table (any_method_name m) url ''HTTP/1.1'' [] h = content @ CRLF"
  shows "tryParseRequestOrConnect table content (HttpHeaders_new table) =
    (Inr (case m of Method k \<Rightarrow> Request k url | ConnectMethod \<Rightarrow> ConnectRequest url), h)"
proof -
  have name: "any_method_name m \<noteq> []" by (cases m rule: any_method_name.cases) (auto elim: method_name.elims)
  note pairs = plain_pairs [OF assms(1,3) assms(2) [unfolded namesNonempty_def]]
  have "consumeLine (firstLine_text ''HTTP/1.1'' (headers_forEach table h)) =
      (''HTTP/1.1'', linesText (headers_forEach table h))"
    by (rule first_line [OF _ _ pairs]) (simp_all add: noLeadingBlank_def)
  then show ?thesis
    using trimmed_message [OF name assms(5)] consume_name [of m] consumeWord_word [OF assms(4)]
      parse_lines [OF pairs, of table "HttpHeaders_new table"] fold_headers [OF assms(1,3)]
    by (simp add: tryParseRequestOrConnect_def)
qed

text \<open>The status code is read back from its digits.\<close>

lemma numberLoop_digits:
  assumes "\<forall>d \<in> set ds. d < 10" and "\<not> (CHR ''0'' \<le> c \<and> c \<le> CHR ''9'')"
  shows "numberLoop (word_of_nat k) (map decimalChar ds @ c # r) =
    (word_of_nat (foldl (\<lambda>n d. n * 10 + d) k ds), c # r)"
  using assms
proof (induction ds arbitrary: k)
  case (Cons d ds)
  have d: "d < 10" using Cons.prems(1) by simp
  have "\<forall>d \<in> set [0..<10]. CHR ''0'' \<le> decimalChar d \<and> decimalChar d \<le> CHR ''9'' \<and> of_char (decimalChar d) - 48 = d"
    by (simp add: upt_rec decimalChar_def less_eq_char_def)
  from ball_upt [OF this d]
  have c: "CHR ''0'' \<le> decimalChar d" "decimalChar d \<le> CHR ''9''" "of_char (decimalChar d) - 48 = d" by simp_all
  have "(word_of_nat k * 10 + word_of_nat d :: uint32) = word_of_nat (k * 10 + d)" by simp
  then show ?case using Cons.IH [of "k * 10 + d"] Cons.prems c by simp
qed auto


lemma consumeNumber_code:
  fixes code :: uint32
  shows "consumeNumber (decimal_text code @ SP # r) = Some (code, SP # r)"
proof -
  define ds where "ds = rev (digitLoop 10 (unat code))"
  have ds: "ds \<noteq> []" "\<forall>d \<in> set ds. d < 10" "foldl (\<lambda>n d. n * 10 + d) 0 ds = unat code"
    using digitLoop_facts [of 10 "unat code"] by (simp_all add: ds_def)
  note s = decimal_text_digits [of code, folded ds_def]
  obtain d ds' where e: "ds = d # ds'" "d < 10" using ds(1,2) by (cases ds) auto
  have "\<forall>d \<in> set [0..<10]. decimalChar d \<noteq> SP \<and> decimalChar d \<noteq> TAB"
    by (simp add: upt_rec decimalChar_def char_of_def bit_0)
  from ball_upt [OF this e(2)] have "skipSpace (map decimalChar ds @ SP # r) = map decimalChar ds @ SP # r"
    by (simp add: e)
  moreover have "numberLoop 0 (map decimalChar ds @ SP # r) = (code, SP # r)"
    using numberLoop_digits [OF ds(2), of SP 0 r] ds(3) by (simp add: less_eq_char_def)
  ultimately show ?thesis using e by (simp add: consumeNumber_def s)
qed

lemma response_parsed:
  assumes "table_ok table" and "namesNonempty table" and "headers_plain table h"
    and "safeValue statusText" and "noLeadingBlank statusText"
    and "serializeResponse table code statusText [] h = content @ CRLF"
  shows "tryParseResponse table content (HttpHeaders_new table) = (Inr (Response code statusText), h)"
proof -
  note pairs = plain_pairs [OF assms(1,3) assms(2) [unfolded namesNonempty_def]]
  define number where "number = decimal_text code"
  have trimmed: "trimHeaderEnding content = Some (''HTTP/1.1'' @ SP # number @ SP # firstLine_text statusText (headers_forEach table h))"
    by (rule trimmed_message) (use assms(6) in \<open>simp_all add: serializeResponse_def number_def\<close>)
  have "consumeWord (''HTTP/1.1'' @ SP # r) = Some (''HTTP/1.1'', r)" for r
    by (rule consumeWord_word) (simp add: isWord_def)
  moreover have "consumeNumber (number @ SP # r) = Some (code, SP # r)" for r
    unfolding number_def by (rule consumeNumber_code)
  moreover have "consumeLine (SP # firstLine_text statusText (headers_forEach table h)) =
      (statusText, linesText (headers_forEach table h))"
    using first_line [OF assms(4,5) pairs] by (simp add: consumeLine_def)
  moreover have "startsWithChars ''HTTP/1.1'' ''HTTP/''" by (simp add: startsWithChars_def)
  ultimately show ?thesis
    using trimmed parse_lines [OF pairs, of table "HttpHeaders_new table"] fold_headers [OF assms(1,3)]
    by (simp add: tryParseResponse_def Let_def del: append_Cons)
qed

text \<open>C40. A message that was written is read back with its first line and its headers, the connection level headers in
  their place. Its text ends before the empty line.\<close>

theorem message_roundtrip:
  assumes "built_table table" and "namesNonempty table" and "headers_plain table (with_connection cs h)"
    and "length cs \<le> length (indexedHeaders h)" and "isWord url" and "isValidHeaderValue status" and "noLeadingBlank status"
    and "request = serializeRequest table m url cs h" and "connect = serializeConnectRequest table url cs h"
    and "response = serializeResponse table code status cs h"
  shows "tryParseRequest table (butlast (butlast request)) (HttpHeaders_new table) = (Inr (Request m url), with_connection cs h) \<and>
    tryParseRequestOrConnect table (butlast (butlast connect)) (HttpHeaders_new table) =
      (Inr (ConnectRequest url), with_connection cs h) \<and>
    tryParseResponse table (butlast (butlast response)) (HttpHeaders_new table) =
      (Inr (Response code status), with_connection cs h)"
proof -
  note ok = built_table_ok [OF assms(1)]
  note request = request_parsed [OF ok assms(2,3)] and response = response_parsed [OF ok assms(2,3)]
  have flat: "serialize table w1 w2 w3 [] (with_connection cs h) = butlast (butlast (serialize table w1 w2 w3 cs h)) @ CRLF"
    for w1 w2 w3
    unfolding serialize_connection [OF assms(4)] by (simp add: serialize_def butlast_append)
  have status: "safeValue status" using assms(6) by (simp add: isValidHeaderValue_iff)
  show ?thesis
    using request [of url "Method m"] request [of url ConnectMethod] response [of status code] assms(5,7) status
    unfolding assms(8,9,10)
    by (simp add: tryParseRequest_def serializeRequest_def serializeConnectRequest_def serializeResponse_def flat)
qed

lemma builtin_nonempty: "namesNonempty HttpHeaderTable_new"
  by (simp add: namesNonempty_def HttpHeaderTable_new_def BUILTIN_HEADER_NAMES_def)

lemma example_plain: "headers_plain HttpHeaderTable_new example_headers"
  using reachable_safe [OF builtin_ok example_reachable]
  by (simp add: headers_plain_def example_fields example_unknown noLeadingBlank_def list_all_length)

theorem message_roundtrip_witness:
  "tryParseRequest HttpHeaderTable_new (''GET / HTTP/1.1'' @ CRLF @ ''X-A: b: c'' @ CRLF) (HttpHeaders_new HttpHeaderTable_new) =
   (Inr (Request GET ''/''), example_headers)"
proof -
  have c: "with_connection [] example_headers = example_headers" by (simp add: with_connection_def)
  have facts: "isWord ''/''" "isValidHeaderValue ''OK''" "noLeadingBlank ''OK''"
    by (simp_all add: isWord_def isValidHeaderValue_def noLeadingBlank_def)
  have "serializeRequest HttpHeaderTable_new GET ''/'' [] example_headers = (''GET / HTTP/1.1'' @ CRLF @ ''X-A: b: c'' @ CRLF) @ CRLF"
    by (simp add: serializeRequest_def serialize_pairs example_forEach line_of_def)
  then show ?thesis
    using message_roundtrip [OF built_table.builtin builtin_nonempty _ _ facts refl refl refl, of "[]" example_headers GET]
      example_plain
    by (simp add: c)
qed

end
