(* ===== verification/Http_Input.thy ===== *)
theory Http_Input
  imports Http_Message Async_Stream
begin

text \<open>The reading side of an HTTP/1 connection: \<open>HttpInputStreamImpl\<close> of http.cc with its buffer, the readers of
  entity bodies (\<open>HttpEntityBodyReader\<close> and its subclasses), and \<open>getEntityBody\<close>, which chooses between them.\<close>

section \<open>The state\<close>

text \<open>The promises of the stream appear as what is waited for: \<open>onMessageDone\<close> says whether a message is being
  read, and \<open>messageReadQueue\<close> is ready when it is not. \<open>leftover\<close> is a part of \<open>headerBuffer\<close>, given by its
  two ends, and null when it is empty.\<close>

record HttpInput =
  inner :: "char list list"
  headerBuffer :: "char list"
  messageHeaderEnd :: nat
  leftoverStart :: nat
  leftoverEnd :: nat
  lineBreakBeforeNextHeader :: bool
  broken :: bool
  pendingMessageCount :: nat
  onMessageDone :: bool

definition MIN_BUFFER :: nat where "MIN_BUFFER = 4096"
definition MAX_BUFFER :: nat where "MAX_BUFFER = 128 * 1024"
definition MAX_CHUNK_HEADER_SIZE :: nat where "MAX_CHUNK_HEADER_SIZE = 32"

text \<open>A promise of the stream; a protocol error is the answer to the peer.\<close>

type_synonym 'a http = "(http_error, 'a) awaited"

text \<open>A fresh array holds \<open>fresh i\<close> at position \<open>i\<close>.\<close>

definition newHttpInput :: "(nat \<Rightarrow> char) \<Rightarrow> char list list \<Rightarrow> HttpInput" where
  "newHttpInput fresh chunks =
     \<lparr>inner = chunks, headerBuffer = map fresh [0..<MIN_BUFFER], messageHeaderEnd = 0, leftoverStart = 0, leftoverEnd = 0,
      lineBreakBeforeNextHeader = False, broken = False, pendingMessageCount = 0, onMessageDone = False\<rparr>"

definition canReuse :: "HttpInput \<Rightarrow> bool" where
  "canReuse s \<longleftrightarrow> \<not> broken s \<and> pendingMessageCount s = 0"

text \<open>Both are called by the reader of a body only, while its message is being read.\<close>

definition finishRead :: "HttpInput \<Rightarrow> HttpInput" where
  "finishRead s = s\<lparr>onMessageDone := False, pendingMessageCount := pendingMessageCount s - 1\<rparr>"

definition abortRead :: "HttpInput \<Rightarrow> HttpInput" where
  "abortRead s = s\<lparr>onMessageDone := False, broken := True\<rparr>"

definition leftover :: "HttpInput \<Rightarrow> char list" where
  "leftover s = subarray (leftoverStart s) (leftoverEnd s) (headerBuffer s)"

section \<open>Reading a header\<close>

datatype HeaderType = MESSAGE | CHUNK

definition growBuffer :: "(nat \<Rightarrow> char) \<Rightarrow> char list \<Rightarrow> char list" where
  "growBuffer fresh b = b @ map fresh [length b..<2 * length b]"

definition makeRoom :: "(nat \<Rightarrow> char) \<Rightarrow> HeaderType \<Rightarrow> nat \<Rightarrow> nat \<Rightarrow> HttpInput \<Rightarrow> (nat \<times> nat) http \<times> HttpInput" where
  "makeRoom fresh type bufferStart bufferEnd s =
     (if bufferEnd \<noteq> length (headerBuffer s) then (Ready (bufferStart, bufferEnd), s)
      else
      let minStart = (if type = MESSAGE then 0 else messageHeaderEnd s) in
      if minStart < bufferStart then
        (Ready (minStart, bufferEnd - bufferStart + minStart),
         s\<lparr>headerBuffer := overwrite (headerBuffer s) minStart (subarray bufferStart bufferEnd (headerBuffer s))\<rparr>)
      else if type \<noteq> MESSAGE then (Threw ''invalid HTTP chunk size'', s)
      else if MAX_BUFFER \<le> length (headerBuffer s) then
        (Refused (http_error 431 ''Request Header Fields Too Large'' ''header too large.''), s)
      else (Ready (bufferStart, bufferEnd), s\<lparr>headerBuffer := growBuffer fresh (headerBuffer s)\<rparr>))"

definition fillBuffer :: "(nat \<Rightarrow> char) \<Rightarrow> HeaderType \<Rightarrow> nat \<Rightarrow> nat \<Rightarrow> HttpInput \<Rightarrow>
    (nat \<times> nat \<times> nat) http \<times> HttpInput" where
  "fillBuffer fresh type bufferStart bufferEnd s =
     (if leftoverStart s < leftoverEnd s then
        (if bufferStart \<noteq> bufferEnd then (Threw ''bufferStart == bufferEnd'', s)
         else (Ready (leftoverStart s, leftoverStart s, leftoverEnd s - leftoverStart s),
               s\<lparr>leftoverStart := 0, leftoverEnd := 0\<rparr>))
      else
      awaiting (makeRoom fresh type bufferStart bufferEnd s) (\<lambda>(bufferStart, bufferEnd) s.
        if type = CHUNK \<and> MAX_CHUNK_HEADER_SIZE < bufferEnd - bufferStart then (Threw ''invalid HTTP chunk size'', s)
        else
        let room = length (headerBuffer s) - bufferEnd;
            maxBytes = (if type = CHUNK then min room MAX_CHUNK_HEADER_SIZE else room);
            (got, rest) = tryRead 1 maxBytes (inner s)
        in if got = [] then (Threw ''stream disconnected prematurely'', s\<lparr>inner := rest\<rparr>)
           else (Ready (bufferStart, bufferEnd, length got),
                 s\<lparr>inner := rest, headerBuffer := overwrite (headerBuffer s) bufferEnd got\<rparr>)))"

text \<open>The line break that follows a chunk is cut off before the next header.\<close>

definition skipBreak :: "nat \<Rightarrow> nat \<Rightarrow> nat \<Rightarrow> HttpInput \<Rightarrow> nat \<times> nat \<times> nat \<times> HttpInput" where
  "skipBreak bufferStart bufferEnd amount s =
     (if \<not> lineBreakBeforeNextHeader s then (bufferStart, bufferEnd, amount, s)
      else
      let (bufferEnd, amount) =
            (if bufferEnd = bufferStart \<and> headerBuffer s ! bufferEnd = CR then (bufferEnd + 1, amount - 1)
             else (bufferEnd, amount))
      in if 0 < amount \<and> headerBuffer s ! bufferEnd = LF then
           (bufferEnd + 1, bufferEnd + 1, amount - 1, s\<lparr>lineBreakBeforeNextHeader := False\<rparr>)
         else (bufferStart, bufferEnd, amount, s))"

definition memchr :: "char list \<Rightarrow> char \<Rightarrow> nat \<Rightarrow> nat \<Rightarrow> nat option" where
  "memchr b c pos newEnd = find (\<lambda>i. b ! i = c) [pos..<newEnd]"

definition isEnd :: "HeaderType \<Rightarrow> char list \<Rightarrow> nat \<Rightarrow> bool" where
  "isEnd type b nl \<longleftrightarrow>
     type = CHUNK \<or> 4 \<le> nl \<and> (b ! (nl - 1) = CR \<and> b ! (nl - 2) = LF \<or> b ! (nl - 1) = LF)"

lemma memchr_bounds: "memchr b c pos newEnd = Some nl \<Longrightarrow> pos \<le> nl \<and> nl < newEnd \<and> b ! nl = c"
  by (auto simp: memchr_def find_Some_iff)

function findEnd :: "HeaderType \<Rightarrow> char list \<Rightarrow> nat \<Rightarrow> nat \<Rightarrow> nat option" where
  "findEnd type b pos newEnd =
     (case memchr b LF pos newEnd of
        None \<Rightarrow> None
      | Some nl \<Rightarrow> if isEnd type b nl then Some nl else findEnd type b (nl + 1) newEnd)"
  by pat_completeness auto
termination by (relation "measure (\<lambda>(type, b, pos, newEnd). newEnd - pos)") (auto dest: memchr_bounds)

declare findEnd.simps [simp del]

definition finishHeader :: "(nat \<Rightarrow> char) \<Rightarrow> HeaderType \<Rightarrow> nat \<Rightarrow> nat \<Rightarrow> nat \<Rightarrow> HttpInput \<Rightarrow>
    string http \<times> HttpInput" where
  "finishHeader fresh type bufferStart nl newEnd s =
     (let b = headerBuffer s;
          endIndex = nl - (if 0 < nl \<and> b ! (nl - 1) = CR then 1 else 0);
          s = (if type = MESSAGE then
                 s\<lparr>headerBuffer := if length b - newEnd < MAX_CHUNK_HEADER_SIZE then growBuffer fresh b else b,
                   messageHeaderEnd := endIndex\<rparr>
               else s\<lparr>lineBreakBeforeNextHeader := True\<rparr>)
      in (if endIndex < bufferStart then Undefined else Ready (subarray bufferStart endIndex b),
          s\<lparr>leftoverStart := nl + 1, leftoverEnd := newEnd\<rparr>))"

definition unread :: "HttpInput \<Rightarrow> nat" where
  "unread s = length (concat (inner s)) + (if leftoverStart s < leftoverEnd s then 1 else 0)"

lemma fillBuffer_unread:
  assumes "fillBuffer fresh type bs be s = (Ready (bs', be', amount), s')"
  shows "unread s' < unread s"
proof (cases "leftoverStart s < leftoverEnd s")
  case True
  then show ?thesis using assms by (auto simp: fillBuffer_def unread_def split: if_splits)
next
  case False
  then obtain n got rest where r: "tryRead 1 n (inner s) = (got, rest)" "got \<noteq> []" "inner s' = rest"
    "\<not> leftoverStart s' < leftoverEnd s'"
    using assms by (auto simp: fillBuffer_def makeRoom_def Let_def awaiting_Ready split: if_splits prod.splits)
  from tryRead_append [OF r(1)] have "length (concat (inner s)) = length got + length (concat rest)"
    by (metis length_append)
  then show ?thesis using r False by (simp add: unread_def)
qed

lemma skipBreak_fields:
  assumes "skipBreak bs be amount s = (bs', be', amount', s')"
  shows "inner s' = inner s" "leftoverStart s' = leftoverStart s" "leftoverEnd s' = leftoverEnd s"
    "headerBuffer s' = headerBuffer s" "messageHeaderEnd s' = messageHeaderEnd s" "onMessageDone s' = onMessageDone s"
    "broken s' = broken s" "pendingMessageCount s' = pendingMessageCount s" "amount' \<le> amount" "be \<le> be'"
  using assms by (auto simp: skipBreak_def Let_def split: if_splits prod.splits)

lemma step_unread:
  assumes "fillBuffer fresh type bs be s = (Ready (bs1, be1, amount1), s1)"
    and "skipBreak bs1 be1 amount1 s1 = (bs2, be2, amount2, s2)"
  shows "unread s2 < unread s"
  using fillBuffer_unread [OF assms(1)] skipBreak_fields(1-3) [OF assms(2)] by (simp add: unread_def)

function readHeader :: "(nat \<Rightarrow> char) \<Rightarrow> HeaderType \<Rightarrow> nat \<Rightarrow> nat \<Rightarrow> HttpInput \<Rightarrow> string http \<times> HttpInput" where
  "readHeader fresh type bufferStart bufferEnd s =
     awaiting (fillBuffer fresh type bufferStart bufferEnd s) (\<lambda>filled s.
       case filled of (bufferStart, bufferEnd, amount) \<Rightarrow>
         (case skipBreak bufferStart bufferEnd amount s of
            (bufferStart, bufferEnd, amount, s) \<Rightarrow>
              if amount = 0 then readHeader fresh type bufferStart bufferEnd s
              else
                (case findEnd type (headerBuffer s) bufferEnd (bufferEnd + amount) of
                   None \<Rightarrow> readHeader fresh type bufferStart (bufferEnd + amount) s
                 | Some nl \<Rightarrow> finishHeader fresh type bufferStart nl (bufferEnd + amount) s)))"
  by pat_completeness auto
termination
  by (relation "measure (\<lambda>(fresh, type, bs, be, s). unread s)") (auto intro: step_unread sym)

declare readHeader.simps [simp del]

section \<open>What is left to read\<close>

definition available :: "HttpInput \<Rightarrow> nat" where
  "available s = length (concat (inner s)) + (leftoverEnd s - leftoverStart s)"

lemma fillBuffer_available:
  assumes "fillBuffer fresh type bs be s = (Ready (bs1, be1, amount), s1)"
  shows "0 < amount \<and> available s = amount + length (concat (inner s1)) \<and> leftoverEnd s1 \<le> leftoverStart s1"
proof (cases "leftoverStart s < leftoverEnd s")
  case True
  then show ?thesis using assms by (auto simp: fillBuffer_def available_def split: if_splits)
next
  case False
  then obtain n got rest where r: "tryRead 1 n (inner s) = (got, rest)" "got \<noteq> []" "inner s1 = rest" "amount = length got"
    "leftoverStart s1 = leftoverStart s" "leftoverEnd s1 = leftoverEnd s"
    using assms by (auto simp: fillBuffer_def makeRoom_def Let_def awaiting_Ready split: if_splits prod.splits)
  from tryRead_append [OF r(1)] have "length (concat (inner s)) = length got + length (concat rest)"
    by (metis length_append)
  then show ?thesis using r False by (simp add: available_def)
qed

lemma skipBreak_end: "skipBreak bs be amount s = (bs2, be2, amount2, s2) \<Longrightarrow> 0 < amount \<Longrightarrow> be2 + amount2 = be + amount"
  by (auto simp: skipBreak_def Let_def split: if_splits prod.splits)

lemma findEnd_bounds: "findEnd type b pos newEnd = Some nl \<Longrightarrow> pos \<le> nl \<and> nl < newEnd \<and> b ! nl = LF \<and> isEnd type b nl"
proof (induction type b pos newEnd rule: findEnd.induct)
  case (1 type b pos newEnd)
  then obtain k where k: "memchr b LF pos newEnd = Some k"
    by (auto simp: findEnd.simps [of type b pos] split: option.splits)
  show ?case
  proof (cases "isEnd type b k")
    case True
    then show ?thesis using 1(2) k memchr_bounds [OF k] by (simp add: findEnd.simps [of type b pos])
  next
    case False
    then show ?thesis using 1(1) [OF k False] 1(2) k memchr_bounds [OF k] by (simp add: findEnd.simps [of type b pos])
  qed
qed

lemma readHeader_available: "readHeader fresh type bs be s = (Ready text, s') \<Longrightarrow> available s' < available s"
proof (induction fresh type bs be s rule: readHeader.induct)
  case (1 fresh type bs be s)
  from 1(3) obtain bs1 be1 amount1 s1 where f: "fillBuffer fresh type bs be s = (Ready (bs1, be1, amount1), s1)"
    by (subst (asm) readHeader.simps) (auto simp: awaiting_Ready)
  obtain bs2 be2 amount2 s2 where k: "skipBreak bs1 be1 amount1 s1 = (bs2, be2, amount2, s2)" by (metis prod_cases4)
  note fa = fillBuffer_available [OF f] and kf = skipBreak_fields [OF k]
  have less: "available s2 < available s" using fa kf(1-3) by (simp add: available_def)
  show ?case
  proof (cases "amount2 = 0")
    case True
    then show ?thesis using 1(1) [OF f refl _ k [symmetric] refl refl] 1(3) f k less
      by (subst (asm) (2) readHeader.simps) simp
  next
    case False
    show ?thesis
    proof (cases "findEnd type (headerBuffer s2) be2 (be2 + amount2)")
      case None
      then show ?thesis using 1(2) [OF f refl _ k [symmetric] refl refl False None] 1(3) f k less False
        by (subst (asm) (2) readHeader.simps) simp
    next
      case (Some nl)
      then have "leftoverStart s' = nl + 1" "leftoverEnd s' = be2 + amount2" "inner s' = inner s2"
        using 1(3) f k False by (auto simp: readHeader.simps [of fresh type bs] finishHeader_def Let_def split: if_splits)
      then show ?thesis using findEnd_bounds [OF Some] fa kf(1,9) by (auto simp: available_def)
    qed
  qed
qed

section \<open>Messages and chunks\<close>

definition readMessageHeaders :: "(nat \<Rightarrow> char) \<Rightarrow> HttpInput \<Rightarrow> string http \<times> HttpInput" where
  "readMessageHeaders fresh s =
     (let s = s\<lparr>pendingMessageCount := pendingMessageCount s + 1\<rparr> in
      if onMessageDone s then (Waits, s)
      else if broken s then (Threw ''application did not finish reading previous HTTP response body'', s)
      else readHeader fresh MESSAGE 0 0 (s\<lparr>onMessageDone := True\<rparr>))"

fun chunkSizeLoop :: "uint64 \<Rightarrow> string \<Rightarrow> uint64 option" where
  "chunkSizeLoop value [] = Some value"
| "chunkSizeLoop value (c # text) =
     (if CHR ''0'' \<le> c \<and> c \<le> CHR ''9'' then chunkSizeLoop (value * 16 + word_of_nat (of_char c - 48)) text
      else if CHR ''a'' \<le> c \<and> c \<le> CHR ''f'' then chunkSizeLoop (value * 16 + word_of_nat (of_char c - 97 + 10)) text
      else if CHR ''A'' \<le> c \<and> c \<le> CHR ''F'' then chunkSizeLoop (value * 16 + word_of_nat (of_char c - 65 + 10)) text
      else None)"

definition readChunkHeader :: "(nat \<Rightarrow> char) \<Rightarrow> HttpInput \<Rightarrow> uint64 http \<times> HttpInput" where
  "readChunkHeader fresh s =
     (if \<not> onMessageDone s then (Threw ''onMessageDone != zc::none'', s)
      else awaiting (readHeader fresh CHUNK (messageHeaderEnd s) (messageHeaderEnd s) s) (\<lambda>text s.
        if text = [] then (Threw ''text.size() > 0'', s)
        else case chunkSizeLoop 0 text of
               None \<Rightarrow> (Threw ''invalid HTTP chunk size'', s)
             | Some value \<Rightarrow> (Ready value, s)))"

definition readRequestHeaders :: "(nat \<Rightarrow> char) \<Rightarrow> HttpHeaderTable \<Rightarrow> HttpInput \<Rightarrow>
    (request \<times> HttpHeaders) http \<times> HttpInput" where
  "readRequestHeaders fresh table s =
     awaiting (readMessageHeaders fresh s) (\<lambda>text s.
       case tryParseRequestOrConnect table text (HttpHeaders_new table) of
         (Inl e, _) \<Rightarrow> (Refused e, s)
       | (Inr r, h) \<Rightarrow> (Ready (r, h), s))"

definition readResponseHeaders :: "(nat \<Rightarrow> char) \<Rightarrow> HttpHeaderTable \<Rightarrow> HttpInput \<Rightarrow>
    (response \<times> HttpHeaders) http \<times> HttpInput" where
  "readResponseHeaders fresh table s =
     awaiting (readMessageHeaders fresh s) (\<lambda>text s.
       case tryParseResponse table text (HttpHeaders_new table) of
         (Inl e, _) \<Rightarrow> (Refused e, s)
       | (Inr r, h) \<Rightarrow> (Ready (r, h), s))"

text \<open>\<open>snarfBufferedLineBreak\<close> runs over what is left over only.\<close>

function snarfBufferedLineBreak :: "HttpInput \<Rightarrow> HttpInput" where
  "snarfBufferedLineBreak s =
     (if lineBreakBeforeNextHeader s \<and> leftoverStart s < leftoverEnd s then
        if headerBuffer s ! leftoverStart s = CR then snarfBufferedLineBreak (s\<lparr>leftoverStart := leftoverStart s + 1\<rparr>)
        else if headerBuffer s ! leftoverStart s = LF then
          snarfBufferedLineBreak (s\<lparr>leftoverStart := leftoverStart s + 1, lineBreakBeforeNextHeader := False\<rparr>)
        else snarfBufferedLineBreak (s\<lparr>lineBreakBeforeNextHeader := False\<rparr>)
      else s)"
  by pat_completeness auto
termination by (relation "measures [\<lambda>s. if lineBreakBeforeNextHeader s then 1 else 0, \<lambda>s. leftoverEnd s - leftoverStart s]") auto

declare snarfBufferedLineBreak.simps [simp del]

definition isCleanDrain :: "HttpInput \<Rightarrow> bool \<times> HttpInput" where
  "isCleanDrain s =
     (if onMessageDone s then (False, s)
      else let s = snarfBufferedLineBreak s
           in (\<not> lineBreakBeforeNextHeader s \<and> leftoverEnd s \<le> leftoverStart s, s))"

lemma snarf_inner [simp]: "inner (snarfBufferedLineBreak s) = inner s"
proof (induction s rule: snarfBufferedLineBreak.induct)
  case (1 s)
  then show ?case by (subst snarfBufferedLineBreak.simps) auto
qed

text \<open>The loop of \<open>awaitNextMessage\<close>: what is read lies at the beginning of the buffer.\<close>

function awaitLoop :: "HttpInput \<Rightarrow> bool http \<times> HttpInput" where
  "awaitLoop s =
     (let s = snarfBufferedLineBreak s in
      if \<not> lineBreakBeforeNextHeader s \<and> leftoverStart s < leftoverEnd s then (Ready True, s)
      else
        (case tryRead 1 (length (headerBuffer s)) (inner s) of
           (got, rest) \<Rightarrow>
             if got = [] then (Ready False, s\<lparr>inner := rest\<rparr>)
             else awaitLoop (s\<lparr>inner := rest, headerBuffer := overwrite (headerBuffer s) 0 got,
                              leftoverStart := 0, leftoverEnd := length got\<rparr>)))"
  by pat_completeness auto
termination
proof (relation "measure (\<lambda>s. length (concat (inner s)))")
  fix s t got rest x
  assume "t = snarfBufferedLineBreak s" "(got, rest) = tryRead 1 (length (headerBuffer t)) (inner t)" "got \<noteq> []"
  then have "got @ concat rest = concat (inner s)" using tryRead_append [of 1 _ "inner t" got rest] by simp
  then have "length (concat (inner s)) = length got + length (concat rest)" by (metis length_append)
  then show "(t\<lparr>inner := rest, headerBuffer := overwrite (headerBuffer t) 0 got, leftoverStart := 0, leftoverEnd := length got\<rparr>, s)
      \<in> measure (\<lambda>s. length (concat (inner s)))" using \<open>got \<noteq> []\<close> by simp
qed simp_all

declare awaitLoop.simps [simp del]

definition awaitNextMessage :: "HttpInput \<Rightarrow> bool http \<times> HttpInput" where
  "awaitNextMessage s = (if onMessageDone s then (Waits, s) else awaitLoop s)"

section \<open>Bodies\<close>

definition input_tryRead :: "nat \<Rightarrow> nat \<Rightarrow> HttpInput \<Rightarrow> char list http \<times> HttpInput" where
  "input_tryRead minBytes maxBytes s =
     (if \<not> onMessageDone s then (Threw ''onMessageDone != zc::none'', s)
      else if leftoverEnd s \<le> leftoverStart s then
        (let (got, rest) = tryRead minBytes maxBytes (inner s) in (Ready got, s\<lparr>inner := rest\<rparr>))
      else if maxBytes \<le> leftoverEnd s - leftoverStart s then
        (Ready (take maxBytes (leftover s)), s\<lparr>leftoverStart := leftoverStart s + maxBytes\<rparr>)
      else
      let copied = leftover s; s = s\<lparr>leftoverStart := 0, leftoverEnd := 0\<rparr> in
      if minBytes \<le> length copied then (Ready copied, s)
      else let (got, rest) = tryRead (minBytes - length copied) (maxBytes - length copied) (inner s)
           in (Ready (copied @ got), s\<lparr>inner := rest\<rparr>))"

text \<open>The four readers. \<open>finished\<close> is set when \<open>doneReading\<close> has released the stream; the one for a fixed length
  has finished exactly when its length is 0.\<close>

datatype body =
  NullBody "uint64 option"
| CloseBody bool
| FixedBody nat bool
| ChunkedBody nat bool bool

definition newNullBody :: "uint64 option \<Rightarrow> HttpInput \<Rightarrow> body \<times> HttpInput" where
  "newNullBody len s = (NullBody len, finishRead s)"

definition newFixedBody :: "nat \<Rightarrow> HttpInput \<Rightarrow> body \<times> HttpInput" where
  "newFixedBody len s = (FixedBody len True, if len = 0 then finishRead s else s)"

function fixedLoop :: "nat \<Rightarrow> nat \<Rightarrow> char list \<Rightarrow> nat \<Rightarrow> HttpInput \<Rightarrow> char list http \<times> nat \<times> HttpInput" where
  "fixedLoop minBytes maxBytes alreadyRead len s =
     (if len = 0 then (Ready [], len, s)
      else
        case input_tryRead 1 (min maxBytes len) s of
          (Ready got, s) \<Rightarrow>
            let left = len - length got in
            if 0 < left then
              if got = [] then
                (Threw ''premature EOF in HTTP entity body; did not reach Content-Length'', left, s)
              else if length got < minBytes then
                fixedLoop (minBytes - length got) (maxBytes - length got) (alreadyRead @ got) left s
              else (Ready (alreadyRead @ got), left, s)
            else (Ready (alreadyRead @ got), left, finishRead s)
        | (failed, s) \<Rightarrow> (failed, len, s))"
  by pat_completeness auto
termination by (relation "measure (\<lambda>(minBytes, maxBytes, alreadyRead, len, s). len)") auto

declare fixedLoop.simps [simp del]

lemma readChunkHeader_available: "readChunkHeader fresh s = (Ready v, s') \<Longrightarrow> available s' < available s"
  by (auto simp: readChunkHeader_def awaiting_Ready split: if_splits option.splits dest: readHeader_available)

lemma input_tryRead_progress:
  assumes "input_tryRead m n s = (Ready got, s')" and "got \<noteq> []"
  shows "available s' < available s"
proof -
  have "length (concat (inner s)) = length g + length (concat r)" if "tryRead a b (inner s) = (g, r)" for a b g r
    using tryRead_append [OF that] by (metis length_append)
  then show ?thesis using assms
    by (fastforce simp: input_tryRead_def available_def Let_def split: if_splits prod.splits)
qed

function chunkLoop :: "(nat \<Rightarrow> char) \<Rightarrow> nat \<Rightarrow> nat \<Rightarrow> char list \<Rightarrow> nat \<Rightarrow> bool \<Rightarrow> HttpInput \<Rightarrow>
    char list http \<times> (nat \<times> bool) \<times> HttpInput" where
  "chunkLoop fresh minBytes maxBytes alreadyRead chunkSize finished s =
     (if finished then (Ready alreadyRead, (chunkSize, finished), s)
      else if chunkSize = 0 then
        (case readChunkHeader fresh s of
           (Ready nextChunkSize, s) \<Rightarrow>
             if nextChunkSize = 0 then (Ready alreadyRead, (0, True), finishRead s)
             else chunkLoop fresh minBytes maxBytes alreadyRead (unat nextChunkSize) finished s
         | (Refused e, s) \<Rightarrow> (Threw ''bad header'', (chunkSize, finished), s)
         | (Threw e, s) \<Rightarrow> (Threw e, (chunkSize, finished), s)
         | (Waits, s) \<Rightarrow> (Waits, (chunkSize, finished), s)
         | (Undefined, s) \<Rightarrow> (Undefined, (chunkSize, finished), s))
      else
        (case input_tryRead 1 (min maxBytes chunkSize) s of
           (Ready got, s) \<Rightarrow>
             let left = chunkSize - length got in
             if got = [] then (Threw ''premature EOF in HTTP chunk'', (left, finished), s)
             else if length got < minBytes then
               chunkLoop fresh (minBytes - length got) (maxBytes - length got) (alreadyRead @ got) left finished s
             else (Ready (alreadyRead @ got), (left, finished), s)
         | (failed, s) \<Rightarrow> (failed, (chunkSize, finished), s)))"
  by pat_completeness auto
termination
  by (relation "measure (\<lambda>(fresh, minBytes, maxBytes, alreadyRead, chunkSize, finished, s). available s)")
    (auto intro: input_tryRead_progress readChunkHeader_available sym)

declare chunkLoop.simps [simp del]

definition body_read :: "(nat \<Rightarrow> char) \<Rightarrow> nat \<Rightarrow> nat \<Rightarrow> body \<Rightarrow> HttpInput \<Rightarrow> char list http \<times> body \<times> HttpInput" where
  "body_read fresh minBytes maxBytes body s =
     (case body of
        NullBody len \<Rightarrow> (Ready [], body, s)
      | CloseBody finished \<Rightarrow>
          if finished then (Ready [], body, s)
          else
            (case input_tryRead minBytes maxBytes s of
               (Ready got, s) \<Rightarrow>
                 if length got < minBytes then (Ready got, CloseBody True, finishRead s) else (Ready got, body, s)
             | (failed, s) \<Rightarrow> (failed, body, s))
      | FixedBody len clean \<Rightarrow>
          if \<not> clean then (Threw ''can't read more data after a previous read didn't complete'', body, s)
          else
            (case fixedLoop minBytes maxBytes [] len s of
               (Ready data, len, s) \<Rightarrow> (Ready data, FixedBody len True, s)
             | (failed, len, s) \<Rightarrow> (failed, FixedBody len False, s))
      | ChunkedBody chunkSize clean finished \<Rightarrow>
          if \<not> clean then (Threw ''can't read more data after a previous read didn't complete'', body, s)
          else
            (case chunkLoop fresh minBytes maxBytes [] chunkSize finished s of
               (Ready data, (chunkSize, finished), s) \<Rightarrow> (Ready data, ChunkedBody chunkSize True finished, s)
             | (failed, (chunkSize, finished), s) \<Rightarrow> (failed, ChunkedBody chunkSize False finished, s)))"

text \<open>The destructor of \<open>HttpEntityBodyReader\<close>.\<close>

fun body_finished :: "body \<Rightarrow> bool" where
  "body_finished (NullBody len) = True"
| "body_finished (CloseBody finished) = finished"
| "body_finished (FixedBody len clean) = (len = 0)"
| "body_finished (ChunkedBody chunkSize clean finished) = finished"

definition body_destroy :: "body \<Rightarrow> HttpInput \<Rightarrow> HttpInput" where
  "body_destroy body s = (if body_finished body then s else abortRead s)"

section \<open>How a body is delimited\<close>

abbreviation CONTENT_LENGTH :: nat where "CONTENT_LENGTH \<equiv> 5"
abbreviation TRANSFER_ENCODING :: nat where "TRANSFER_ENCODING \<equiv> 6"
abbreviation CONTENT_TYPE :: nat where "CONTENT_TYPE \<equiv> 14"

fun fastCaseCmp :: "string \<Rightarrow> string \<Rightarrow> bool" where
  "fastCaseCmp [] actual \<longleftrightarrow> peek actual = NUL"
| "fastCaseCmp (first # rest) actual \<longleftrightarrow>
     (if CHR ''a'' \<le> first \<and> first \<le> CHR ''z'' \<or> CHR ''A'' \<le> first \<and> first \<le> CHR ''Z''
      then byteOfChar (peek actual) OR 0x20 = byteOfChar first OR 0x20 else peek actual = first) \<and>
     fastCaseCmp rest (tl actual)"

datatype RequestOrResponse = REQUEST | RESPONSE

definition getEntityBody :: "RequestOrResponse \<Rightarrow> AnyMethod \<Rightarrow> uint32 \<Rightarrow> HttpHeaders \<Rightarrow> HttpInput \<Rightarrow> body http \<times> HttpInput" where
  "getEntityBody type method status headers s =
     (let ready = (\<lambda>(body, s). (Ready body, s)) in
      if type = RESPONSE \<and> method = Method HEAD then
        ready (newNullBody
          (case headers_get CONTENT_LENGTH headers of
             Some cl \<Rightarrow> Some (word_of_int (fst (strtoull 10 (cStr cl))))
           | None \<Rightarrow> if headers_get TRANSFER_ENCODING headers = None then Some 0 else None) s)
      else if type = RESPONSE \<and> method = ConnectMethod \<and> 200 \<le> status \<and> status < 300 then
        (Threw ''a CONNECT response with a 2xx status does not have an entity body to get'', s)
      else if type = RESPONSE \<and> (status = 204 \<or> status = 304) then ready (newNullBody (Some 0) s)
      else
      case headers_get TRANSFER_ENCODING headers of
        Some te \<Rightarrow>
          if fastCaseCmp ''chunked'' te then (Ready (ChunkedBody 0 True False), s)
          else if fastCaseCmp ''identity'' te then
            (if type = REQUEST then (Threw ''request body cannot have Transfer-Encoding other than chunked'', s)
             else (Ready (CloseBody False), s))
          else (Threw ''unknown transfer encoding'', s)
      | None \<Rightarrow>
          (case headers_get CONTENT_LENGTH headers of
             Some cl \<Rightarrow>
               (let (len, erange, rest) = strtoull 10 (cStr cl) in
                if rest \<noteq> cStr cl \<and> rest = [] then ready (newFixedBody (nat len) s)
                else (Threw ''invalid Content-Length header value'', s))
           | None \<Rightarrow>
               if type = REQUEST then ready (newNullBody (Some 0) s)
               else
                 (case headers_get CONTENT_TYPE headers of
                    Some t \<Rightarrow>
                      if startsWithChars t ''multipart/byteranges'' then (Threw (''refusing to handle multipart/byteranges response without transfer-encoding nor '' @
                        ''content-length due to ambiguity between RFC 2616 vs RFC 7230.''), s)
                      else (Ready (CloseBody False), s)
                  | None \<Rightarrow> (Ready (CloseBody False), s))))"

end
