(* ===== verification/Http_Input_Header.thy ===== *)
theory Http_Input_Header
  imports Http_Input
begin

text \<open>Reading a header: whatever the pieces in which the bytes arrive, \<open>readHeader\<close> returns the text up to the line
  break that ends it and leaves the bytes behind it to be read.\<close>

section \<open>Headers are found wherever the stream is cut\<close>

definition restOf :: "HttpInput \<Rightarrow> char list" where
  "restOf s = leftover s @ concat (inner s)"

definition bufferOk :: "HttpInput \<Rightarrow> bool" where
  "bufferOk s \<longleftrightarrow> leftoverEnd s \<le> length (headerBuffer s) \<and> MIN_BUFFER \<le> length (headerBuffer s)"

text \<open>Chunk headers are read behind the headers of the message.\<close>

definition chunkRoom :: "HttpInput \<Rightarrow> bool" where
  "chunkRoom s \<longleftrightarrow> messageHeaderEnd s + MAX_CHUNK_HEADER_SIZE \<le> length (headerBuffer s) \<and>
     (leftoverStart s < leftoverEnd s \<longrightarrow> messageHeaderEnd s \<le> leftoverStart s)"

definition sameHeaders :: "HeaderType \<Rightarrow> HttpInput \<Rightarrow> HttpInput \<Rightarrow> bool" where
  "sameHeaders type s s' \<longleftrightarrow>
     length (headerBuffer s) \<le> length (headerBuffer s') \<and>
     (type = CHUNK \<longrightarrow> length (headerBuffer s') = length (headerBuffer s) \<and> messageHeaderEnd s' = messageHeaderEnd s \<and>
        take (messageHeaderEnd s) (headerBuffer s') = take (messageHeaderEnd s) (headerBuffer s))"

text \<open>The fields that reading a header leaves alone.\<close>

definition sameMessage :: "HttpInput \<Rightarrow> HttpInput \<Rightarrow> bool" where
  "sameMessage s s' \<longleftrightarrow> onMessageDone s' = onMessageDone s \<and> broken s' = broken s \<and>
     pendingMessageCount s' = pendingMessageCount s"

lemma sameHeaders_trans [trans]: "sameHeaders type s t \<Longrightarrow> sameHeaders type t u \<Longrightarrow> sameHeaders type s u"
  by (auto simp: sameHeaders_def)

lemma sameMessage_trans [trans]: "sameMessage s t \<Longrightarrow> sameMessage t u \<Longrightarrow> sameMessage s u"
  by (simp add: sameMessage_def)

text \<open>The part of the buffer in use while a header is read: \<open>bs\<close> to \<open>be\<close> is buffered.\<close>

definition window :: "HeaderType \<Rightarrow> nat \<Rightarrow> nat \<Rightarrow> HttpInput \<Rightarrow> bool" where
  "window type bs be s \<longleftrightarrow> bs \<le> be \<and> be \<le> length (headerBuffer s) \<and> bufferOk s \<and>
     (leftoverStart s < leftoverEnd s \<longrightarrow> bs = be) \<and> (type = CHUNK \<longrightarrow> chunkRoom s \<and> messageHeaderEnd s \<le> bs)"

definition headerLimit :: "HeaderType \<Rightarrow> nat" where
  "headerLimit type = (if type = MESSAGE then MAX_BUFFER else MAX_CHUNK_HEADER_SIZE)"

lemmas window_defs = window_def bufferOk_def chunkRoom_def sameHeaders_def sameMessage_def

lemma makeRoom_ready:
  assumes "window type bs be s" and "leftoverEnd s \<le> leftoverStart s" and "be - bs < headerLimit type"
  shows "\<exists>bs1 be1 s1. makeRoom fresh type bs be s = (Ready (bs1, be1), s1) \<and> window type bs1 be1 s1 \<and>
    be1 < length (headerBuffer s1) \<and> subarray bs1 be1 (headerBuffer s1) = subarray bs be (headerBuffer s) \<and>
    inner s1 = inner s \<and> leftoverStart s1 = leftoverStart s \<and> leftoverEnd s1 = leftoverEnd s \<and>
    lineBreakBeforeNextHeader s1 = lineBreakBeforeNextHeader s \<and> sameHeaders type s s1 \<and> sameMessage s s1 \<and>
    be1 - bs1 = be - bs"
proof (cases "be = length (headerBuffer s)")
  case False
  then show ?thesis using assms by (auto simp: makeRoom_def window_defs)
next
  case True
  define b where "b = headerBuffer s"
  define m where "m = (if type = MESSAGE then 0 else messageHeaderEnd s)"
  show ?thesis
  proof (cases "m < bs")
    case moved: True
    define moved_buffer where "moved_buffer = overwrite b m (subarray bs be b)"
    have w: "bs \<le> be" "be = length b" using assms(1) True by (simp_all add: window_def b_def)
    have room: "makeRoom fresh type bs be s = (Ready (m, be - bs + m), s\<lparr>headerBuffer := moved_buffer\<rparr>)"
      using True moved by (simp add: makeRoom_def m_def b_def moved_buffer_def Let_def)
    have l: "length moved_buffer = length b" using w moved by (simp add: moved_buffer_def)
    have "subarray m (m + length (subarray bs be b)) moved_buffer = subarray bs be b"
      unfolding moved_buffer_def by (rule subarray_overwrite) (use w moved in simp)
    then have sub: "subarray m (be - bs + m) moved_buffer = subarray bs be b" using w by (simp add: add.commute)
    have pre: "take k moved_buffer = take k b" if "k \<le> m" for k
      using that w moved by (simp add: moved_buffer_def overwrite_def min_def)
    let ?s1 = "s\<lparr>headerBuffer := moved_buffer\<rparr>"
    have "window type m (be - bs + m) ?s1"
      using assms(1,2) moved l w unfolding b_def by (cases type) (auto simp: window_defs m_def)
    moreover have "sameHeaders type s ?s1"
      using l pre [of m] by (cases type) (simp_all add: sameHeaders_def m_def b_def)
    moreover have "be - bs + m < length moved_buffer" "be - bs + m - m = be - bs" using moved l w by simp_all
    ultimately show ?thesis unfolding room
      by (intro exI [of _ m] exI [of _ "be - bs + m"] exI [of _ ?s1] conjI) (simp_all add: sub b_def sameMessage_def)
  next
    case False
    have message: "type = MESSAGE"
    proof (cases type)
      case CHUNK
      then have "messageHeaderEnd s + MAX_CHUNK_HEADER_SIZE \<le> be" "bs = messageHeaderEnd s"
        using assms(1) True False by (simp_all add: window_def chunkRoom_def m_def)
      then show ?thesis using assms(3) CHUNK by (simp add: headerLimit_def)
    qed
    have bs: "bs = 0" using False message by (simp add: m_def)
    have small: "length b < MAX_BUFFER" using assms(3) True message bs by (simp add: headerLimit_def b_def)
    have room: "makeRoom fresh type bs be s = (Ready (bs, be), s\<lparr>headerBuffer := growBuffer fresh b\<rparr>)"
      using True False small message by (simp add: makeRoom_def m_def b_def bs)
    have "length (growBuffer fresh b) = 2 * length b" by (simp add: growBuffer_def)
    then show ?thesis unfolding room
      using assms(1,2) True message
      by (auto simp: window_defs b_def MIN_BUFFER_def growBuffer_def subarray_grow)
  qed
qed

lemma fillBuffer_ready:
  assumes "window type bs be s" and "be - bs < headerLimit type" and "restOf s \<noteq> []"
  obtains bs1 be1 amount s1 where
    "fillBuffer fresh type bs be s = (Ready (bs1, be1, amount), s1)" "window type bs1 be1 s1" "0 < amount"
    "be1 + amount \<le> length (headerBuffer s1)" "subarray bs1 be1 (headerBuffer s1) = subarray bs be (headerBuffer s)"
    "subarray be1 (be1 + amount) (headerBuffer s1) @ concat (inner s1) = restOf s"
    "leftoverEnd s1 \<le> leftoverStart s1" "lineBreakBeforeNextHeader s1 = lineBreakBeforeNextHeader s"
    "sameHeaders type s s1" "sameMessage s s1"
proof (cases "leftoverStart s < leftoverEnd s")
  case True
  let ?s1 = "s\<lparr>leftoverStart := 0, leftoverEnd := 0\<rparr>"
  have "fillBuffer fresh type bs be s = (Ready (leftoverStart s, leftoverStart s, leftoverEnd s - leftoverStart s), ?s1)"
    using True assms(1) by (simp add: fillBuffer_def window_def)
  then show thesis
    by (rule that) (use True assms(1) in \<open>auto simp: window_defs restOf_def leftover_def\<close>)
next
  case False
  then have null: "leftoverEnd s \<le> leftoverStart s" by simp
  obtain bs1 be1 s1 where room: "makeRoom fresh type bs be s = (Ready (bs1, be1), s1)" "window type bs1 be1 s1"
    "be1 < length (headerBuffer s1)" "subarray bs1 be1 (headerBuffer s1) = subarray bs be (headerBuffer s)"
    "inner s1 = inner s" "leftoverStart s1 = leftoverStart s" "leftoverEnd s1 = leftoverEnd s"
    "lineBreakBeforeNextHeader s1 = lineBreakBeforeNextHeader s" "sameHeaders type s s1" "sameMessage s s1" "be1 - bs1 = be - bs"
    using makeRoom_ready [OF assms(1) null assms(2), of fresh] by blast
  define b where "b = headerBuffer s1"
  define maxBytes where "maxBytes = (if type = CHUNK then min (length b - be1) MAX_CHUNK_HEADER_SIZE else length b - be1)"
  obtain got rest where r: "tryRead 1 maxBytes (inner s1) = (got, rest)" by force
  have max_pos: "0 < maxBytes" using room(3) by (simp add: maxBytes_def b_def MAX_CHUNK_HEADER_SIZE_def)
  have "concat (inner s1) \<noteq> []" using assms(3) null room(5) by (simp add: restOf_def leftover_def)
  from tryRead_progress [OF r max_pos this] have got: "got \<noteq> []" .
  have fits: "be1 + length got \<le> length b"
    using tryRead_bounds [OF r] room(3) by (auto simp: maxBytes_def b_def split: if_splits)
  let ?s2 = "s1\<lparr>inner := rest, headerBuffer := overwrite b be1 got\<rparr>"
  have "\<not> (type = CHUNK \<and> MAX_CHUNK_HEADER_SIZE < be1 - bs1)" using assms(2) room(11) by (auto simp: headerLimit_def)
  then have fill: "fillBuffer fresh type bs be s = (Ready (bs1, be1, length got), ?s2)"
    using False room(1) r [unfolded maxBytes_def b_def] got by (cases type) (simp_all add: fillBuffer_def b_def Let_def)
  have data: "subarray be1 (be1 + length got) (overwrite b be1 got) = got" by (rule subarray_overwrite [OF fits])
  have all: "got @ concat rest = restOf s" using tryRead_append [OF r] null room(5) by (simp add: restOf_def leftover_def)
  have before: "subarray bs1 be1 (overwrite b be1 got) = subarray bs1 be1 b"
    using room(3) by (intro subarray_overwrite_before) (simp_all add: b_def)
  have pre: "take k (overwrite b be1 got) = take k b" if "k \<le> be1" for k
    using that room(3) by (simp add: overwrite_def b_def min_def)
  have l: "length (overwrite b be1 got) = length b" by (rule length_overwrite [OF fits])
  have w: "window type bs1 be1 ?s2" using room(2) null room(6,7) l by (auto simp: window_defs b_def)
  have "sameHeaders type s1 ?s2" using room(2) l pre [of "messageHeaderEnd s1"] by (auto simp: window_defs b_def)
  then have h: "sameHeaders type s ?s2" by (rule sameHeaders_trans [OF room(9)])
  have m: "sameMessage s ?s2" using room(10) by (simp add: sameMessage_def)
  show thesis
    by (rule that [OF fill w _ _ _ _ _ _ h m]) (use got fits l before data all null room(4,6,7,8) in \<open>simp_all add: b_def\<close>)
qed

text \<open>Where a header ends: with its first line break, or with the first empty line.\<close>

definition ends :: "HeaderType \<Rightarrow> string \<Rightarrow> nat \<Rightarrow> bool" where
  "ends type t i \<longleftrightarrow> t ! i = LF \<and>
     (type = CHUNK \<or> 1 \<le> i \<and> (t ! (i - 1) = LF \<or> 2 \<le> i \<and> t ! (i - 1) = CR \<and> t ! (i - 2) = LF))"

definition terminated :: "HeaderType \<Rightarrow> string \<Rightarrow> bool" where
  "terminated type t \<longleftrightarrow>
     (if type = MESSAGE then 5 else 3) \<le> length t \<and> length t \<le> headerLimit type \<and> t ! 0 \<noteq> CR \<and> t ! 0 \<noteq> LF \<and>
     (\<forall>i < length t. ends type t i \<longleftrightarrow> i = length t - 1)"

lemma findEnd_find: "findEnd type b pos newEnd = find (\<lambda>i. b ! i = LF \<and> isEnd type b i) [pos..<newEnd]"
proof (induction type b pos newEnd rule: findEnd.induct)
  case (1 type b pos newEnd)
  let ?P = "\<lambda>i. b ! i = LF \<and> isEnd type b i"
  show ?case
  proof (cases "memchr b LF pos newEnd")
    case None
    then have "find ?P [pos..<newEnd] = None" by (auto simp: memchr_def find_None_iff)
    then show ?thesis using None by (simp add: findEnd.simps [of type b pos])
  next
    case (Some k)
    note bounds = memchr_bounds [OF Some]
    have none: "\<not> ?P i" if "i \<in> set [pos..<k]" for i
    proof -
      obtain j where j: "k = [pos..<newEnd] ! j" "j < newEnd - pos" "\<forall>l < j. b ! ([pos..<newEnd] ! l) \<noteq> LF"
        using Some by (auto simp: memchr_def find_Some_iff)
      have "i - pos < j" "[pos..<newEnd] ! (i - pos) = i" using j(1,2) that by auto
      then show ?thesis using j(3) by metis
    qed
    have split: "[pos..<newEnd] = [pos..<k] @ k # [Suc k..<newEnd]"
      using bounds by (metis le_add_diff_inverse less_imp_le upt_add_eq_append upt_conv_Cons)
    have "find ?P [pos..<newEnd] = find ?P (k # [Suc k..<newEnd])"
    proof -
      have "find ?P (xs @ ys) = find ?P ys" if "\<forall>x \<in> set xs. \<not> ?P x" for xs ys using that by (induction xs) auto
      then show ?thesis using none unfolding split by blast
    qed
    then show ?thesis
      using 1(1) [OF Some] Some bounds by (cases "isEnd type b k") (simp_all add: findEnd.simps [of type b pos])
  qed
qed

lemma isEnd_ends:
  assumes "terminated type t" and "\<And>j. j \<le> i \<Longrightarrow> b ! (bs + j) = t ! j" and "i < length t" and "t ! i = LF"
  shows "isEnd type b (bs + i) \<longleftrightarrow> ends type t i"
proof (cases type)
  case CHUNK
  then show ?thesis using assms(4) by (simp add: isEnd_def ends_def)
next
  case MESSAGE
  have first: "t ! 0 \<noteq> CR" "t ! 0 \<noteq> LF" using assms(1) by (simp_all add: terminated_def)
  then have "i \<noteq> 0" using assms(4) by metis
  show ?thesis
  proof (cases "i = 1")
    case True
    then show ?thesis using first assms(2) [of 0] MESSAGE by (simp add: isEnd_def ends_def)
  next
    case False
    then have i: "2 \<le> i" using \<open>i \<noteq> 0\<close> by simp
    have b: "b ! (bs + i - 1) = t ! (i - 1)" "b ! (bs + i - 2) = t ! (i - 2)"
      using assms(2) [of "i - 1"] assms(2) [of "i - 2"] i by simp_all
    have "4 \<le> i" if "ends type t i" using that assms(1,3) MESSAGE by (auto simp: terminated_def)
    then show ?thesis using b i assms(4) MESSAGE by (auto simp: isEnd_def ends_def)
  qed
qed

lemma findEnd_terminated:
  assumes "terminated type t" and "newEnd \<le> length b" and "bs \<le> be" and "be \<le> newEnd"
    and "subarray bs newEnd b = take (newEnd - bs) (t @ later)" and "be - bs < length t"
  shows "findEnd type b be newEnd = (if newEnd - bs < length t then None else Some (bs + length t - 1))"
proof -
  have agree: "b ! (bs + j) = t ! j" if "j < length t" "j < newEnd - bs" for j
  proof -
    have "b ! (bs + j) = subarray bs newEnd b ! j" using that assms(2) by (subst subarray_nth) simp_all
    then show ?thesis using that assms(5) by (simp add: nth_append)
  qed
  have end_iff: "b ! i = LF \<and> isEnd type b i \<longleftrightarrow> i = bs + length t - 1" if "be \<le> i" "i < newEnd" "i - bs < length t" for i
  proof -
    define j where "j = i - bs"
    have j: "i = bs + j" "j < length t" "j < newEnd - bs" using that assms(3) by (simp_all add: j_def)
    have b: "b ! (bs + k) = t ! k" if "k \<le> j" for k using that j by (intro agree) simp_all
    have "b ! i = LF \<and> isEnd type b i \<longleftrightarrow> ends type t j"
    proof (cases "t ! j = LF")
      case True
      then show ?thesis using isEnd_ends [OF assms(1) b j(2)] b [of j] j by simp
    qed (use b [of j] j in \<open>simp add: ends_def\<close>)
    also have "\<dots> \<longleftrightarrow> j = length t - 1" using assms(1) j(2) by (simp add: terminated_def)
    finally show ?thesis using j(2) by (simp add: j(1)) arith
  qed
  show ?thesis
  proof (cases "newEnd - bs < length t")
    case True
    have "\<not> (b ! i = LF \<and> isEnd type b i)" if "i \<in> set [be..<newEnd]" for i
    proof -
      have i: "be \<le> i" "i < newEnd" "i - bs < length t" "i \<noteq> bs + length t - 1" using that True assms(3) by auto
      then show ?thesis using end_iff by blast
    qed
    then show ?thesis using True unfolding findEnd_find by (auto simp: find_None_iff)
  next
    case False
    define k where "k = bs + length t - 1"
    have k: "be \<le> k" "k < newEnd" "k - bs < length t" using False assms(3,6) by (auto simp: k_def)
    have split: "[be..<newEnd] = [be..<k] @ k # [Suc k..<newEnd]"
      using k by (metis le_add_diff_inverse less_imp_le upt_add_eq_append upt_conv_Cons)
    have skip: "find P (xs @ k # ys) = Some k" if "\<forall>x \<in> set xs. \<not> P x" "P k" for P xs ys
      using that by (induction xs) auto
    have "find (\<lambda>i. b ! i = LF \<and> isEnd type b i) [be..<newEnd] = Some k"
      unfolding split
    proof (rule skip)
      show "\<forall>i \<in> set [be..<k]. \<not> (b ! i = LF \<and> isEnd type b i)"
        using end_iff k assms(3) by (fastforce simp: k_def)
      show "b ! k = LF \<and> isEnd type b k" using end_iff [OF k] by (simp add: k_def)
    qed
    then show ?thesis using False unfolding findEnd_find by (simp add: k_def)
  qed
qed

definition headerRead :: "HeaderType \<Rightarrow> HttpInput \<Rightarrow> string \<Rightarrow> HttpInput \<Rightarrow> bool" where
  "headerRead type s later s' \<longleftrightarrow> restOf s' = later \<and> bufferOk s' \<and> chunkRoom s' \<and> sameHeaders type s s' \<and>
     sameMessage s s' \<and> lineBreakBeforeNextHeader s' = (type = CHUNK)"

lemma headerRead_step:
  "sameHeaders type s s1 \<Longrightarrow> sameMessage s s1 \<Longrightarrow> headerRead type s1 later s' \<Longrightarrow> headerRead type s later s'"
  by (auto simp: headerRead_def intro: sameHeaders_trans sameMessage_trans)

lemma finishHeader_text:
  assumes "window type bs be s" and "terminated type t" and "t = text @ CRLF" and "\<not> lineBreakBeforeNextHeader s"
    and "newEnd \<le> length (headerBuffer s)" and "bs + length t \<le> newEnd"
    and "subarray bs newEnd (headerBuffer s) @ concat (inner s) = t @ later"
  shows "\<exists>s'. finishHeader fresh type bs (bs + length t - 1) newEnd s = (Ready text, s') \<and> headerRead type s later s'"
proof -
  define b where "b = headerBuffer s"
  define nl where "nl = bs + length text + 1"
  have nl: "bs + length t - 1 = nl" by (simp add: nl_def assms(3))
  have all: "subarray bs newEnd b = t @ drop (length t) (subarray bs newEnd b)"
  proof -
    have "length t \<le> length (subarray bs newEnd b)" using assms(5,6) by (simp add: b_def)
    then have "take (length t) (subarray bs newEnd b) = t" using assms(7) by (metis append_eq_append_conv_if b_def)
    then show ?thesis by (metis append_take_drop_id)
  qed
  have at: "b ! (bs + j) = t ! j" if "j < length t" for j
  proof -
    have "b ! (bs + j) = subarray bs newEnd b ! j" using that assms(5,6) by (subst subarray_nth) (simp_all add: b_def)
    then show ?thesis using that all by (metis nth_append)
  qed
  have cr: "b ! (nl - 1) = CR" using at [of "length text"] by (simp add: nl_def assms(3) nth_append)
  have parts: "subarray bs (nl - 1) b @ subarray (nl - 1) newEnd b = subarray bs newEnd b"
    by (rule subarray_append) (use assms(5,6) in \<open>simp_all add: nl_def assms(3) b_def\<close>)
  have "length (subarray bs (nl - 1) b) = length text" using assms(5,6) by (simp add: nl_def b_def assms(3))
  moreover have "subarray bs (nl - 1) b @ subarray (nl - 1) newEnd b = text @ CRLF @ drop (length t) (subarray bs newEnd b)"
    using parts all assms(3) by simp
  ultimately have result: "subarray bs (nl - 1) b = text" by (simp add: append_eq_append_conv)
  have parts: "subarray bs (nl + 1) b @ subarray (nl + 1) newEnd b = subarray bs newEnd b"
    by (rule subarray_append) (use assms(5,6) in \<open>simp_all add: nl_def assms(3) b_def\<close>)
  have "length (subarray bs (nl + 1) b) = length t" using assms(5,6) by (simp add: nl_def b_def assms(3))
  moreover have "subarray bs (nl + 1) b @ subarray (nl + 1) newEnd b @ concat (inner s) = t @ later"
    unfolding append_assoc [symmetric] parts using assms(7) by (simp add: b_def)
  ultimately have left: "subarray (nl + 1) newEnd b @ concat (inner s) = later" by (simp add: append_eq_append_conv)
  define s' where "s' = snd (finishHeader fresh type bs nl newEnd s)"
  have fin: "finishHeader fresh type bs nl newEnd s = (Ready text, s')"
    using cr result by (simp add: finishHeader_def Let_def s'_def b_def nl_def)
  have len: "length (growBuffer fresh b) = 2 * length b" by (simp add: growBuffer_def)
  have take_grow: "subarray i newEnd (growBuffer fresh b) = subarray i newEnd b" for i
    using assms(5) by (simp add: growBuffer_def subarray_grow b_def)
  have "restOf s' = later" using left take_grow
    by (simp add: s'_def finishHeader_def Let_def restOf_def leftover_def b_def)
  moreover have "bufferOk s' \<and> chunkRoom s'"
    using assms(1,5,6) len cr
    by (cases type) (auto simp: s'_def finishHeader_def Let_def window_defs b_def nl_def assms(3) MIN_BUFFER_def MAX_CHUNK_HEADER_SIZE_def)
  moreover have "sameHeaders type s s' \<and> sameMessage s s' \<and> lineBreakBeforeNextHeader s' = (type = CHUNK)"
    using assms(4) len by (cases type) (simp_all add: s'_def finishHeader_def Let_def sameHeaders_def sameMessage_def b_def)
  ultimately show ?thesis using fin nl by (auto simp: headerRead_def)
qed

text \<open>What a read finds next: an expected line break, of which a part may be in the buffer, and the header.\<close>

definition upcoming :: "HttpInput \<Rightarrow> string \<Rightarrow> string \<Rightarrow> string \<Rightarrow> bool" where
  "upcoming s buffered t later \<longleftrightarrow>
     (if lineBreakBeforeNextHeader s then buffered @ restOf s = CRLF @ t @ later \<and> length buffered < 2
      else buffered @ restOf s = t @ later \<and> length buffered < length t)"

lemma upcoming_facts:
  assumes "terminated type t" and "upcoming s buffered t later"
  shows "restOf s \<noteq> []" "length buffered < headerLimit type"
proof -
  have t: "length t \<le> headerLimit type" "3 \<le> length t" using assms(1) by (auto simp: terminated_def split: if_splits)
  have "2 < headerLimit type" using t by simp
  then show "length buffered < headerLimit type" using assms(2) t by (auto simp: upcoming_def split: if_splits)
  show "restOf s \<noteq> []"
  proof
    assume "restOf s = []"
    then have "length buffered = length (t @ later) + (if lineBreakBeforeNextHeader s then 2 else 0)"
      using assms(2) by (auto simp: upcoming_def split: if_splits)
    then show False using assms(2) by (auto simp: upcoming_def split: if_splits)
  qed
qed

lemma skipBreak_upcoming:
  assumes "window type bs be s" and "lineBreakBeforeNextHeader s" and "0 < amount" and "leftoverEnd s \<le> leftoverStart s"
    and "be + amount \<le> length (headerBuffer s)" and "length (subarray bs be (headerBuffer s)) < 2"
    and "subarray bs (be + amount) (headerBuffer s) @ concat (inner s) = CRLF @ t @ later"
  shows "(\<exists>s2. skipBreak bs be amount s = (bs, be + 1, 0, s) \<and> amount = 1 \<and> be = bs) \<or>
    (skipBreak bs be amount s = (bs + 2, bs + 2, be + amount - (bs + 2), s\<lparr>lineBreakBeforeNextHeader := False\<rparr>) \<and>
     bs + 2 \<le> be + amount)"
proof -
  define b where "b = headerBuffer s"
  have w: "bs \<le> be" "be \<le> length b" using assms(1) by (simp_all add: window_def b_def)
  then have d: "be = bs \<or> be = bs + 1" using assms(6) by (auto simp: b_def)
  have at: "b ! (bs + j) = (CRLF @ t @ later) ! j" if "bs + j < be + amount" for j
  proof -
    have "b ! (bs + j) = subarray bs (be + amount) b ! j" using that assms(5) by (subst subarray_nth) (simp_all add: b_def)
    moreover have "j < length (subarray bs (be + amount) b)" using that assms(5) by (simp add: b_def)
    ultimately show ?thesis using assms(7) by (metis nth_append b_def)
  qed
  have cr: "b ! bs = CR" using at [of 0] assms(3) w by simp
  have lf: "b ! (bs + 1) = LF \<or> be + amount \<le> bs + 1" using at [of 1] by (cases "bs + 1 < be + amount") simp_all
  show ?thesis
    using d assms(2,3) cr lf by (auto simp: skipBreak_def Let_def b_def [symmetric])
qed

lemma readHeader_step:
  assumes "fillBuffer fresh type bs be s = (Ready (bs1, be1, amount1), s1)"
    and "skipBreak bs1 be1 amount1 s1 = (bs2, be2, amount2, s2)"
  shows "readHeader fresh type bs be s =
    (if amount2 = 0 then readHeader fresh type bs2 be2 s2
     else case findEnd type (headerBuffer s2) be2 (be2 + amount2) of
            None \<Rightarrow> readHeader fresh type bs2 (be2 + amount2) s2
          | Some nl \<Rightarrow> finishHeader fresh type bs2 nl (be2 + amount2) s2)"
  by (subst readHeader.simps) (simp add: assms)

lemma readHeader_terminated:
  assumes "terminated type t" and "t = text @ CRLF"
    and "window type bs be s" and "upcoming s (subarray bs be (headerBuffer s)) t later"
  shows "\<exists>s'. readHeader fresh type bs be s = (Ready text, s') \<and> headerRead type s later s'"
  using assms(3,4)
proof (induction "unread s" arbitrary: bs be s rule: less_induct)
  case less
  define d where "d = subarray bs be (headerBuffer s)"
  have ld: "be - bs = length d" using less.prems(1) by (simp add: d_def window_def)
  note up = less.prems(2) [folded d_def]
  obtain bs1 be1 amount1 s1 where
    f: "fillBuffer fresh type bs be s = (Ready (bs1, be1, amount1), s1)" "window type bs1 be1 s1" "0 < amount1"
    "be1 + amount1 \<le> length (headerBuffer s1)" "subarray bs1 be1 (headerBuffer s1) = d"
    "subarray be1 (be1 + amount1) (headerBuffer s1) @ concat (inner s1) = restOf s"
    "leftoverEnd s1 \<le> leftoverStart s1" "lineBreakBeforeNextHeader s1 = lineBreakBeforeNextHeader s"
    "sameHeaders type s s1" "sameMessage s s1"
    using fillBuffer_ready [OF less.prems(1) _ upcoming_facts(1) [OF assms(1) up]] upcoming_facts(2) [OF assms(1) up] ld
    unfolding d_def by metis
  define b where "b = headerBuffer s1"
  have w1: "bs1 \<le> be1" "be1 \<le> length b" using f(2) by (simp_all add: window_def b_def)
  have ld1: "be1 - bs1 = length d" using f(5) w1 by (metis length_subarray min_absorb1 b_def)
  have data: "subarray bs1 (be1 + amount1) b @ concat (inner s1) = d @ restOf s"
    using subarray_append [of bs1 be1 "be1 + amount1" b] f(4,5,6) w1 by (simp add: b_def) (metis append_assoc)
  have search: "\<exists>s'. readHeader fresh type bs be s = (Ready text, s') \<and> headerRead type s later s'"
    if k: "skipBreak bs1 be1 amount1 s1 = (bs2, be2, amount2, s2)"
      and s2: "\<not> lineBreakBeforeNextHeader s2" "headerBuffer s2 = b" "inner s2 = inner s1" "sameHeaders type s1 s2"
        "sameMessage s1 s2" "leftoverEnd s2 \<le> leftoverStart s2" "window type bs2 be2 s2" "be2 + amount2 \<le> length b"
      and d2: "subarray bs2 (be2 + amount2) b @ concat (inner s1) = t @ later" "be2 - bs2 < length t"
    for bs2 be2 amount2 s2
  proof -
    have less2: "unread s2 < unread s" using step_unread [OF f(1) k] .
    have same: "sameHeaders type s s2" "sameMessage s s2"
      using f(9,10) s2(4,5) by (blast intro: sameHeaders_trans sameMessage_trans)+
    have w2: "bs2 \<le> be2" using s2(7) by (simp add: window_def)
    define n where "n = be2 + amount2"
    have len: "length (subarray bs2 n b) = n - bs2" using s2(8) by (simp add: n_def)
    then have prefix: "subarray bs2 n b = take (n - bs2) (t @ later)"
      using d2(1) by (metis append_eq_conv_conj n_def)
    note found = findEnd_terminated [OF assms(1) s2(8) w2 le_add1 prefix [unfolded n_def] d2(2), folded n_def]
    show ?thesis
    proof (cases "n - bs2 < length t")
      case True
      have w: "window type bs2 n s2" using s2(6,7,8) w2 by (auto simp: window_def n_def s2(2))
      have "upcoming s2 (subarray bs2 n (headerBuffer s2)) t later"
        using s2(1,3,6) d2(1) True len by (simp add: upcoming_def restOf_def leftover_def n_def s2(2))
      from less.hyps [OF less2 w this] obtain s' where
        s': "readHeader fresh type bs2 n s2 = (Ready text, s')" "headerRead type s2 later s'" by blast
      have "readHeader fresh type bs be s = readHeader fresh type bs2 n s2"
        using readHeader_step [OF f(1) k, folded n_def] True found by (auto simp: s2(2) n_def)
      then show ?thesis using s' headerRead_step [OF same] by auto
    next
      case False
      have fits: "bs2 + length t \<le> n" using False w2 d2(2) by (simp add: n_def)
      have pos: "amount2 \<noteq> 0" using fits d2(2) w2 by (auto simp: n_def)
      obtain s' where
        s': "finishHeader fresh type bs2 (bs2 + length t - 1) n s2 = (Ready text, s')" "headerRead type s2 later s'"
        using finishHeader_text [OF s2(7) assms(1,2) s2(1), of n later fresh] s2(2,3,8) d2(1) fits by (auto simp: n_def)
      have "readHeader fresh type bs be s = (Ready text, s')"
        using readHeader_step [OF f(1) k, folded n_def] False found pos s'(1) by (simp add: s2(2))
      then show ?thesis using s'(2) headerRead_step [OF same] by blast
    qed
  qed
  show ?case
  proof (cases "lineBreakBeforeNextHeader s")
    case False
    have up2: "d @ restOf s = t @ later" "length d < length t" using up False by (simp_all add: upcoming_def)
    have "skipBreak bs1 be1 amount1 s1 = (bs1, be1, amount1, s1)" using False f(8) by (simp add: skipBreak_def)
    from search [OF this] show ?thesis
      using f(2,4,7,8) False data up2 ld1 by (auto simp: b_def sameHeaders_def sameMessage_def)
  next
    case True
    have up2: "d @ restOf s = CRLF @ t @ later" "length d < 2" using up True by (simp_all add: upcoming_def)
    have "length (subarray bs1 be1 (headerBuffer s1)) < 2" using f(5) up2(2) by simp
    from skipBreak_upcoming [OF f(2) _ f(3,7,4) this data [unfolded up2 b_def]] True f(8)
    consider (one) "skipBreak bs1 be1 amount1 s1 = (bs1, be1 + 1, 0, s1)" "amount1 = 1" "be1 = bs1"
      | (both) "skipBreak bs1 be1 amount1 s1 =
          (bs1 + 2, bs1 + 2, be1 + amount1 - (bs1 + 2), s1\<lparr>lineBreakBeforeNextHeader := False\<rparr>)" "bs1 + 2 \<le> be1 + amount1"
      by auto
    then show ?thesis
    proof cases
      case one
      have w: "window type bs1 (be1 + 1) s1" using f(2,4,7) one by (auto simp: window_def)
      have "upcoming s1 (subarray bs1 (be1 + 1) (headerBuffer s1)) t later"
        using True f(4,7,8) data up2(1) one by (simp add: upcoming_def restOf_def leftover_def b_def)
      from less.hyps [OF step_unread [OF f(1) one(1)] w this] obtain s' where
        "readHeader fresh type bs1 (be1 + 1) s1 = (Ready text, s')" "headerRead type s1 later s'" by blast
      then show ?thesis using readHeader_step [OF f(1) one(1)] headerRead_step [OF f(9,10)] by auto
    next
      case both
      let ?s2 = "s1\<lparr>lineBreakBeforeNextHeader := False\<rparr>"
      have w: "window type (bs1 + 2) (bs1 + 2) ?s2" using f(2,4,7) both(2) by (auto simp: window_defs)
      have parts: "subarray bs1 (bs1 + 2) b @ subarray (bs1 + 2) (be1 + amount1) b = subarray bs1 (be1 + amount1) b"
        by (rule subarray_append) (use both(2) f(4) in \<open>simp_all add: b_def\<close>)
      have len: "length (subarray bs1 (bs1 + 2) b) = length CRLF" using both(2) f(4) by (simp add: b_def)
      have "subarray bs1 (bs1 + 2) b @ subarray (bs1 + 2) (be1 + amount1) b @ concat (inner s1) = CRLF @ t @ later"
        unfolding append_assoc [symmetric] parts using data up2(1) by simp
      from append_eq_append_conv [THEN iffD1, OF disjI1 [OF len] this]
      have "subarray (bs1 + 2) (be1 + amount1) b @ concat (inner s1) = t @ later" by (rule conjunct2)
      moreover have "0 < length t" using assms(2) by simp
      moreover have e: "bs1 + 2 + (be1 + amount1 - (bs1 + 2)) = be1 + amount1" using both(2) by simp
      ultimately show ?thesis
        using search [OF both(1), unfolded e] f(4,7) w by (simp add: b_def sameHeaders_def sameMessage_def)
    qed
  qed
qed

end
