(* ===== verification/Http_Bodies.thy ===== *)
theory Http_Bodies
  imports Http_Input_Header
begin

text \<open>Bodies are input streams: the four readers fulfil the contract of \<open>AsyncInputStream\<close>, and leave the connection
  ready for the next message.\<close>

section \<open>Reading behind the headers\<close>

text \<open>A message is being read, and its headers lie before what is left over.\<close>

definition inMessage :: "HttpInput \<Rightarrow> bool" where
  "inMessage s \<longleftrightarrow> bufferOk s \<and> chunkRoom s \<and> onMessageDone s \<and> \<not> broken s \<and> pendingMessageCount s = 1"

lemma input_tryRead_rest:
  assumes "inMessage s" and "1 \<le> m" and "m \<le> n"
  shows "\<exists>got s'. input_tryRead m n s = (Ready got, s') \<and> restOf s = got @ restOf s' \<and> length got \<le> n \<and>
    (length got < m \<longrightarrow> restOf s' = []) \<and> inMessage s' \<and> headerBuffer s' = headerBuffer s \<and>
    messageHeaderEnd s' = messageHeaderEnd s \<and> sameMessage s s' \<and>
    lineBreakBeforeNextHeader s' = lineBreakBeforeNextHeader s"
proof (cases "leftoverEnd s \<le> leftoverStart s")
  case True
  obtain got rest where r: "tryRead m n (inner s) = (got, rest)" by force
  then show ?thesis
    using assms True tryRead_append [OF r] tryRead_bounds [OF r]
    by (auto simp: input_tryRead_def inMessage_def bufferOk_def chunkRoom_def restOf_def leftover_def sameMessage_def)
next
  case False
  define k where "k = leftoverEnd s - leftoverStart s"
  have l: "length (leftover s) = k" using assms(1) by (simp add: inMessage_def bufferOk_def leftover_def k_def)
  show ?thesis
  proof (cases "n \<le> k")
    case True
    have "leftover s = take n (leftover s) @ leftover (s\<lparr>leftoverStart := leftoverStart s + n\<rparr>)"
      using True by (simp add: leftover_def subarray_def add.commute flip: drop_drop)
    then show ?thesis
      using assms False True l
      by (auto simp: input_tryRead_def inMessage_def bufferOk_def chunkRoom_def restOf_def sameMessage_def k_def)
  next
    case more: False
    let ?s = "s\<lparr>leftoverStart := 0, leftoverEnd := 0\<rparr>"
    show ?thesis
    proof (cases "m \<le> k")
      case True
      then have "input_tryRead m n s = (Ready (leftover s), ?s)"
        using assms(1) False more l by (simp add: input_tryRead_def inMessage_def k_def Let_def)
      then show ?thesis
        using assms True more l
        by (auto simp: inMessage_def bufferOk_def chunkRoom_def restOf_def leftover_def sameMessage_def)
    next
      case wait: False
      obtain got rest where r: "tryRead (m - k) (n - k) (inner s) = (got, rest)" by force
      have "input_tryRead m n s = (Ready (leftover s @ got), ?s\<lparr>inner := rest\<rparr>)"
        using assms(1) False more wait l r by (simp add: input_tryRead_def inMessage_def k_def Let_def)
      then show ?thesis
        using assms wait more l tryRead_append [OF r] tryRead_bounds [OF r]
        by (auto simp: inMessage_def bufferOk_def chunkRoom_def restOf_def leftover_def sameMessage_def)
    qed
  qed
qed

subsection \<open>Chunk headers\<close>

text \<open>\<open>zc::hex\<close> of a \<open>size_t\<close>.\<close>

definition hexText :: "nat \<Rightarrow> string" where
  "hexText n = the (hexImpl \<lparr>bytes_of = 8, is_signed = False\<rparr> n)"

lemma hexText_digits: "n < 2 ^ 64 \<Longrightarrow> hexText n = map hexChar (rev (digitLoop 16 n)) \<and> length (hexText n) \<le> 16 \<and> hexText n \<noteq> []"
  using bytes_digits(1) [of n 8] digitLoop_facts(3) [of 16 n] by (simp add: hexText_def hexImpl_def Let_def hexChar_def)

lemma hexChar_cases:
  assumes "d < 16"
  shows "hexChar d \<notin> {CR, LF}" "chunkSizeLoop v (hexChar d # r) = chunkSizeLoop (v * 16 + word_of_nat d) r"
proof -
  have "\<forall>d \<in> set [0..<16]. hexChar d \<notin> {CR, LF} \<and> chunkSizeLoop v (hexChar d # r) = chunkSizeLoop (v * 16 + word_of_nat d) r"
    by (simp add: upt_rec hexChar_def less_eq_char_def)
  from ball_upt [OF this assms]
  show "hexChar d \<notin> {CR, LF}" "chunkSizeLoop v (hexChar d # r) = chunkSizeLoop (v * 16 + word_of_nat d) r" by blast+
qed

lemma chunkSizeLoop_digits:
  assumes "\<forall>d \<in> set ds. d < 16"
  shows "chunkSizeLoop (word_of_nat v) (map hexChar ds) = Some (word_of_nat (foldl (\<lambda>n d. n * 16 + d) v ds))"
  using assms
proof (induction ds arbitrary: v)
  case (Cons d ds)
  have "(word_of_nat v * 16 + word_of_nat d :: uint64) = word_of_nat (v * 16 + d)" by simp
  moreover have "chunkSizeLoop (word_of_nat v) (map hexChar (d # ds)) =
      chunkSizeLoop (word_of_nat v * 16 + word_of_nat d) (map hexChar ds)"
    unfolding list.map using Cons.prems by (intro hexChar_cases(2)) simp
  ultimately show ?case using Cons.IH [of "v * 16 + d"] Cons.prems by (simp del: of_nat_mult of_nat_add chunkSizeLoop.simps)
qed simp

lemma chunkSize_hexText:
  assumes "n < 2 ^ 64"
  shows "chunkSizeLoop 0 (hexText n) = Some (word_of_nat n)"
  using chunkSizeLoop_digits [of "rev (digitLoop 16 n)" 0] digitLoop_facts(1,2) [of 16 n] hexText_digits [OF assms]
  by simp

lemma terminated_chunk:
  assumes "n < 2 ^ 64"
  shows "terminated CHUNK (hexText n @ CRLF)"
proof -
  note h = hexText_digits [OF assms]
  have plain: "\<forall>c \<in> set (hexText n). c \<noteq> CR \<and> c \<noteq> LF"
    using h hexChar_cases(1) digitLoop_facts(2) [of 16 n] by fastforce
  then have "hexText n ! i \<noteq> LF" if "i < length (hexText n)" for i using that by (meson nth_mem)
  moreover have "hexText n ! 0 \<noteq> CR \<and> hexText n ! 0 \<noteq> LF" using plain h by (meson length_greater_0_conv nth_mem)
  ultimately show ?thesis
    using conjunct2 [OF h]
    by (auto simp: terminated_def ends_def headerLimit_def MAX_CHUNK_HEADER_SIZE_def nth_append less_Suc_eq Suc_le_eq)
qed

definition pendingBreak :: "HttpInput \<Rightarrow> string" where
  "pendingBreak s = (if lineBreakBeforeNextHeader s then CRLF else [])"

lemma readChunkHeader_reads:
  assumes "inMessage s" and "n < 2 ^ 64" and "restOf s = pendingBreak s @ hexText n @ CRLF @ later"
  shows "\<exists>s'. readChunkHeader fresh s = (Ready (word_of_nat n), s') \<and> restOf s' = later \<and> inMessage s' \<and>
    lineBreakBeforeNextHeader s' \<and> sameHeaders CHUNK s s' \<and> sameMessage s s'"
proof -
  let ?m = "messageHeaderEnd s"
  have w: "window CHUNK ?m ?m s" using assms(1) by (auto simp: window_def inMessage_def bufferOk_def chunkRoom_def)
  have t: "hexText n @ CRLF \<noteq> []" by simp
  have "upcoming s (subarray ?m ?m (headerBuffer s)) (hexText n @ CRLF) later"
    using assms(3) by (simp add: upcoming_def pendingBreak_def)
  from readHeader_terminated [OF terminated_chunk [OF assms(2)] refl w this]
  obtain s' where s': "readHeader fresh CHUNK ?m ?m s = (Ready (hexText n), s')" "headerRead CHUNK s later s'" by blast
  have "readChunkHeader fresh s = (Ready (word_of_nat n), s')"
    using assms(1) s'(1) conjunct2 [OF hexText_digits [OF assms(2)]] chunkSize_hexText [OF assms(2)]
    by (simp add: readChunkHeader_def inMessage_def)
  then show ?thesis using s'(2) assms(1) by (auto simp: headerRead_def inMessage_def sameMessage_def)
qed

section \<open>Bodies are input streams\<close>

text \<open>Between messages: nothing is being read, and the next message follows, after the line break of a last chunk.\<close>

definition idle :: "HttpInput \<Rightarrow> string \<Rightarrow> bool" where
  "idle s later \<longleftrightarrow> bufferOk s \<and> \<not> onMessageDone s \<and> \<not> broken s \<and> pendingMessageCount s = 0 \<and>
     restOf s = pendingBreak s @ later"

lemma idle_finishRead: "inMessage s \<Longrightarrow> restOf s = pendingBreak s @ later \<Longrightarrow> idle (finishRead s) later"
  by (simp add: idle_def inMessage_def finishRead_def bufferOk_def restOf_def leftover_def pendingBreak_def)

text \<open>The text of a chunked body.\<close>

fun chunksText :: "char list list \<Rightarrow> string" where
  "chunksText [] = []"
| "chunksText (p # ps) = hexText (length p) @ CRLF @ p @ CRLF @ chunksText ps"

definition lastChunk :: string where
  "lastChunk = ''0'' @ CRLF @ CRLF"

definition pieceOk :: "char list \<Rightarrow> bool" where
  "pieceOk p \<longleftrightarrow> p \<noteq> [] \<and> length p < 2 ^ 64"

definition chunksHold :: "nat \<Rightarrow> HttpInput \<Rightarrow> char list \<Rightarrow> string \<Rightarrow> bool" where
  "chunksHold chunkSize s data later \<longleftrightarrow> inMessage s \<and>
     (\<exists>d ps. list_all pieceOk ps \<and> length d = chunkSize \<and> data = d @ concat ps \<and>
        (if d = [] then restOf s = pendingBreak s @ chunksText ps @ lastChunk @ later
         else lineBreakBeforeNextHeader s \<and> restOf s = d @ CRLF @ chunksText ps @ lastChunk @ later))"

fun body_holds :: "string \<Rightarrow> body \<times> HttpInput \<Rightarrow> char list \<Rightarrow> bool" where
  "body_holds later (NullBody len, s) data \<longleftrightarrow> data = [] \<and> idle s later"
| "body_holds later (CloseBody finished, s) data \<longleftrightarrow> later = [] \<and> \<not> lineBreakBeforeNextHeader s \<and>
     (if finished then data = [] \<and> idle s [] else inMessage s \<and> restOf s = data)"
| "body_holds later (FixedBody len clean, s) data \<longleftrightarrow> clean \<and> len = length data \<and> \<not> lineBreakBeforeNextHeader s \<and>
     (if data = [] then idle s later else inMessage s \<and> restOf s = data @ later)"
| "body_holds later (ChunkedBody chunkSize clean finished, s) data \<longleftrightarrow> clean \<and>
     (if finished then data = [] \<and> idle s later else chunksHold chunkSize s data later)"

lemma split_front:
  assumes "xs @ ys = got @ r" and "length got \<le> length xs"
  shows "xs = got @ drop (length got) xs" "r = drop (length got) xs @ ys"
proof -
  obtain us where "xs = got @ us" "r = us @ ys"
    using assms by (auto simp: append_eq_append_conv2)
  then show "xs = got @ drop (length got) xs" "r = drop (length got) xs @ ys" by simp_all
qed

lemma fixedLoop_reads:
  assumes "inMessage s" and "restOf s = data @ later" and "data \<noteq> []" and "1 \<le> m" and "m \<le> n"
    and "\<not> lineBreakBeforeNextHeader s"
  shows "\<exists>got rest s'. fixedLoop m n acc (length data) s = (Ready (acc @ got), length rest, s') \<and> data = got @ rest \<and>
    length got \<le> n \<and> (length got < m \<longrightarrow> rest = []) \<and> body_holds later (FixedBody (length rest) True, s') rest"
  using assms
proof (induction "length data" arbitrary: data s m n acc rule: less_induct)
  case less
  have n: "1 \<le> min n (length data)" using less.prems(3,4,5) by (cases data) auto
  obtain got s1 where r: "input_tryRead 1 (min n (length data)) s = (Ready got, s1)" "restOf s = got @ restOf s1"
    "length got \<le> min n (length data)" "length got < 1 \<longrightarrow> restOf s1 = []" "inMessage s1"
    "lineBreakBeforeNextHeader s1 = lineBreakBeforeNextHeader s"
    using input_tryRead_rest [OF less.prems(1) order.refl n] by blast
  have got: "got \<noteq> []" using r(2,4) less.prems(2,3) by auto
  define rest where "rest = drop (length got) data"
  have data: "data = got @ rest" "restOf s1 = rest @ later"
    using split_front [of data later got "restOf s1"] r(2,3) less.prems(2) by (simp_all add: rest_def)
  have len: "length data - length got = length rest" by (simp add: data(1))
  have flag: "\<not> lineBreakBeforeNextHeader s1" using r(6) less.prems(6) by simp
  have "length data \<noteq> 0" using less.prems(3) by simp
  then have step: "fixedLoop m n acc (length data) s =
      (if 0 < length rest then
         if length got < m then fixedLoop (m - length got) (n - length got) (acc @ got) (length rest) s1
         else (Ready (acc @ got), length rest, s1)
       else (Ready (acc @ got), length rest, finishRead s1))"
    by (subst fixedLoop.simps) (use r(1) got len in \<open>simp add: Let_def\<close>)
  show ?case
  proof (cases "rest = []")
    case True
    then show ?thesis
      using step data r(3,5) flag idle_finishRead [OF r(5), of later]
      by (auto simp: pendingBreak_def finishRead_def)
  next
    case False
    show ?thesis
    proof (cases "length got < m")
      case True
      have "length rest < length data" "1 \<le> m - length got" "m - length got \<le> n - length got"
        using got True less.prems(5) by (simp_all add: data(1))
      from less.hyps [OF this(1) r(5) data(2) False this(2,3) flag, of "acc @ got"]
      obtain got2 rest2 s2 where h: "fixedLoop (m - length got) (n - length got) (acc @ got) (length rest) s1 =
          (Ready ((acc @ got) @ got2), length rest2, s2)" "rest = got2 @ rest2" "length got2 \<le> n - length got"
        "length got2 < m - length got \<longrightarrow> rest2 = []" "body_holds later (FixedBody (length rest2) True, s2) rest2" by blast
      then show ?thesis
        using step False True r(3) less.prems(5)
        by (intro exI [of _ "got @ got2"] exI [of _ rest2] exI [of _ s2]) (auto simp: data(1))
    next
      case enough: False
      then show ?thesis using step False data r(3,5) flag by auto
    qed
  qed
qed

lemma chunkLoop_reads:
  assumes "chunksHold chunkSize s data later" and "1 \<le> m" and "m \<le> n"
  shows "\<exists>got rest size' fin s'. chunkLoop fresh m n acc chunkSize False s = (Ready (acc @ got), (size', fin), s') \<and>
    data = got @ rest \<and> length got \<le> n \<and> (length got < m \<longrightarrow> rest = [] \<and> fin) \<and>
    body_holds later (ChunkedBody size' True fin, s') rest"
  using assms
proof (induction "available s" arbitrary: chunkSize s data m n acc rule: less_induct)
  case less
  obtain d ps where h: "inMessage s" "list_all pieceOk ps" "length d = chunkSize" "data = d @ concat ps"
    "if d = [] then restOf s = pendingBreak s @ chunksText ps @ lastChunk @ later
     else lineBreakBeforeNextHeader s \<and> restOf s = d @ CRLF @ chunksText ps @ lastChunk @ later"
    using less.prems(1) by (auto simp: chunksHold_def)
  show ?case
  proof (cases "d = []")
    case True
    then have size: "chunkSize = 0" using h(3) by simp
    have rest: "restOf s = pendingBreak s @ chunksText ps @ lastChunk @ later" using h(5) True by simp
    show ?thesis
    proof (cases ps)
      case Nil
      have zero: "hexText 0 = ''0''" by (simp add: hexText_def hexImpl_def digitLoop_def)
      have "restOf s = pendingBreak s @ hexText 0 @ CRLF @ CRLF @ later" using rest Nil by (simp add: zero lastChunk_def)
      from readChunkHeader_reads [OF h(1) _ this, of fresh] obtain s1 where
        s1: "readChunkHeader fresh s = (Ready 0, s1)" "restOf s1 = CRLF @ later" "inMessage s1" "lineBreakBeforeNextHeader s1"
        by auto
      have "chunkLoop fresh m n acc chunkSize False s = (Ready acc, (0, True), finishRead s1)"
        by (subst chunkLoop.simps) (simp add: size s1(1))
      moreover have "idle (finishRead s1) later" by (rule idle_finishRead [OF s1(3)]) (simp add: s1 pendingBreak_def)
      ultimately show ?thesis using h(4) True Nil by auto
    next
      case (Cons p qs)
      have p: "p \<noteq> []" "length p < 2 ^ 64" using h(2) Cons by (simp_all add: pieceOk_def)
      have "restOf s = pendingBreak s @ hexText (length p) @ CRLF @ p @ CRLF @ chunksText qs @ lastChunk @ later"
        using rest Cons by simp
      from readChunkHeader_reads [OF h(1) p(2) this, of fresh] obtain s1 where
        s1: "readChunkHeader fresh s = (Ready (word_of_nat (length p)), s1)"
        "restOf s1 = p @ CRLF @ chunksText qs @ lastChunk @ later" "inMessage s1" "lineBreakBeforeNextHeader s1" by blast
      have un: "unat (word_of_nat (length p) :: uint64) = length p" using p(2) by (simp only: unat_of_nat) simp
      then have "(word_of_nat (length p) :: uint64) \<noteq> 0" using p(1) by (metis length_0_conv unat_0)
      then have step: "chunkLoop fresh m n acc chunkSize False s = chunkLoop fresh m n acc (length p) False s1"
        by (subst chunkLoop.simps) (simp add: size s1(1) un)
      have "chunksHold (length p) s1 data later"
        unfolding chunksHold_def
        by (rule conjI [OF s1(3)], rule exI [of _ p], rule exI [of _ qs]) (use h(2,4) s1 True Cons p in simp)
      from less.hyps [OF readChunkHeader_available [OF s1(1)] this less.prems(2,3), of acc]
      show ?thesis unfolding step .
    qed
  next
    case False
    then have size: "chunkSize \<noteq> 0" using h(3) by auto
    have rest: "restOf s = d @ CRLF @ chunksText ps @ lastChunk @ later" "lineBreakBeforeNextHeader s" using h(5) False by simp_all
    have n: "1 \<le> min n chunkSize" using size less.prems(2,3) by simp
    obtain got s1 where r: "input_tryRead 1 (min n chunkSize) s = (Ready got, s1)" "restOf s = got @ restOf s1"
      "length got \<le> min n chunkSize" "length got < 1 \<longrightarrow> restOf s1 = []" "inMessage s1"
      "lineBreakBeforeNextHeader s1 = lineBreakBeforeNextHeader s"
      using input_tryRead_rest [OF h(1) order.refl n] by blast
    have got: "got \<noteq> []" using r(2,4) rest(1) False by auto
    define d1 where "d1 = drop (length got) d"
    have d: "d = got @ d1" "restOf s1 = d1 @ CRLF @ chunksText ps @ lastChunk @ later"
      using split_front [of d _ got "restOf s1"] r(2,3) rest(1) h(3) by (auto simp: d1_def)
    have left: "chunkSize - length got = length d1" using h(3) by (simp add: d(1))
    have hold: "chunksHold (length d1) s1 (d1 @ concat ps) later"
      unfolding chunksHold_def
      by (rule conjI [OF r(5)], rule exI [of _ d1], rule exI [of _ ps])
        (use h(2) d(2) rest(2) r(6) in \<open>simp add: pendingBreak_def\<close>)
    have step: "chunkLoop fresh m n acc chunkSize False s =
        (if length got < m then chunkLoop fresh (m - length got) (n - length got) (acc @ got) (length d1) False s1
         else (Ready (acc @ got), (length d1, False), s1))"
      by (subst chunkLoop.simps) (use size r(1) got left in \<open>simp add: Let_def\<close>)
    show ?thesis
    proof (cases "length got < m")
      case True
      have "1 \<le> m - length got" "m - length got \<le> n - length got" using True less.prems(3) by simp_all
      from less.hyps [OF input_tryRead_progress [OF r(1) got] hold this, of "acc @ got"]
      obtain got2 rest2 size2 fin s2 where e: "chunkLoop fresh (m - length got) (n - length got) (acc @ got) (length d1) False s1 =
          (Ready ((acc @ got) @ got2), (size2, fin), s2)" "d1 @ concat ps = got2 @ rest2" "length got2 \<le> n - length got"
        "length got2 < m - length got \<longrightarrow> rest2 = [] \<and> fin" "body_holds later (ChunkedBody size2 True fin, s2) rest2" by blast
      then show ?thesis
        using step True r(3)
        by (intro exI [of _ "got @ got2"] exI [of _ rest2] exI [of _ size2] exI [of _ fin] exI [of _ s2])
          (auto simp: h(4) d(1))
    next
      case enough: False
      then show ?thesis
        using step hold r(3)
        by (intro exI [of _ got] exI [of _ "d1 @ concat ps"] exI [of _ "length d1"] exI [of _ False] exI [of _ s1])
          (auto simp: h(4) d(1))
    qed
  qed
qed

text \<open>\<open>tryRead\<close> of a body and its connection.\<close>

definition body_tryRead :: "(nat \<Rightarrow> char) \<Rightarrow> nat \<Rightarrow> nat \<Rightarrow> body \<times> HttpInput \<Rightarrow> char list http \<times> body \<times> HttpInput" where
  "body_tryRead fresh minBytes maxBytes bs = body_read fresh minBytes maxBytes (fst bs) (snd bs)"

interpretation http_body: input_stream "body_tryRead fresh" "body_holds later" "\<lambda>bs. body_finished (fst bs)"
  for fresh later
proof
  fix bs :: "body \<times> HttpInput" and data :: string and m n :: nat
  assume h: "body_holds later bs data" and m: "1 \<le> m" and mn: "m \<le> n"
  obtain b s where bs: "bs = (b, s)" by force
  show "\<exists>got bs' rest. body_tryRead fresh m n bs = (Ready got, bs') \<and> data = got @ rest \<and> length got \<le> n \<and>
      (length got < m \<longrightarrow> rest = [] \<and> body_finished (fst bs')) \<and> body_holds later bs' rest"
  proof (cases b)
    case (NullBody len)
    then show ?thesis using h bs by (simp add: body_tryRead_def body_read_def)
  next
    case (CloseBody fin)
    show ?thesis
    proof (cases fin)
      case True
      then show ?thesis using h bs CloseBody by (simp add: body_tryRead_def body_read_def)
    next
      case False
      then have s: "inMessage s" "restOf s = data" "later = []" "\<not> lineBreakBeforeNextHeader s" using h bs CloseBody by simp_all
      obtain got s1 where r: "input_tryRead m n s = (Ready got, s1)" "restOf s = got @ restOf s1" "length got \<le> n"
        "length got < m \<longrightarrow> restOf s1 = []" "inMessage s1" "lineBreakBeforeNextHeader s1 = lineBreakBeforeNextHeader s"
        using input_tryRead_rest [OF s(1) m mn] by blast
      have "idle (finishRead s1) []" if "restOf s1 = []"
        by (rule idle_finishRead [OF r(5)]) (use that r(6) s(4) in \<open>simp add: pendingBreak_def\<close>)
      then show ?thesis
        using r s bs CloseBody False by (auto simp: body_tryRead_def body_read_def finishRead_def)
    qed
  next
    case (FixedBody len clean)
    show ?thesis
    proof (cases "data = []")
      case True
      then show ?thesis using h bs FixedBody by (simp add: body_tryRead_def body_read_def fixedLoop.simps)
    next
      case False
      then have s: "inMessage s" "restOf s = data @ later" "\<not> lineBreakBeforeNextHeader s" "clean" "len = length data"
        using h bs FixedBody by simp_all
      obtain got rest s1 where r: "fixedLoop m n [] (length data) s = (Ready ([] @ got), length rest, s1)" "data = got @ rest"
        "length got \<le> n" "length got < m \<longrightarrow> rest = []" "body_holds later (FixedBody (length rest) True, s1) rest"
        using fixedLoop_reads [OF s(1,2) False m mn s(3), of "[]"] by blast
      have "body_tryRead fresh m n bs = (Ready got, FixedBody (length rest) True, s1)"
        using r(1) s(4,5) bs FixedBody by (simp add: body_tryRead_def body_read_def)
      then show ?thesis
        using r(2-5) by (intro exI [of _ got] exI [of _ "(FixedBody (length rest) True, s1)"] exI [of _ rest]) simp
    qed
  next
    case (ChunkedBody size clean fin)
    show ?thesis
    proof (cases fin)
      case True
      then show ?thesis using h bs ChunkedBody by (simp add: body_tryRead_def body_read_def chunkLoop.simps)
    next
      case False
      then have s: "chunksHold size s data later" clean using h bs ChunkedBody by simp_all
      obtain got rest size' fin' s1 where r:
        "chunkLoop fresh m n [] size False s = (Ready ([] @ got), (size', fin'), s1)" "data = got @ rest"
        "length got \<le> n" "length got < m \<longrightarrow> rest = [] \<and> fin'" "body_holds later (ChunkedBody size' True fin', s1) rest"
        using chunkLoop_reads [OF s(1) m mn, of fresh "[]"] by blast
      have "body_tryRead fresh m n bs = (Ready got, ChunkedBody size' True fin', s1)"
        using r(1) s(2) False bs ChunkedBody by (simp add: body_tryRead_def body_read_def)
      then show ?thesis
        using r(2-5) by (intro exI [of _ got] exI [of _ "(ChunkedBody size' True fin', s1)"] exI [of _ rest]) simp
    qed
  qed
qed

text \<open>A body that has been read to its end leaves the stream ready for the next message.\<close>

lemma body_end: "body_holds later (b, s) [] \<Longrightarrow> body_finished b \<Longrightarrow> idle (body_destroy b s) later"
  by (cases b) (auto simp: body_destroy_def split: if_splits)

section \<open>The text of a message\<close>

definition headerLines :: "string list \<Rightarrow> string" where
  "headerLines ls = concat (map (\<lambda>l. l @ CRLF) ls) @ CRLF"

definition lineOk :: "string \<Rightarrow> bool" where
  "lineOk l \<longleftrightarrow> l \<noteq> [] \<and> CR \<notin> set l \<and> LF \<notin> set l"

lemma ends_behind_line:
  "list_all lineOk ls \<Longrightarrow> i < length (headerLines ls) \<Longrightarrow>
   ends MESSAGE (CR # LF # headerLines ls) (i + 2) \<longleftrightarrow> i = length (headerLines ls) - 1"
proof (induction ls arbitrary: i)
  case Nil
  then have "i = 0 \<or> i = 1" by (auto simp: headerLines_def)
  then show ?case by (auto simp: headerLines_def ends_def)
next
  case (Cons l ls)
  define u where "u = headerLines ls"
  have t: "headerLines (l # ls) = l @ CR # LF # u" by (simp add: headerLines_def u_def)
  have u: "2 \<le> length u" by (simp add: u_def headerLines_def)
  have ok: "l \<noteq> []" "LF \<notin> set l" using Cons.prems(1) by (simp_all add: lineOk_def)
  have l: "l \<noteq> []" "\<And>j. j < length l \<Longrightarrow> l ! j \<noteq> LF" using ok by (metis nth_mem)+
  consider "i < length l" | "i = length l" | "i = length l + 1" | j where "i = length l + 2 + j"
    by (metis less_or_eq_imp_le linorder_neqE_nat nat_less_le not_less Suc_eq_plus1 add_2_eq_Suc' less_Suc_eq le_add_diff_inverse)
  then show ?case
  proof cases
    case 1
    then show ?thesis using l u by (simp add: t ends_def nth_append)
  next
    case 2
    then show ?thesis using u by (simp add: t ends_def)
  next
    case 3
    obtain l' c where c: "l = l' @ [c]" "c \<noteq> LF" using l by (metis append_butlast_last_id last_conv_nth length_greater_0_conv diff_less zero_less_one)
    then have e: "headerLines (l # ls) = l' @ [c] @ CR # LF # u" "i = length l' + 2" using t 3 by simp_all
    show ?thesis unfolding e using u c(2) by (cases u) (simp_all add: ends_def nth_append)
  next
    case (4 j)
    have "(CR # LF # l @ CR # LF # u) ! (length l + 2 + k) = (CR # LF # u) ! k" for k
    proof -
      have "CR # LF # l @ CR # LF # u = (CR # LF # l) @ (CR # LF # u)" by simp
      moreover have "length (CR # LF # l) = length l + 2" by simp
      ultimately show ?thesis by (metis nth_append_length_plus)
    qed
    from this [of "j + 2"] this [of "j + 1"] this [of j]
    have "ends MESSAGE (CR # LF # headerLines (l # ls)) (i + 2) \<longleftrightarrow> ends MESSAGE (CR # LF # u) (j + 2)"
      by (simp add: t 4 ends_def add.assoc)
    also have "\<dots> \<longleftrightarrow> j = length u - 1" unfolding u_def using Cons.IH [of j] Cons.prems 4 by (simp add: t u_def)
    finally show ?thesis using 4 u by (auto simp: t)
  qed
qed

lemma terminated_message:
  assumes "list_all lineOk ls" and "ls \<noteq> []" and "length (headerLines ls) \<le> MAX_BUFFER"
  shows "terminated MESSAGE (headerLines ls)"
proof -
  obtain l rest where ls: "ls = l # rest" using assms(2) by (cases ls) auto
  have ok: "l \<noteq> []" "CR \<notin> set l" "LF \<notin> set l" using assms(1) by (simp_all add: ls lineOk_def)
  have l: "l \<noteq> []" "l ! 0 \<noteq> CR" "l ! 0 \<noteq> LF" using ok by (metis length_greater_0_conv nth_mem)+
  have first: "headerLines ls ! 0 \<noteq> CR" "headerLines ls ! 0 \<noteq> LF"
    using l by (simp_all add: ls headerLines_def nth_append)
  have "ends MESSAGE (headerLines ls) i \<longleftrightarrow> ends MESSAGE (CR # LF # headerLines ls) (i + 2)" for i
  proof -
    consider "i = 0" | "i = 1" | "2 \<le> i" by linarith
    then show ?thesis by cases (use first in \<open>auto simp: ends_def numeral_2_eq_2 nth_Cons split: nat.splits\<close>)
  qed
  then have "\<forall>i < length (headerLines ls). ends MESSAGE (headerLines ls) i \<longleftrightarrow> i = length (headerLines ls) - 1"
    using ends_behind_line [OF assms(1)] by simp
  moreover have "5 \<le> length (headerLines ls)" using l(1) by (cases l) (simp_all add: ls headerLines_def)
  ultimately show ?thesis using first assms(3) by (simp add: terminated_def headerLimit_def)
qed

lemma headerLines_butlast: "headerLines ls = concat (map (\<lambda>l. l @ CRLF) ls) @ CRLF"
  by (simp add: headerLines_def)

lemma readMessageHeaders_reads:
  assumes "idle s (headerLines ls @ later)" and "list_all lineOk ls" and "ls \<noteq> []"
    and "length (headerLines ls) \<le> MAX_BUFFER"
  shows "\<exists>s'. readMessageHeaders fresh s = (Ready (butlast (butlast (headerLines ls))), s') \<and> inMessage s' \<and>
    restOf s' = later \<and> \<not> lineBreakBeforeNextHeader s'"
proof -
  let ?s = "s\<lparr>pendingMessageCount := 1, onMessageDone := True\<rparr>"
  let ?text = "concat (map (\<lambda>l. l @ CRLF) ls)"
  have s: "bufferOk s" "\<not> onMessageDone s" "\<not> broken s" "pendingMessageCount s = 0" "restOf s = pendingBreak s @ headerLines ls @ later"
    using assms(1) by (simp_all add: idle_def)
  note t = terminated_message [OF assms(2,3,4)]
  have w: "window MESSAGE 0 0 ?s" using s(1) by (simp add: window_def bufferOk_def)
  have "headerLines ls \<noteq> []" by (simp add: headerLines_def)
  then have "upcoming ?s (subarray 0 0 (headerBuffer ?s)) (headerLines ls) later"
    using s(5) by (simp add: upcoming_def pendingBreak_def restOf_def leftover_def)
  from readHeader_terminated [OF t headerLines_butlast w this, of fresh] obtain s' where
    s': "readHeader fresh MESSAGE 0 0 ?s = (Ready ?text, s')" "headerRead MESSAGE ?s later s'" by blast
  have "readMessageHeaders fresh s = (Ready ?text, s')"
    using s s'(1) by (simp add: readMessageHeaders_def Let_def)
  moreover have "butlast (butlast (headerLines ls)) = ?text" by (simp add: headerLines_def butlast_append)
  moreover have "inMessage s'"
    using s'(2) s(3) by (simp add: headerRead_def inMessage_def sameMessage_def)
  ultimately show ?thesis using s'(2) by (simp add: headerRead_def)
qed

text \<open>A new connection is between messages.\<close>

lemma idle_new: "idle (newHttpInput fresh chunks) (concat chunks)"
  by (simp add: idle_def newHttpInput_def bufferOk_def restOf_def leftover_def pendingBreak_def MIN_BUFFER_def)

end
