(* ===== verification/Http_Output.thy ===== *)
theory Http_Output
  imports Http_Bodies
begin

text \<open>The writing side of an HTTP/1 connection: \<open>HttpOutputStream\<close> of http.cc and the writers of entity bodies, which
  fulfil the contract of \<open>AsyncOutputStream\<close>.\<close>

section \<open>The connection\<close>

text \<open>\<open>written\<close> is what the write queue has passed to the stream. Once the queue holds an exception
  (\<open>outputBroken\<close>), nothing more is passed on.\<close>

record HttpOutput =
  written :: string
  inBody :: bool
  outputBroken :: bool
  writeInProgress :: bool

definition newHttpOutput :: HttpOutput where
  "newHttpOutput = \<lparr>written = [], inBody = False, outputBroken = False, writeInProgress = False\<rparr>"

definition output_canReuse :: "HttpOutput \<Rightarrow> bool" where
  "output_canReuse out \<longleftrightarrow> \<not> inBody out \<and> \<not> outputBroken out \<and> \<not> writeInProgress out"

definition canWriteBodyData :: "HttpOutput \<Rightarrow> bool" where
  "canWriteBodyData out \<longleftrightarrow> \<not> writeInProgress out \<and> inBody out"

definition queueWrite :: "string \<Rightarrow> HttpOutput \<Rightarrow> HttpOutput" where
  "queueWrite content out = (if outputBroken out then out else out\<lparr>written := written out @ content\<rparr>)"

definition writeHeaders :: "string \<Rightarrow> HttpOutput \<Rightarrow> unit http \<times> HttpOutput" where
  "writeHeaders content out =
     (if writeInProgress out then (Threw ''concurrent write()s not allowed'', out)
      else if inBody out then (Threw ''previous HTTP message body incomplete; can't write more messages'', out)
      else (Ready (), queueWrite content (out\<lparr>inBody := True\<rparr>)))"

definition writeBodyText :: "string \<Rightarrow> HttpOutput \<Rightarrow> unit http \<times> HttpOutput" where
  "writeBodyText content out =
     (if writeInProgress out then (Threw ''concurrent write()s not allowed'', out)
      else if \<not> inBody out then (Threw ''inBody'', out)
      else (Ready (), queueWrite content out))"

text \<open>A write of body data that the stream accepts. If it is canceled or fails after some bytes, \<open>writeInProgress\<close>
  stays set.\<close>

definition writeBodyData :: "string \<Rightarrow> HttpOutput \<Rightarrow> unit http \<times> HttpOutput" where
  "writeBodyData content out =
     (if writeInProgress out then (Threw ''concurrent write()s not allowed'', out)
      else if \<not> inBody out then (Threw ''inBody'', out)
      else if outputBroken out then
        (Threw ''previous HTTP message body incomplete; can't write more messages'', out\<lparr>writeInProgress := True\<rparr>)
      else (Ready (), out\<lparr>written := written out @ content\<rparr>))"

definition writeBodyData_fails :: "nat \<Rightarrow> string \<Rightarrow> HttpOutput \<Rightarrow> unit http \<times> HttpOutput" where
  "writeBodyData_fails n content out =
     (if writeInProgress out then (Threw ''concurrent write()s not allowed'', out)
      else if \<not> inBody out then (Threw ''inBody'', out)
      else (Threw ''write failed'', queueWrite (take n content) (out\<lparr>writeInProgress := True\<rparr>)))"

definition finishBody :: "HttpOutput \<Rightarrow> HttpOutput" where
  "finishBody out =
     (if \<not> inBody out then out
      else out\<lparr>inBody := False, outputBroken := outputBroken out \<or> writeInProgress out\<rparr>)"

definition abortBody :: "HttpOutput \<Rightarrow> HttpOutput" where
  "abortBody out = (if \<not> inBody out then out else out\<lparr>inBody := False, outputBroken := True\<rparr>)"

section \<open>Body writers\<close>

datatype writer =
  NullWriter
| DiscardingWriter
| FixedWriter nat bool
| ChunkedWriter bool

definition newFixedWriter :: "nat \<Rightarrow> HttpOutput \<Rightarrow> writer \<times> HttpOutput" where
  "newFixedWriter len out = (FixedWriter len (len = 0), if len = 0 then finishBody out else out)"

definition chunkText :: "char list \<Rightarrow> string" where
  "chunkText p = hexText (length p) @ CRLF @ p @ CRLF"

definition writer_put :: "char list \<Rightarrow> writer \<times> HttpOutput \<Rightarrow> unit http \<times> writer \<times> HttpOutput" where
  "writer_put buffer wout =
     (case wout of (w, out) \<Rightarrow>
        (case w of
           NullWriter \<Rightarrow> (Threw ''HTTP message has no entity-body; can't write()'', w, out)
         | DiscardingWriter \<Rightarrow> (Ready (), w, out)
         | FixedWriter len finished \<Rightarrow>
             if buffer = [] then (Ready (), w, out)
             else if len < length buffer then (Threw ''overwrote Content-Length'', w, out)
             else
               (case writeBodyData buffer out of
                  (Ready _, out) \<Rightarrow>
                    let len = len - length buffer in
                    (Ready (), FixedWriter len (finished \<or> len = 0), if len = 0 then finishBody out else out)
                | (failed, out) \<Rightarrow> (failed, FixedWriter (len - length buffer) finished, out))
         | ChunkedWriter finished \<Rightarrow>
             if buffer = [] then (Ready (), w, out)
             else (case writeBodyData (chunkText buffer) out of (r, out) \<Rightarrow> (r, w, out))))"

definition writer_putPieces :: "char list list \<Rightarrow> writer \<times> HttpOutput \<Rightarrow> unit http \<times> writer \<times> HttpOutput" where
  "writer_putPieces pieces wout =
     (case wout of (w, out) \<Rightarrow>
        let size = sum_list (map length pieces) in
        (case w of
           NullWriter \<Rightarrow> (Threw ''HTTP message has no entity-body; can't write()'', w, out)
         | DiscardingWriter \<Rightarrow> (Ready (), w, out)
         | FixedWriter len finished \<Rightarrow>
             if size = 0 then (Ready (), w, out)
             else if len < size then (Threw ''overwrote Content-Length'', w, out)
             else
               (case writeBodyData (concat pieces) out of
                  (Ready _, out) \<Rightarrow>
                    (Ready (), FixedWriter (len - size) (finished \<or> len - size = 0), if len - size = 0 then finishBody out else out)
                | (failed, out) \<Rightarrow> (failed, FixedWriter (len - size) finished, out))
         | ChunkedWriter finished \<Rightarrow>
             if size = 0 then (Ready (), w, out)
             else (case writeBodyData (concat ([hexText size @ CRLF] @ pieces @ [CRLF])) out of (r, out) \<Rightarrow> (r, w, out))))"

definition writer_destroy :: "writer \<times> HttpOutput \<Rightarrow> HttpOutput" where
  "writer_destroy wout =
     (case wout of (w, out) \<Rightarrow>
        (case w of
           NullWriter \<Rightarrow> out
         | DiscardingWriter \<Rightarrow> out
         | FixedWriter len finished \<Rightarrow> if finished then out else abortBody out
         | ChunkedWriter finished \<Rightarrow>
             if finished then out
             else if canWriteBodyData out then finishBody (snd (writeBodyText (''0'' @ CRLF @ CRLF) out))
             else abortBody out))"

section \<open>Pumping into a body\<close>

definition connection_put :: "string \<Rightarrow> HttpOutput \<Rightarrow> unit http \<times> HttpOutput" where
  "connection_put content out = (Ready (), out\<lparr>written := written out @ content\<rparr>)"

definition pumpBodyFrom :: "(nat \<Rightarrow> nat \<Rightarrow> 's \<Rightarrow> string http \<times> 's) \<Rightarrow> nat \<Rightarrow> 's \<times> HttpOutput \<Rightarrow>
    nat http \<times> 's \<times> HttpOutput" where
  "pumpBodyFrom read amount so =
     (case so of (s, out) \<Rightarrow>
        if writeInProgress out then (Threw ''concurrent write()s not allowed'', s, out)
        else if \<not> inBody out then (Threw ''inBody'', s, out)
        else if outputBroken out then
          (Threw ''previous HTTP message body incomplete; can't write more messages'', s, out\<lparr>writeInProgress := True\<rparr>)
        else
          (case asyncPump read connection_put amount 0 (s, out) of
             (Ready actual, s, out) \<Rightarrow> (Ready actual, s, out)
           | (failed, s, out) \<Rightarrow> (failed, s, out\<lparr>writeInProgress := True\<rparr>)))"

text \<open>\<open>HttpChunkedEntityWriter::pumpImpl\<close>: the input says that it has \<open>len\<close> bytes.\<close>

definition chunked_pumpImpl :: "(nat \<Rightarrow> nat \<Rightarrow> 's \<Rightarrow> string http \<times> 's) \<Rightarrow> nat \<Rightarrow> 's \<times> HttpOutput \<Rightarrow>
    nat http \<times> 's \<times> HttpOutput" where
  "chunked_pumpImpl read len so =
     (case so of (s, out) \<Rightarrow>
        awaiting (case writeBodyText (hexText len @ CRLF) out of (r, out) \<Rightarrow> (r, s, out)) (\<lambda>_ so.
        awaiting (pumpBodyFrom read len so) (\<lambda>actual so.
          if actual < len then
            (Threw ''value returned by input.tryGetLength() was greater than actual bytes transferred'',
             fst so, abortBody (snd so))
          else
            awaiting (case writeBodyText CRLF (snd so) of (r, out) \<Rightarrow> (r, fst so, out)) (\<lambda>_ so. (Ready actual, so)))))"

definition chunked_tryPumpFrom :: "(nat \<Rightarrow> nat \<Rightarrow> 's \<Rightarrow> string http \<times> 's) \<Rightarrow> nat option \<Rightarrow> nat \<Rightarrow> 's \<times> HttpOutput \<Rightarrow>
    (nat http \<times> 's \<times> HttpOutput) option" where
  "chunked_tryPumpFrom read known amount so =
     map_option (\<lambda>len. chunked_pumpImpl read (min amount len) so) known"

definition fixed_pumpFrom :: "(nat \<Rightarrow> nat \<Rightarrow> 's \<Rightarrow> string http \<times> 's) \<Rightarrow> nat option \<Rightarrow> nat \<Rightarrow> nat \<Rightarrow> bool \<Rightarrow> 's \<times> HttpOutput \<Rightarrow>
    nat http \<times> writer \<times> 's \<times> HttpOutput" where
  "fixed_pumpFrom read known amount len finished so =
     (if amount = 0 then (Ready 0, FixedWriter len finished, so)
      else if len < amount \<and> (case known of Some a \<Rightarrow> len < a | None \<Rightarrow> False) then
        (Threw ''overwrote Content-Length'', FixedWriter len finished, so)
      else
      let overshot = len < amount; amount = min amount len;
          check = (\<lambda>actual w so.
            if overshot \<and> actual = amount then
              (case read 1 1 (fst so) of
                 (Ready extra, s) \<Rightarrow>
                   if extra = [] then (Ready actual, w, s, snd so) else (Threw ''overwrote Content-Length'', w, s, snd so)
               | (failed, s) \<Rightarrow> (failing failed, w, s, snd so))
            else (Ready actual, w, so))
      in if amount = 0 then check 0 (FixedWriter len finished) so
         else
           (case pumpBodyFrom read amount so of
              (Ready actual, s, out) \<Rightarrow>
                let left = len - amount + (amount - actual) in
                check actual (FixedWriter left (finished \<or> left = 0)) (s, if left = 0 then finishBody out else out)
            | (failed, so) \<Rightarrow> (failed, FixedWriter (len - amount) finished, so)))"

section \<open>Writers are output streams\<close>

definition open_output :: "HttpOutput \<Rightarrow> bool" where
  "open_output out \<longleftrightarrow> \<not> outputBroken out \<and> \<not> writeInProgress out"

fun writer_accepts :: "string \<Rightarrow> writer \<times> HttpOutput \<Rightarrow> char list \<Rightarrow> nat \<Rightarrow> bool" where
  "writer_accepts base (FixedWriter len fin, out) data room \<longleftrightarrow> len = room \<and> (fin \<longleftrightarrow> room = 0) \<and> open_output out \<and>
     inBody out = (room \<noteq> 0) \<and> written out = base @ data"
| "writer_accepts base (ChunkedWriter fin, out) data room \<longleftrightarrow> \<not> fin \<and> open_output out \<and> inBody out \<and> room < 2 ^ 64 \<and>
     (\<exists>ps. list_all pieceOk ps \<and> data = concat ps \<and> written out = base @ chunksText ps)"
| "writer_accepts base (w, out) data room \<longleftrightarrow> False"

lemma chunksText_snoc: "chunksText (ps @ [p]) = chunksText ps @ chunkText p"
  by (induction ps) (simp_all add: chunkText_def)

interpretation http_writer: output_stream writer_put "writer_accepts base" for base
proof
  fix wout :: "writer \<times> HttpOutput" and data part :: string and room :: nat
  assume h: "writer_accepts base wout data room" and l: "length part \<le> room" and p: "part \<noteq> []"
  obtain w out where w: "wout = (w, out)" by force
  show "\<exists>out'. writer_put part wout = (Ready (), out') \<and> writer_accepts base out' (data @ part) (room - length part)"
  proof (cases w)
    case (FixedWriter len fin)
    then show ?thesis
      using h l p w by (cases "room = length part")
        (auto simp: writer_put_def writeBodyData_def open_output_def finishBody_def Let_def)
  next
    case (ChunkedWriter fin)
    then obtain ps where ps: "list_all pieceOk ps" "data = concat ps" "written out = base @ chunksText ps" "open_output out"
      "inBody out" "\<not> fin" "room < 2 ^ 64" using h w by auto
    let ?out = "out\<lparr>written := written out @ chunkText part\<rparr>"
    have "writer_put part wout = (Ready (), ChunkedWriter fin, ?out)"
      using ps p w ChunkedWriter by (simp add: writer_put_def writeBodyData_def open_output_def)
    moreover have "writer_accepts base (ChunkedWriter fin, ?out) (data @ part) (room - length part)"
      using ps p l by (auto simp: open_output_def pieceOk_def chunksText_snoc intro!: exI [of _ "ps @ [part]"])
    ultimately show ?thesis by blast
  qed (use h w in simp_all)
qed

interpretation http_proxy: stream_pair "body_tryRead fresh" "body_holds later" "\<lambda>bs. body_finished (fst bs)"
    writer_put "writer_accepts base"
  for fresh later base ..

lemma writer_put_pieces:
  assumes "writer_accepts base wout data room"
  shows "writer_putPieces pieces wout = writer_put (concat pieces) wout"
proof -
  obtain w out where w: "wout = (w, out)" by force
  have size: "sum_list (map length pieces) = length (concat pieces)" by (simp add: length_concat)
  show ?thesis
    using assms w by (cases w) (auto simp: writer_putPieces_def writer_put_def size chunkText_def Let_def split: prod.splits awaited.splits)
qed

section \<open>What has failed stays silent\<close>

text \<open>The operations on a connection, as the writers and the client use them.\<close>

inductive output_step :: "HttpOutput \<Rightarrow> HttpOutput \<Rightarrow> bool" where
  headers: "output_step out (snd (writeHeaders content out))"
| body_text: "output_step out (snd (writeBodyText content out))"
| body_data: "output_step out (snd (writeBodyData content out))"
| fails: "output_step out (snd (writeBodyData_fails n content out))"
| put: "output_step out (snd (snd (writer_put buffer (w, out))))"
| pieces: "output_step out (snd (snd (writer_putPieces pieces (w, out))))"
| destroy: "output_step out (writer_destroy (w, out))"
| pumps: "output_step out (snd (snd (pumpBodyFrom (body_tryRead fresh) amount (bs, out))))"
| chunked: "output_step out (snd (snd (chunked_pumpImpl (body_tryRead fresh) len (bs, out))))"
| finish: "output_step out (finishBody out)"
| abort: "output_step out (abortBody out)"

definition silenced :: "HttpOutput \<Rightarrow> HttpOutput \<Rightarrow> bool" where
  "silenced out out' \<longleftrightarrow> ((writeInProgress out \<or> outputBroken out) \<longrightarrow>
     (writeInProgress out' \<or> outputBroken out') \<and> written out' = written out)"

lemma silenced_trans: "silenced a b \<Longrightarrow> silenced b c \<Longrightarrow> silenced a c"
  by (auto simp: silenced_def)

lemma silenced_ops:
  "silenced out (snd (writeHeaders content out))" "silenced out (snd (writeBodyText content out))"
  "silenced out (snd (writeBodyData content out))" "silenced out (snd (writeBodyData_fails n content out))"
  "silenced out (finishBody out)" "silenced out (abortBody out)" "silenced out out"
  by (auto simp: silenced_def writeHeaders_def writeBodyText_def writeBodyData_def writeBodyData_fails_def queueWrite_def
      finishBody_def abortBody_def)

lemma silenced_finish:
  "silenced out (snd (writeBodyData content out)) \<Longrightarrow> silenced out (finishBody (snd (writeBodyData content out)))"
  using silenced_trans silenced_ops(5) by blast

lemma silenced_put: "silenced out (snd (snd (writer_put buffer (w, out))))"
  using silenced_ops(3) [of out buffer] silenced_ops(3) [of out "chunkText buffer"] silenced_finish [of out buffer]
  by (auto simp: writer_put_def silenced_ops(7) Let_def split: writer.split awaited.split prod.split)

lemma silenced_pieces: "silenced out (snd (snd (writer_putPieces pieces (w, out))))"
  using silenced_ops(3) [of out "concat pieces"] silenced_finish [of out "concat pieces"]
    silenced_ops(3) [of out "concat ([hexText (sum_list (map length pieces)) @ CRLF] @ pieces @ [CRLF])"]
  by (auto simp: writer_putPieces_def silenced_ops(7) Let_def split: writer.split awaited.split prod.split)

lemma silenced_destroy: "silenced out (writer_destroy (w, out))"
  using silenced_trans [OF silenced_ops(2) silenced_ops(5)] silenced_ops(6,7)
  by (auto simp: writer_destroy_def split: writer.split)

lemma silenced_pump: "silenced out (snd (snd (pumpBodyFrom read amount (s, out))))"
  by (auto simp: silenced_def pumpBodyFrom_def)

lemma silenced_chunked: "silenced out (snd (snd (chunked_pumpImpl read len (s, out))))"
proof (cases "writeInProgress out \<or> outputBroken out")
  case True
  then show ?thesis
    by (auto simp: silenced_def chunked_pumpImpl_def writeBodyText_def queueWrite_def pumpBodyFrom_def)
qed (simp add: silenced_def)

lemma output_step_silenced: "output_step out out' \<Longrightarrow> silenced out out'"
  by (induction rule: output_step.induct)
    (rule silenced_ops silenced_put silenced_pieces silenced_destroy silenced_pump silenced_chunked)+

end
