(* ===== verification/Http_Connection.thy ===== *)
theory Http_Connection
  imports Http_Output
begin

text \<open>A client and the side that reads its requests, over one connection: what is sent is what is received.\<close>

section \<open>The client's requests\<close>

definition CONNECTION_HEADERS_COUNT :: nat where "CONNECTION_HEADERS_COUNT = 7"

text \<open>\<open>zc::str(uint64_t)\<close>.\<close>

definition lengthText :: "nat \<Rightarrow> string" where
  "lengthText n = the (stringify \<lparr>bytes_of = 8, is_signed = False\<rparr> (int n))"

definition client_connectionHeaders :: "HttpMethod \<Rightarrow> HttpHeaders \<Rightarrow> nat option \<Rightarrow> string list \<times> bool" where
  "client_connectionHeaders method headers expectedBodySize =
     (let none = replicate CONNECTION_HEADERS_COUNT []; isGet = (method = GET \<or> method = HEAD) in
      case expectedBodySize of
        Some bodySize \<Rightarrow>
          if isGet \<and> bodySize = 0 then (none, False) else (none[CONTENT_LENGTH := lengthText bodySize], True)
      | None \<Rightarrow>
          if isGet \<and> headers_get TRANSFER_ENCODING headers = None then (none, False)
          else (none[TRANSFER_ENCODING := ''chunked''], True))"

definition client_request :: "HttpHeaderTable \<Rightarrow> bool \<Rightarrow> bool \<Rightarrow> HttpMethod \<Rightarrow> string \<Rightarrow> HttpHeaders \<Rightarrow> nat option \<Rightarrow>
    HttpOutput \<Rightarrow> writer http \<times> HttpOutput" where
  "client_request table upgraded closed method url headers expectedBodySize out =
     (if upgraded then (Threw (''can't make further requests on this HttpClient because it has been or is in the process '' @
                ''of being upgraded''), out)
      else if closed then (Threw ''this HttpClient's connection has been closed by the server or due to an error'', out)
      else if \<not> output_canReuse out then
        (Threw ''can't start new request until previous request body has been fully written'', out)
      else
      let (connectionHeaders, hasBody) = client_connectionHeaders method headers expectedBodySize in
      awaiting (writeHeaders (serializeRequest table method url connectionHeaders headers) out) (\<lambda>_ out.
        if \<not> hasBody then (Ready NullWriter, finishBody out)
        else
          case expectedBodySize of
            Some bodySize \<Rightarrow> (case newFixedWriter bodySize out of (w, out) \<Rightarrow> (Ready w, out))
          | None \<Rightarrow> (Ready (ChunkedWriter False), out)))"

section \<open>A sequence of requests\<close>

text \<open>What a user of the client does: a request with its body in pieces, one after the other.\<close>

record message =
  msg_method :: HttpMethod
  msg_url :: string
  msg_headers :: HttpHeaders
  msg_expected :: "nat option"
  msg_pieces :: "char list list"

fun put_all :: "char list list \<Rightarrow> writer \<times> HttpOutput \<Rightarrow> unit http \<times> writer \<times> HttpOutput" where
  "put_all [] wout = (Ready (), wout)"
| "put_all (p # ps) wout = awaiting (writer_put p wout) (\<lambda>_ wout. put_all ps wout)"

definition send_request :: "HttpHeaderTable \<Rightarrow> message \<Rightarrow> HttpOutput \<Rightarrow> unit http \<times> HttpOutput" where
  "send_request table m out =
     awaiting (client_request table False False (msg_method m) (msg_url m) (msg_headers m) (msg_expected m) out) (\<lambda>w out.
       case put_all (msg_pieces m) (w, out) of (r, wout) \<Rightarrow> (r, writer_destroy wout))"

fun send_requests :: "HttpHeaderTable \<Rightarrow> message list \<Rightarrow> HttpOutput \<Rightarrow> unit http \<times> HttpOutput" where
  "send_requests table [] out = (Ready (), out)"
| "send_requests table (m # ms) out = awaiting (send_request table m out) (\<lambda>_ out. send_requests table ms out)"

text \<open>What a user of the server's side does: read a request, then all of its body.\<close>

definition receive_request :: "(nat \<Rightarrow> char) \<Rightarrow> HttpHeaderTable \<Rightarrow> nat \<Rightarrow> HttpInput \<Rightarrow>
    (HttpMethod \<times> string \<times> HttpHeaders \<times> char list) http \<times> HttpInput" where
  "receive_request fresh table limit s =
     awaiting (readRequestHeaders fresh table s) (\<lambda>rh s.
       case rh of
         (Request method url, h) \<Rightarrow>
           awaiting (getEntityBody REQUEST (Method method) 0 h s) (\<lambda>body s.
             case readAllBytes (body_tryRead fresh) limit [] (body, s) of
               (r, body, s) \<Rightarrow> awaiting (r, body_destroy body s) (\<lambda>data s. (Ready (method, url, h, data), s)))
       | (ConnectRequest authority, h) \<Rightarrow> (Threw ''bad request'', s))"

fun receive_requests :: "(nat \<Rightarrow> char) \<Rightarrow> HttpHeaderTable \<Rightarrow> nat \<Rightarrow> nat \<Rightarrow> HttpInput \<Rightarrow>
    (HttpMethod \<times> string \<times> HttpHeaders \<times> char list) list http \<times> HttpInput" where
  "receive_requests fresh table limit 0 s = (Ready [], s)"
| "receive_requests fresh table limit (Suc n) s =
     awaiting (receive_request fresh table limit s) (\<lambda>m s.
     awaiting (receive_requests fresh table limit n s) (\<lambda>ms s. (Ready (m # ms), s)))"

definition sent_headers :: "message \<Rightarrow> HttpHeaders" where
  "sent_headers m = with_connection (fst (client_connectionHeaders (msg_method m) (msg_headers m) (msg_expected m))) (msg_headers m)"

definition sent_text :: "HttpHeaderTable \<Rightarrow> message \<Rightarrow> string" where
  "sent_text table m = serializeRequest table (msg_method m) (msg_url m)
     (fst (client_connectionHeaders (msg_method m) (msg_headers m) (msg_expected m))) (msg_headers m)"

text \<open>Messages that a client can send: the headers can be read back, the size is the announced one.\<close>

definition message_ok :: "HttpHeaderTable \<Rightarrow> message \<Rightarrow> bool" where
  "message_ok table m \<longleftrightarrow>
     isWord (msg_url m) \<and> headers_plain table (msg_headers m) \<and> length (sent_text table m) \<le> MAX_BUFFER \<and>
     list_all (\<lambda>p. p \<noteq> []) (msg_pieces m) \<and> length (concat (msg_pieces m)) < 2 ^ 64 \<and>
     (case msg_expected m of
        Some bodySize \<Rightarrow> bodySize = length (concat (msg_pieces m))
      | None \<Rightarrow> \<not> snd (client_connectionHeaders (msg_method m) (msg_headers m) None) \<longrightarrow> msg_pieces m = [])"

subsection \<open>The headers that the connection adds\<close>

lemma lengthText_digits:
  assumes "n < 2 ^ 64"
  shows "lengthText n = map decimalChar (rev (digitLoop 10 n))" "strtoull 10 (lengthText n) = (int n, False, [])"
    "safeValue (lengthText n)" "noLeadingBlank (lengthText n)" "cStr (lengthText n) = lengthText n" "lengthText n \<noteq> []"
proof -
  define ds where "ds = rev (digitLoop 10 n)"
  have ds: "ds \<noteq> []" "\<forall>d \<in> set ds. d < 10" "foldl (\<lambda>n d. n * 10 + d) 0 ds = n"
    using digitLoop_facts [of 10 n] by (simp_all add: ds_def)
  have "int n < int (2 ^ 64)" using assms by (simp only: of_nat_less_iff)
  then have "inType \<lparr>bytes_of = 8, is_signed = False\<rparr> (int n)"
    by (simp add: inType_def minValue_def maxValue_def bits_of_def)
  then show digits: "lengthText n = map decimalChar (rev (digitLoop 10 n))"
    unfolding lengthText_def by (subst stringify_digits) (simp_all add: supported_def)
  show "strtoull 10 (lengthText n) = (int n, False, [])"
    unfolding digits ds_def [symmetric] by (rule strtoull_decimal [OF ds(1,2)]) (use ds(3) assms in simp_all)
  have all: "\<forall>d \<in> set [0..<10]. decimalChar d \<notin> {NUL, CR, LF, SP, TAB}"
    by (simp add: upt_rec decimalChar_def char_of_def bit_0)
  have plain: "\<forall>c \<in> set (lengthText n). c \<notin> {NUL, CR, LF, SP, TAB}"
    unfolding digits ds_def [symmetric] using ds(2) ball_upt [OF all] by auto
  show "safeValue (lengthText n)" using plain by (auto simp: safeValue_def)
  show "cStr (lengthText n) = lengthText n" using plain by (simp add: cStr_def takeWhile_eq_all_conv)
  show "lengthText n \<noteq> []" unfolding digits using ds(1) by (simp add: ds_def)
  then show "noLeadingBlank (lengthText n)" using plain by (cases "lengthText n") (simp_all add: noLeadingBlank_def)
qed

lemma built_names: "built_table table \<Longrightarrow> \<exists>more_names. namesById table = BUILTIN_HEADER_NAMES @ more_names"
proof (induction rule: built_table.induct)
  case (add table name i table')
  then show ?case by (auto simp: Builder_add_def Let_def split: if_splits option.splits)
qed (simp add: HttpHeaderTable_new_def)

lemma not_set_cookie:
  assumes "built_table table" and "i < 7"
  shows "\<not> sameName (idToString table i) n \<or> \<not> sameName n ''set-cookie''"
proof -
  have all: "\<forall>i \<in> set [0..<7]. map tolower (BUILTIN_HEADER_NAMES ! i) \<noteq> ''set-cookie''"
    by (simp add: upt_rec BUILTIN_HEADER_NAMES_def tolower_def less_eq_char_def char_of_def bit_0)
  have low: "map tolower ''set-cookie'' = ''set-cookie''" by (simp add: tolower_def less_eq_char_def)
  have "idToString table i = BUILTIN_HEADER_NAMES ! i"
  proof -
    have "length BUILTIN_HEADER_NAMES = 17" by (simp add: BUILTIN_HEADER_NAMES_def)
    then show ?thesis using built_names [OF assms(1)] assms(2) by (auto simp: idToString_def nth_append)
  qed
  then show ?thesis using ball_upt [OF all assms(2)] unfolding sameName_def low by auto
qed

lemma plain_with_connection:
  assumes "built_table table" and "headers_plain table h" and "length cs = 7" and "list_all (\<lambda>v. safeValue v \<and> noLeadingBlank v) cs"
  shows "headers_plain table (with_connection cs h)"
proof -
  note ok = built_table_ok [OF assms(1)]
  have n: "7 \<le> idCount table" using built_names [OF assms(1)] by (auto simp: idCount_def BUILTIN_HEADER_NAMES_def)
  have safe: "headers_safe table (with_connection cs h)"
    by (rule safe_with_connection) (use assms(2,3,4) n in \<open>auto simp: headers_plain_def list_all_iff\<close>)
  have plain: "list_all noLeadingBlank (indexedHeaders (with_connection cs h))"
    using assms(2,4) by (auto simp: with_connection_def headers_plain_def list_all_iff dest: in_set_dropD)
  have keep: "indexedHeaders (with_connection cs h) ! i = indexedHeaders h ! i" if "7 \<le> i" "i < idCount table" for i
    using that assms(2,3) by (simp add: with_connection_def nth_append headers_plain_def headers_safe_def)
  have "list_all (\<lambda>(n, v). n \<noteq> [] \<and> noLeadingBlank v \<and>
       (case stringToId table n of
          None \<Rightarrow> True
        | Some i \<Rightarrow> strcaseeq n ''set-cookie'' \<and> indexedHeaders (with_connection cs h) ! i \<noteq> [])) (unindexedHeaders h)"
    unfolding list_all_iff
  proof
    fix p assume "p \<in> set (unindexedHeaders h)"
    then obtain n v where p: "p = (n, v)" and nv: "(n, v) \<in> set (unindexedHeaders h)" by (metis surj_pair)
    have u: "n \<noteq> []" "noLeadingBlank v" "isValidHeaderName n"
      "\<And>i. stringToId table n = Some i \<Longrightarrow> strcaseeq n ''set-cookie'' \<and> indexedHeaders h ! i \<noteq> []"
      using nv assms(2) by (auto simp: headers_plain_def headers_safe_def list_all_iff split: option.splits)
    have "case stringToId table n of None \<Rightarrow> True
        | Some i \<Rightarrow> strcaseeq n ''set-cookie'' \<and> indexedHeaders (with_connection cs h) ! i \<noteq> []"
    proof (cases "stringToId table n")
      case (Some i)
      have valid: "isValidHeaderName ''set-cookie''"
        by (simp add: isValidHeaderName_def name_chars_iff separators_def less_eq_char_def)
      have i: "i < idCount table" "sameName (idToString table i) n" using Some stringToId_iff [OF ok u(3)] by simp_all
      have cookie: "strcaseeq n ''set-cookie''" using u(4) [OF Some] by simp
      then have "sameName n ''set-cookie''"
        using validName_cStr [OF u(3)] validName_cStr [OF valid] by (simp add: strcaseeq_def sameName_def)
      then have "7 \<le> i" using not_set_cookie [OF assms(1), of i n] i(2) by (cases "i < 7") simp_all
      then show ?thesis using Some u(4) [OF Some] keep i(1) by simp
    qed simp
    then show "case p of (n, v) \<Rightarrow> n \<noteq> [] \<and> noLeadingBlank v \<and>
        (case stringToId table n of
           None \<Rightarrow> True
         | Some i \<Rightarrow> strcaseeq n ''set-cookie'' \<and> indexedHeaders (with_connection cs h) ! i \<noteq> [])"
      using u(1,2) p by simp
  qed
  moreover have "unindexedHeaders (with_connection cs h) = unindexedHeaders h" by (simp add: with_connection_def)
  ultimately show ?thesis using safe plain by (simp add: headers_plain_def)
qed

lemma client_headers:
  assumes "message_ok table m" and "client_connectionHeaders (msg_method m) (msg_headers m) (msg_expected m) = (cs, hasBody)"
  shows "length cs = 7" "list_all (\<lambda>v. safeValue v \<and> noLeadingBlank v) cs"
    "msg_expected m = Some n \<Longrightarrow> hasBody \<Longrightarrow> cs ! 5 = lengthText n \<and> cs ! 6 = []"
    "msg_expected m = None \<Longrightarrow> hasBody \<Longrightarrow> cs ! 5 = [] \<and> cs ! 6 = ''chunked''"
    "\<not> hasBody \<Longrightarrow> cs ! 5 = [] \<and> cs ! 6 = [] \<and> msg_pieces m = []"
proof -
  have n: "lengthText k \<noteq> [] \<and> safeValue (lengthText k) \<and> noLeadingBlank (lengthText k)" if "msg_expected m = Some k" for k
    using lengthText_digits [of k] assms(1) that by (simp add: message_ok_def)
  have empty: "msg_pieces m = []" if "\<forall>p \<in> set (msg_pieces m). p = []"
    using assms(1) that by (cases "msg_pieces m") (auto simp: message_ok_def list_all_iff)
  define none :: "string list" where "none = replicate 7 []"
  define Q where "Q v \<longleftrightarrow> safeValue v \<and> noLeadingBlank v" for v
  have none: "length none = 7" "list_all Q none" "none ! 5 = []" "none ! 6 = []"
    by (simp_all add: none_def Q_def list_all_iff noLeadingBlank_def)
  have set5: "list_all Q (none[5 := v])" "none[5 := v] ! 5 = v" "none[5 := v] ! 6 = []" if "Q v" for v
    using none that list_all_update [OF none(2)] by simp_all
  have set6: "list_all Q (none[6 := ''chunked''])" "none[6 := ''chunked''] ! 6 = ''chunked''" "none[6 := ''chunked''] ! 5 = []"
    using none list_all_update [OF none(2), of "''chunked''"] by (simp_all add: Q_def noLeadingBlank_def)
  have cs: "cs = (case msg_expected m of
      Some bodySize \<Rightarrow> if hasBody then none[5 := lengthText bodySize] else none
    | None \<Rightarrow> if hasBody then none[6 := ''chunked''] else none)"
    using assms(2) by (auto simp: client_connectionHeaders_def CONNECTION_HEADERS_COUNT_def Let_def none_def
        split: option.splits if_splits)
  have pieces: "msg_pieces m = []" if "\<not> hasBody"
    using assms that empty by (auto simp: client_connectionHeaders_def Let_def message_ok_def split: option.splits if_splits)
  have "length cs = 7 \<and> list_all Q cs" unfolding cs using none set5(1) set6(1) n by (auto simp: Q_def split: option.splits)
  then show "length cs = 7" "list_all (\<lambda>v. safeValue v \<and> noLeadingBlank v) cs" by (simp_all add: Q_def [abs_def])
  show "msg_expected m = Some n \<Longrightarrow> hasBody \<Longrightarrow> cs ! 5 = lengthText n \<and> cs ! 6 = []"
    unfolding cs using set5 n none(4) by (simp add: Q_def)
  show "msg_expected m = None \<Longrightarrow> hasBody \<Longrightarrow> cs ! 5 = [] \<and> cs ! 6 = ''chunked''" unfolding cs using set6 by simp
  show "\<not> hasBody \<Longrightarrow> cs ! 5 = [] \<and> cs ! 6 = [] \<and> msg_pieces m = []"
    unfolding cs using none pieces by (simp split: option.splits)
qed

section \<open>What is sent\<close>

text \<open>The body as text: as it is, or in chunks.\<close>

definition body_text :: "message \<Rightarrow> string \<Rightarrow> bool" where
  "body_text m t \<longleftrightarrow>
     (if \<not> snd (client_connectionHeaders (msg_method m) (msg_headers m) (msg_expected m)) then t = []
      else case msg_expected m of
        Some n \<Rightarrow> t = concat (msg_pieces m)
      | None \<Rightarrow> \<exists>ps. list_all pieceOk ps \<and> concat ps = concat (msg_pieces m) \<and> t = chunksText ps @ lastChunk)"

lemma put_all_accepts:
  "writer_accepts base wout data room \<Longrightarrow> list_all (\<lambda>p. p \<noteq> []) ps \<Longrightarrow> length (concat ps) \<le> room \<Longrightarrow>
   \<exists>wout'. put_all ps wout = (Ready (), wout') \<and> writer_accepts base wout' (data @ concat ps) (room - length (concat ps))"
proof (induction ps arbitrary: wout data room)
  case (Cons p ps)
  obtain w1 where w1: "writer_put p wout = (Ready (), w1)" "writer_accepts base w1 (data @ p) (room - length p)"
    using http_writer.put_next [OF Cons.prems(1), of p] Cons.prems(2,3) by auto
  then show ?case using Cons.IH [OF w1(2)] Cons.prems(2,3) by auto
qed simp

lemma put_all_fixed: "\<exists>len f. fst (snd (put_all ps (FixedWriter n fin, out))) = FixedWriter len f"
proof (induction ps arbitrary: n fin out)
  case (Cons q ps)
  obtain r w2 out2 where w2: "writer_put q (FixedWriter n fin, out) = (r, w2, out2)" by (metis prod_cases3)
  then obtain len f where "w2 = FixedWriter len f"
    by (auto simp: writer_put_def Let_def split: if_splits prod.splits awaited.splits)
  then show ?case using Cons.IH [of len f out2] w2 by (cases r) simp_all
qed simp

lemma fixed_put_accepts:
  assumes "writer_accepts base (FixedWriter n fin, out) [] n" and "list_all (\<lambda>p. p \<noteq> []) ps" and "length (concat ps) \<le> n"
  shows "\<exists>len f out'. put_all ps (FixedWriter n fin, out) = (Ready (), FixedWriter len f, out') \<and>
    writer_accepts base (FixedWriter len f, out') (concat ps) (n - length (concat ps))"
proof -
  obtain w' out' where p: "put_all ps (FixedWriter n fin, out) = (Ready (), w', out')"
    "writer_accepts base (w', out') (concat ps) (n - length (concat ps))"
    using put_all_accepts [OF assms] by auto
  moreover obtain len f where "w' = FixedWriter len f" using put_all_fixed [of ps n fin out] p(1) by auto
  ultimately show ?thesis by blast
qed

lemma fixed_put_all:
  assumes "writer_accepts base (FixedWriter n fin, out) [] n" and "list_all (\<lambda>p. p \<noteq> []) ps" and "length (concat ps) = n"
  shows "\<exists>wout'. put_all ps (FixedWriter n fin, out) = (Ready (), wout') \<and> output_canReuse (writer_destroy wout') \<and>
    written (writer_destroy wout') = base @ concat ps"
  using fixed_put_accepts [OF assms(1,2)] assms(3) by (fastforce simp: writer_destroy_def output_canReuse_def open_output_def)

lemma chunked_put_all:
  assumes "writer_accepts base (ChunkedWriter False, out) [] room" and "list_all (\<lambda>p. p \<noteq> []) ps" and "length (concat ps) \<le> room"
  shows "\<exists>wout' qs. put_all ps (ChunkedWriter False, out) = (Ready (), wout') \<and> output_canReuse (writer_destroy wout') \<and>
    list_all pieceOk qs \<and> concat qs = concat ps \<and> written (writer_destroy wout') = base @ chunksText qs @ lastChunk"
proof -
  obtain w' out' where p: "put_all ps (ChunkedWriter False, out) = (Ready (), w', out')"
    "writer_accepts base (w', out') (concat ps) (room - length (concat ps))"
    using put_all_accepts [OF assms] by auto
  have "w' = ChunkedWriter False"
  proof -
    have "fst (snd (put_all ps (ChunkedWriter False, out))) = ChunkedWriter False"
    proof (induction ps arbitrary: out)
      case (Cons q ps)
      obtain r w2 out2 where w2: "writer_put q (ChunkedWriter False, out) = (r, w2, out2)" by (metis prod_cases3)
      then have "w2 = ChunkedWriter False"
        by (auto simp: writer_put_def Let_def split: if_splits prod.splits)
      then show ?case using Cons.IH [of out2] w2 by (cases r) simp_all
    qed simp
    then show ?thesis using p(1) by simp
  qed
  then show ?thesis
    using p by (auto simp: writer_destroy_def output_canReuse_def open_output_def canWriteBodyData_def writeBodyText_def
        queueWrite_def finishBody_def lastChunk_def)
qed

lemma send_request_sends:
  assumes "message_ok table m" and "output_canReuse out"
  shows "\<exists>out' t. send_request table m out = (Ready (), out') \<and> output_canReuse out' \<and>
    written out' = written out @ sent_text table m @ t \<and> body_text m t"
proof -
  obtain cs hasBody where c: "client_connectionHeaders (msg_method m) (msg_headers m) (msg_expected m) = (cs, hasBody)" by force
  note ch = client_headers [OF assms(1) c]
  define out1 where "out1 = out\<lparr>inBody := True, written := written out @ sent_text table m\<rparr>"
  have sent: "sent_text table m = serializeRequest table (msg_method m) (msg_url m) cs (msg_headers m)"
    by (simp add: sent_text_def c)
  have w: "writeHeaders (serializeRequest table (msg_method m) (msg_url m) cs (msg_headers m)) out = (Ready (), out1)"
    using assms(2) by (simp add: writeHeaders_def queueWrite_def output_canReuse_def out1_def sent)
  have pieces: "list_all (\<lambda>p. p \<noteq> []) (msg_pieces m)" "length (concat (msg_pieces m)) < 2 ^ 64"
    using assms(1) by (simp_all add: message_ok_def)
  have open1: "open_output out1" "inBody out1" "written out1 = written out @ sent_text table m"
    using assms(2) by (simp_all add: out1_def open_output_def output_canReuse_def)
  show ?thesis
  proof (cases hasBody)
    case False
    have "send_request table m out = (Ready (), finishBody out1)"
      using assms(2) w c False ch(5) by (simp add: send_request_def client_request_def writer_destroy_def)
    then show ?thesis
      using open1 False c
      by (intro exI [of _ "finishBody out1"] exI [of _ "[]"])
        (simp add: finishBody_def open_output_def output_canReuse_def body_text_def)
  next
    case True
    show ?thesis
    proof (cases "msg_expected m")
      case None
      have "writer_accepts (written out1) (ChunkedWriter False, out1) [] (2 ^ 64 - 1)"
        using open1 by (auto intro: exI [of _ "[]"])
      from chunked_put_all [OF this pieces(1)] pieces(2) obtain wout' qs where
        p: "put_all (msg_pieces m) (ChunkedWriter False, out1) = (Ready (), wout')" "output_canReuse (writer_destroy wout')"
        "list_all pieceOk qs" "concat qs = concat (msg_pieces m)"
        "written (writer_destroy wout') = written out1 @ chunksText qs @ lastChunk" by auto
      have "send_request table m out = (Ready (), writer_destroy wout')"
        using assms(2) w c True None p(1) by (simp add: send_request_def client_request_def)
      then show ?thesis
        using p(2-5) open1(3) c True None
        by (intro exI [of _ "writer_destroy wout'"] exI [of _ "chunksText qs @ lastChunk"]) (auto simp: body_text_def)
    next
      case (Some n)
      have n: "n = length (concat (msg_pieces m))" using assms(1) Some by (simp add: message_ok_def)
      define out2 where "out2 = (if n = 0 then finishBody out1 else out1)"
      have "writer_accepts (written out1) (FixedWriter n (n = 0), out2) [] n"
        using open1 by (auto simp: out2_def finishBody_def open_output_def)
      from fixed_put_all [OF this pieces(1) n [symmetric]] obtain wout' where
        p: "put_all (msg_pieces m) (FixedWriter n (n = 0), out2) = (Ready (), wout')" "output_canReuse (writer_destroy wout')"
        "written (writer_destroy wout') = written out1 @ concat (msg_pieces m)" by blast
      have "send_request table m out = (Ready (), writer_destroy wout')"
        using assms(2) w c True Some p(1) by (simp add: send_request_def client_request_def newFixedWriter_def out2_def)
      then show ?thesis
        using p(2,3) open1(3) c True Some
        by (intro exI [of _ "writer_destroy wout'"] exI [of _ "concat (msg_pieces m)"]) (simp add: body_text_def)
    qed
  qed
qed

section \<open>What is received\<close>

lemma safe_line: "safeValue v \<Longrightarrow> v \<noteq> [] \<Longrightarrow> lineOk v"
  by (simp add: safeValue_def lineOk_def)

lemma sent_lines:
  assumes "built_table table" and "message_ok table m"
  shows "\<exists>ls. sent_text table m = headerLines ls \<and> list_all lineOk ls \<and> ls \<noteq> []"
proof -
  obtain cs hasBody where c: "client_connectionHeaders (msg_method m) (msg_headers m) (msg_expected m) = (cs, hasBody)" by force
  note ch = client_headers [OF assms(2) c] and ok = built_table_ok [OF assms(1)]
  define h where "h = with_connection cs (msg_headers m)"
  have plain: "headers_plain table (msg_headers m)" using assms(2) by (simp add: message_ok_def)
  have "7 \<le> idCount table" using built_names [OF assms(1)] by (auto simp: idCount_def BUILTIN_HEADER_NAMES_def)
  then have l: "length cs \<le> length (indexedHeaders (msg_headers m))"
    using plain ch(1) by (simp add: headers_plain_def headers_safe_def)
  have safe: "headers_safe table h"
    using plain_with_connection [OF assms(1) plain ch(1,2)] by (simp add: h_def headers_plain_def)
  define first where "first = method_name (msg_method m) @ '' '' @ msg_url m @ '' '' @ ''HTTP/1.1''"
  define ls where "ls = first # map line_of (headers_forEach table h)"
  have name: "safeValue (method_name (msg_method m))" "method_name (msg_method m) \<noteq> []" by (rule method_name_safe)+
  have url: "safeValue (msg_url m)" using assms(2) by (auto simp: message_ok_def isWord_def safeValue_def list_all_iff)
  have "sent_text table m = headerLines ls"
    using name(2) by (simp add: sent_text_def c serializeRequest_def serialize_connection [OF l] serialize_pairs headerLines_def
        ls_def first_def h_def comp_def)
  moreover have "lineOk first" by (rule safe_line) (use name url in \<open>simp_all add: first_def\<close>)
  moreover have "list_all lineOk (map line_of (headers_forEach table h))"
  proof -
    have "lineOk (line_of p)" if "p \<in> set (headers_forEach table h)" for p
      using safe_pairs [OF ok safe] that safeName [of "fst p"]
      by (intro safe_line) (auto simp: list_all_iff line_of_def)
    then show ?thesis by (simp add: list_all_iff)
  qed
  ultimately show ?thesis by (intro exI [of _ ls]) (simp add: ls_def)
qed

lemma sent_parsed:
  assumes "built_table table" and "namesNonempty table" and "message_ok table m"
  shows "tryParseRequestOrConnect table (butlast (butlast (sent_text table m))) (HttpHeaders_new table) =
    (Inr (Request (msg_method m) (msg_url m)), sent_headers m)"
proof -
  obtain cs hasBody where c: "client_connectionHeaders (msg_method m) (msg_headers m) (msg_expected m) = (cs, hasBody)" by force
  note ch = client_headers [OF assms(3) c] and ok = built_table_ok [OF assms(1)]
  have plain: "headers_plain table (msg_headers m)" "isWord (msg_url m)" using assms(3) by (simp_all add: message_ok_def)
  have "7 \<le> idCount table" using built_names [OF assms(1)] by (auto simp: idCount_def BUILTIN_HEADER_NAMES_def)
  then have l: "length cs \<le> length (indexedHeaders (msg_headers m))"
    using plain ch(1) by (simp add: headers_plain_def headers_safe_def)
  have "serialize table w1 w2 w3 [] (with_connection cs h) = butlast (butlast (serialize table w1 w2 w3 [] (with_connection cs h))) @ CRLF"
    for w1 w2 w3 h by (simp add: serialize_def butlast_append)
  then show ?thesis
    using request_parsed [OF ok assms(2) plain_with_connection [OF assms(1) plain(1) ch(1,2)] plain(2), of "Method (msg_method m)"]
    by (simp add: sent_text_def sent_headers_def c serializeRequest_def serialize_connection [OF l])
qed

lemma chunked_name: "fastCaseCmp ''chunked'' ''chunked''"
  by (simp add: less_eq_char_def)

lemma sent_get:
  assumes "message_ok table m" and "client_connectionHeaders (msg_method m) (msg_headers m) (msg_expected m) = (cs, hasBody)"
  shows "headers_get CONTENT_LENGTH (sent_headers m) = (if cs ! 5 = [] then None else Some (cs ! 5))"
    "headers_get TRANSFER_ENCODING (sent_headers m) = (if cs ! 6 = [] then None else Some (cs ! 6))"
  using client_headers(1) [OF assms] assms(2)
  by (simp_all add: headers_get_def sent_headers_def with_connection_def nth_append Let_def)

lemma body_fixed:
  assumes "message_ok table m" and "msg_expected m = Some n"
    and "client_connectionHeaders (msg_method m) (msg_headers m) (msg_expected m) = (cs, hasBody)" and hasBody
  shows "getEntityBody REQUEST (Method (msg_method m)) 0 (sent_headers m) s =
    (Ready (FixedBody n True), if n = 0 then finishRead s else s)"
proof -
  have "n < 2 ^ 64" using assms(1,2) by (simp add: message_ok_def)
  note d = lengthText_digits [OF this]
  show ?thesis
    using client_headers(3) [OF assms(1,3,2,4)] d
    by (simp add: getEntityBody_def sent_get [OF assms(1,3)] newFixedBody_def Let_def)
qed

lemma body_of_sent:
  assumes "message_ok table m" and "inMessage s" and "\<not> lineBreakBeforeNextHeader s"
    and "restOf s = t @ later" and "body_text m t"
  shows "\<exists>b s'. getEntityBody REQUEST (Method (msg_method m)) 0 (sent_headers m) s = (Ready b, s') \<and>
    body_holds later (b, s') (concat (msg_pieces m))"
proof -
  obtain cs hasBody where c: "client_connectionHeaders (msg_method m) (msg_headers m) (msg_expected m) = (cs, hasBody)" by force
  note ch = client_headers [OF assms(1) c]
  note get = sent_get [OF assms(1) c]
  show ?thesis
  proof (cases hasBody)
    case False
    have "getEntityBody REQUEST (Method (msg_method m)) 0 (sent_headers m) s = (Ready (NullBody (Some 0)), finishRead s)"
      using ch(5) [OF False] by (simp add: getEntityBody_def get newNullBody_def Let_def)
    moreover have "t = []" using assms(5) c False by (simp add: body_text_def)
    then have "idle (finishRead s) later"
      using assms(3,4) by (intro idle_finishRead [OF assms(2)]) (simp add: pendingBreak_def)
    ultimately show ?thesis using ch(5) [OF False] by auto
  next
    case True
    show ?thesis
    proof (cases "msg_expected m")
      case None
      note h = ch(4) [OF None True]
      have "getEntityBody REQUEST (Method (msg_method m)) 0 (sent_headers m) s = (Ready (ChunkedBody 0 True False), s)"
        using h chunked_name by (simp add: getEntityBody_def get Let_def del: fastCaseCmp.simps)
      moreover obtain ps where "list_all pieceOk ps" "concat ps = concat (msg_pieces m)" "t = chunksText ps @ lastChunk"
        using assms(5) c True None by (auto simp: body_text_def)
      then have "chunksHold 0 s (concat (msg_pieces m)) later"
        using assms(2,3,4) by (auto simp: chunksHold_def pendingBreak_def intro!: exI [of _ ps])
      ultimately show ?thesis by auto
    next
      case (Some n)
      then have n: "n = length (concat (msg_pieces m))" using assms(1) by (simp add: message_ok_def)
      note body_fixed [OF assms(1) Some c True, of s]
      moreover have t: "t = concat (msg_pieces m)" using assms(5) c True Some by (simp add: body_text_def)
      moreover have "idle (finishRead s) later" if "n = 0"
        using assms(3,4) that n t by (intro idle_finishRead [OF assms(2)]) (simp add: pendingBreak_def)
      ultimately show ?thesis
        using assms(2,3,4) n by (auto simp: finishRead_def)
    qed
  qed
qed

lemma headers_received:
  assumes "built_table table" and "namesNonempty table" and "message_ok table m" and "idle s (sent_text table m @ later)"
  shows "\<exists>s1. readRequestHeaders fresh table s = (Ready (Request (msg_method m) (msg_url m), sent_headers m), s1) \<and>
    inMessage s1 \<and> restOf s1 = later \<and> \<not> lineBreakBeforeNextHeader s1"
proof -
  obtain ls where ls: "sent_text table m = headerLines ls" "list_all lineOk ls" "ls \<noteq> []"
    using sent_lines [OF assms(1,3)] by blast
  have len: "length (headerLines ls) \<le> MAX_BUFFER" using assms(3) ls(1) by (simp add: message_ok_def)
  obtain s1 where s1: "readMessageHeaders fresh s = (Ready (butlast (butlast (sent_text table m))), s1)" "inMessage s1"
    "restOf s1 = later" "\<not> lineBreakBeforeNextHeader s1"
    using readMessageHeaders_reads [of s ls later, OF _ ls(2,3) len, of fresh] assms(4) ls(1) by auto
  then show ?thesis using sent_parsed [OF assms(1,2,3)] by (simp add: readRequestHeaders_def)
qed

lemma receive_request_sent:
  assumes "built_table table" and "namesNonempty table" and "message_ok table m"
    and "idle s (sent_text table m @ t @ later)" and "body_text m t" and "length (concat (msg_pieces m)) < limit"
  shows "\<exists>s'. receive_request fresh table limit s =
      (Ready (msg_method m, msg_url m, sent_headers m, concat (msg_pieces m)), s') \<and> idle s' later"
proof -
  obtain s1 where s1: "readRequestHeaders fresh table s = (Ready (Request (msg_method m) (msg_url m), sent_headers m), s1)"
    "inMessage s1" "restOf s1 = t @ later" "\<not> lineBreakBeforeNextHeader s1"
    using headers_received [OF assms(1,2,3,4), of fresh] by blast
  obtain b s2 where b: "getEntityBody REQUEST (Method (msg_method m)) 0 (sent_headers m) s1 = (Ready b, s2)"
    "body_holds later (b, s2) (concat (msg_pieces m))"
    using body_of_sent [OF assms(3) s1(2,4,3) assms(5)] by blast
  obtain b3 s3 where r: "readAllBytes (body_tryRead fresh) limit [] (b, s2) = (Ready (concat (msg_pieces m)), b3, s3)"
    "body_holds later (b3, s3) []" "body_finished b3"
    using http_body.readAllBytes_all [OF b(2) assms(6), of fresh "[]"] by auto
  show ?thesis
    using s1(1) b(1) r(1) body_end [OF r(2,3)] by (simp add: receive_request_def)
qed

lemma send_receive:
  assumes "built_table table" and "namesNonempty table"
    and "list_all (message_ok table) ms" and "\<forall>m \<in> set ms. length (concat (msg_pieces m)) < limit"
    and "output_canReuse out"
  shows "\<exists>out' t. send_requests table ms out = (Ready (), out') \<and> output_canReuse out' \<and> written out' = written out @ t \<and>
    (\<forall>fresh s later. idle s (t @ later) \<longrightarrow>
      (\<exists>s'. receive_requests fresh table limit (length ms) s =
          (Ready (map (\<lambda>m. (msg_method m, msg_url m, sent_headers m, concat (msg_pieces m))) ms), s') \<and> idle s' later))"
  using assms(3,4,5)
proof (induction ms arbitrary: out)
  case (Cons m ms)
  obtain out1 t1 where m: "send_request table m out = (Ready (), out1)" "output_canReuse out1"
    "written out1 = written out @ sent_text table m @ t1" "body_text m t1"
    using send_request_sends [of table m out] Cons.prems by auto
  obtain out2 t2 where ms: "send_requests table ms out1 = (Ready (), out2)" "output_canReuse out2" "written out2 = written out1 @ t2"
    "\<And>fresh s later. idle s (t2 @ later) \<Longrightarrow>
      \<exists>s'. receive_requests fresh table limit (length ms) s =
          (Ready (map (\<lambda>m. (msg_method m, msg_url m, sent_headers m, concat (msg_pieces m))) ms), s') \<and> idle s' later"
    using Cons.IH [OF _ _ m(2)] Cons.prems by auto
  have "\<exists>s'. receive_requests fresh table limit (length (m # ms)) s =
      (Ready (map (\<lambda>m. (msg_method m, msg_url m, sent_headers m, concat (msg_pieces m))) (m # ms)), s') \<and> idle s' later"
    if s: "idle s ((sent_text table m @ t1 @ t2) @ later)" for fresh s later
  proof -
    have "idle s (sent_text table m @ t1 @ (t2 @ later))" using s by simp
    from receive_request_sent [OF assms(1,2) _ this m(4), of limit fresh] Cons.prems
    obtain s1 where s1: "receive_request fresh table limit s =
        (Ready (msg_method m, msg_url m, sent_headers m, concat (msg_pieces m)), s1)" "idle s1 (t2 @ later)" by auto
    then show ?thesis using ms(4) [OF s1(2), of fresh] by auto
  qed
  then show ?case
    using m ms(1,2,3)
    by (intro exI [of _ out2] exI [of _ "sent_text table m @ t1 @ t2"]) simp
qed simp

end
