(* ===== verification/Http_Requests.thy ===== *)
theory Http_Requests
  imports Http_Connection
begin

text \<open>Properties of whole connections: sequences of requests, and bodies that end too early.\<close>

lemma canReuse_new: "output_canReuse newHttpOutput"
  by (simp add: output_canReuse_def newHttpOutput_def)

text \<open>C2. Requests that a client sends one after the other over a new connection are received in this order, each with its method,
  URL, headers and body, in whatever pieces the bytes arrive; afterwards both sides can go on to use the connection.\<close>

theorem requests_roundtrip:
  assumes "built_table table" and "namesNonempty table"
    and "list_all (message_ok table) ms" and "\<forall>m \<in> set ms. length (concat (msg_pieces m)) < limit"
  shows "\<exists>out. send_requests table ms newHttpOutput = (Ready (), out) \<and> output_canReuse out \<and>
    (\<forall>fresh chunks. concat chunks = written out \<longrightarrow>
      (\<exists>s. receive_requests fresh table limit (length ms) (newHttpInput fresh chunks) =
          (Ready (map (\<lambda>m. (msg_method m, msg_url m, sent_headers m, concat (msg_pieces m))) ms), s) \<and> canReuse s))"
proof -
  obtain out t where out: "send_requests table ms newHttpOutput = (Ready (), out)" "output_canReuse out" "written out = t"
    "\<And>fresh s later. idle s (t @ later) \<Longrightarrow> \<exists>s'. receive_requests fresh table limit (length ms) s =
      (Ready (map (\<lambda>m. (msg_method m, msg_url m, sent_headers m, concat (msg_pieces m))) ms), s') \<and> idle s' later"
    using send_receive [OF assms canReuse_new] by (fastforce simp: newHttpOutput_def)
  have "\<exists>s. receive_requests fresh table limit (length ms) (newHttpInput fresh chunks) =
      (Ready (map (\<lambda>m. (msg_method m, msg_url m, sent_headers m, concat (msg_pieces m))) ms), s) \<and> canReuse s"
    if "concat chunks = written out" for fresh chunks
  proof -
    have "idle (newHttpInput fresh chunks) (t @ [])" using idle_new [of fresh chunks] that out(3) by simp
    from out(4) [OF this, of fresh] show ?thesis by (auto simp: idle_def canReuse_def)
  qed
  then show ?thesis using out(1,2) by blast
qed

definition example_messages :: "message list" where
  "example_messages =
     [\<lparr>msg_method = GET, msg_url = ''/a'', msg_headers = HttpHeaders_new HttpHeaderTable_new, msg_expected = None, msg_pieces = []\<rparr>,
      \<lparr>msg_method = POST, msg_url = ''/b'', msg_headers = HttpHeaders_new HttpHeaderTable_new, msg_expected = None,
       msg_pieces = [''ab'', ''c'']\<rparr>,
      \<lparr>msg_method = PUT, msg_url = ''/c'', msg_headers = HttpHeaders_new HttpHeaderTable_new, msg_expected = Some 2,
       msg_pieces = [''de'']\<rparr>]"

lemma new_plain: "headers_plain HttpHeaderTable_new (HttpHeaders_new HttpHeaderTable_new)"
  using safe_new by (simp add: headers_plain_def) (simp add: HttpHeaders_new_def list_all_iff noLeadingBlank_def)

lemma length_concat_one:
  "distinct xs \<Longrightarrow> \<forall>j \<in> set xs. j \<noteq> i \<longrightarrow> f j = [] \<Longrightarrow> length (concat (map f xs)) \<le> length (f i)"
proof (induction xs)
  case (Cons x xs)
  have "concat (map f xs) = []" if "x = i" using Cons.prems that by auto
  then show ?case using Cons by (cases "x = i") simp_all
qed simp

lemma builtin_name: "i < 17 \<Longrightarrow> length (idToString HttpHeaderTable_new i) \<le> 24"
proof -
  have "list_all (\<lambda>n. length n \<le> 24) BUILTIN_HEADER_NAMES" by (simp add: BUILTIN_HEADER_NAMES_def)
  moreover have "length BUILTIN_HEADER_NAMES = 17" by (simp add: BUILTIN_HEADER_NAMES_def)
  ultimately show "i < 17 \<Longrightarrow> length (idToString HttpHeaderTable_new i) \<le> 24"
    by (simp add: idToString_def HttpHeaderTable_new_def list_all_length)
qed

lemma new_text:
  assumes "i < 7"
  shows "length (serialize HttpHeaderTable_new w1 w2 w3 ((replicate 7 [])[i := v]) (HttpHeaders_new HttpHeaderTable_new))
    \<le> length w1 + length w2 + length w3 + length v + 40"
proof -
  define f where "f = (\<lambda>j. let value =
      (if j < length ((replicate 7 ([] :: string))[i := v]) then (replicate 7 [])[i := v] ! j
       else indexedHeaders (HttpHeaders_new HttpHeaderTable_new) ! j)
    in if value \<noteq> [] then headerLine (idToString HttpHeaderTable_new j) value else [])"
  have new: "indexedHeaders (HttpHeaders_new HttpHeaderTable_new) = replicate 17 []"
    "unindexedHeaders (HttpHeaders_new HttpHeaderTable_new) = []" by (simp_all add: HttpHeaders_new_def builtin_count)
  have "f j = []" if "j < 17" "j \<noteq> i" for j using that by (simp add: f_def new)
  then have "length (concat (map f [0..<17])) \<le> length (f i)" by (intro length_concat_one) auto
  also have "length (f i) \<le> length v + 28"
    using builtin_name [of i] assms by (simp add: f_def headerLine_def Let_def)
  finally show ?thesis
    unfolding serialize_def f_def [symmetric] by (simp add: new del: upt_Suc)
qed

lemma lengthText_2: "lengthText 2 = ''2''"
  by code_simp

lemma example_ok: "list_all (message_ok HttpHeaderTable_new) example_messages"
proof -
  have replicate: "replicate 7 ([] :: string) = (replicate 7 [])[0 := []]" by (simp add: eval_nat_numeral)
  have word: "isWord ''/a''" "isWord ''/b''" "isWord ''/c''" by (simp_all add: isWord_def)
  have none: "headers_get 6 (HttpHeaders_new HttpHeaderTable_new) = None"
    by (simp add: headers_get_def HttpHeaders_new_def builtin_count)
  show ?thesis
    using new_text [of 0 "''GET''" "''/a''" "''HTTP/1.1''" "[]"] new_text [of 6 "''POST''" "''/b''" "''HTTP/1.1''" "''chunked''"]
      new_text [of 5 "''PUT''" "''/c''" "''HTTP/1.1''" "''2''"]
    by (simp add: example_messages_def message_ok_def word new_plain sent_text_def client_connectionHeaders_def none
        CONNECTION_HEADERS_COUNT_def serializeRequest_def lengthText_2 MAX_BUFFER_def replicate [symmetric] Let_def)
qed

lemma example_limits: "\<forall>m \<in> set example_messages. length (concat (msg_pieces m)) < 100"
  by (simp add: example_messages_def)

theorem requests_roundtrip_witness:
  "\<exists>out s. send_requests HttpHeaderTable_new example_messages newHttpOutput = (Ready (), out) \<and>
     receive_requests (\<lambda>_. NUL) HttpHeaderTable_new 100 3 (newHttpInput (\<lambda>_. NUL) (map (\<lambda>c. [c]) (written out))) =
       (Ready (map (\<lambda>m. (msg_method m, msg_url m, sent_headers m, concat (msg_pieces m))) example_messages), s)"
proof -
  have n: "length example_messages = 3" by (simp add: example_messages_def)
  have "concat (map (\<lambda>c. [c]) xs) = xs" for xs :: string by simp
  then show ?thesis
    using requests_roundtrip [OF built_table.builtin builtin_nonempty example_ok example_limits] unfolding n by blast
qed

section \<open>Bodies that end too early\<close>

lemma fixedLoop_truncated:
  "inMessage s \<Longrightarrow> length (restOf s) < len \<Longrightarrow> 1 \<le> m \<Longrightarrow> m \<le> n \<Longrightarrow>
   (\<exists>e len' s'. fixedLoop m n acc len s = (Threw e, len', s') \<and> len' \<noteq> 0) \<or>
   (\<exists>got s'. fixedLoop m n acc len s = (Ready (acc @ got), len - length got, s') \<and> m \<le> length got \<and> length got \<le> n \<and>
      inMessage s' \<and> length (restOf s') < len - length got)"
proof (induction len arbitrary: m n acc s rule: less_induct)
  case (less len)
  have pos: "len \<noteq> 0" "1 \<le> min n len" using less.prems(2-4) by auto
  obtain got s1 where r: "input_tryRead 1 (min n len) s = (Ready got, s1)" "restOf s = got @ restOf s1"
    "length got \<le> min n len" "length got < 1 \<longrightarrow> restOf s1 = []" "inMessage s1"
    using input_tryRead_rest [OF less.prems(1) order.refl pos(2)] by blast
  have left: "length (restOf s1) < len - length got" using less.prems(2) r(2) by simp
  then have more_left: "length got < len" by simp
  show ?case
  proof (cases "got \<noteq> [] \<and> length got < m")
    case True
    have step: "fixedLoop m n acc len s = fixedLoop (m - length got) (n - length got) (acc @ got) (len - length got) s1"
      using r(1) pos(1) more_left True by (simp add: fixedLoop.simps [of m n acc len] Let_def)
    have "len - length got < len" using True pos(1) by simp
    moreover have "1 \<le> m - length got" "m - length got \<le> n - length got" using True less.prems(4) by auto
    ultimately have "(\<exists>e len' s'. fixedLoop m n acc len s = (Threw e, len', s') \<and> len' \<noteq> 0) \<or>
        (\<exists>got2 s2. fixedLoop m n acc len s = (Ready ((acc @ got) @ got2), len - length got - length got2, s2) \<and>
           m - length got \<le> length got2 \<and> length got2 \<le> n - length got \<and> inMessage s2 \<and>
           length (restOf s2) < len - length got - length got2)"
      unfolding step by (intro less.IH [OF _ r(5) left])
    then show ?thesis
    proof (elim disjE exE conjE)
      fix got2 s2
      assume "fixedLoop m n acc len s = (Ready ((acc @ got) @ got2), len - length got - length got2, s2)"
        "m - length got \<le> length got2" "length got2 \<le> n - length got" "inMessage s2"
        "length (restOf s2) < len - length got - length got2"
      then show ?thesis using True less.prems(4) by (intro disjI2 exI [of _ "got @ got2"] exI [of _ s2]) auto
    qed blast
  next
    case False
    then show ?thesis using r left more_left by (auto simp: fixedLoop.simps [of m n acc len] Let_def)
  qed
qed

lemma fixed_truncated:
  "inMessage s \<Longrightarrow> length (restOf s) < len \<Longrightarrow>
   \<exists>e b' s'. readAllBytes (body_tryRead fresh) limit parts (FixedBody len True, s) = (Threw e, b', s') \<and> \<not> body_finished b'"
proof (induction limit arbitrary: s len parts rule: less_induct)
  case (less limit)
  show ?case
  proof (cases "limit = 0")
    case True
    then show ?thesis using less.prems by (simp add: readAllBytes.simps)
  next
    case False
    define n where "n = min 4096 limit"
    have n: "1 \<le> n" using False by (simp add: n_def)
    from fixedLoop_truncated [OF less.prems n order.refl, of "[]"] show ?thesis
    proof (elim disjE exE conjE)
      fix got s1
      assume got: "fixedLoop n n [] len s = (Ready ([] @ got), len - length got, s1)" "n \<le> length got" "length got \<le> n"
        "inMessage s1" "length (restOf s1) < len - length got"
      have "limit - length got < limit" using False n got(2) by simp
      have "body_tryRead fresh n n (FixedBody len True, s) = (Ready got, FixedBody (len - length got) True, s1)"
        using got(1) by (simp add: body_tryRead_def body_read_def)
      then show ?thesis using less.IH [OF \<open>limit - length got < limit\<close> got(4,5), of "parts @ got"] got(2) False
        by (simp add: readAllBytes.simps [of "body_tryRead fresh" limit] flip: n_def)
    next
      fix e len' s'
      assume thrown: "fixedLoop n n [] len s = (Threw e, len', s')" "len' \<noteq> 0"
      then have "body_tryRead fresh n n (FixedBody len True, s) = (Threw e, FixedBody len' False, s')"
        by (simp add: body_tryRead_def body_read_def)
      then show ?thesis using False thrown(2) by (simp add: readAllBytes.simps [of "body_tryRead fresh" limit] flip: n_def)
    qed
  qed
qed

lemma message_ok_start: "message_ok table m \<Longrightarrow> sent_text table (m\<lparr>msg_pieces := ps\<rparr>) = sent_text table m"
  by (simp add: sent_text_def)

text \<open>C13. A client that ends its body before the announced length cannot send another request, and the other side, in whatever
  pieces the bytes arrive and whatever its limit is, gets an error, never a shorter body.\<close>

theorem short_body_detected:
  assumes "built_table table" and "namesNonempty table" and "message_ok table m"
    and "msg_expected m = Some n" and "msg_pieces m = ps @ p # qs"
  shows "\<exists>out. send_request table (m\<lparr>msg_pieces := ps\<rparr>) newHttpOutput = (Ready (), out) \<and> \<not> output_canReuse out \<and>
    (\<forall>fresh chunks limit. concat chunks = written out \<longrightarrow>
      (\<exists>e s. receive_request fresh table limit (newHttpInput fresh chunks) = (Threw e, s) \<and> \<not> canReuse s))"
proof -
  obtain cs hasBody where c: "client_connectionHeaders (msg_method m) (msg_headers m) (msg_expected m) = (cs, hasBody)" by force
  have n: "n = length (concat ps) + length p + length (concat qs)" "n < 2 ^ 64" "p \<noteq> []" "list_all (\<lambda>p. p \<noteq> []) ps"
    using assms(3,4,5) by (auto simp: message_ok_def)
  have hasBody: "hasBody" using client_headers(5) [OF assms(3) c] assms(5) by auto
  define out1 where "out1 = newHttpOutput\<lparr>inBody := True, written := sent_text table m\<rparr>"
  have w: "writeHeaders (sent_text table m) newHttpOutput = (Ready (), out1)"
    by (simp add: writeHeaders_def queueWrite_def newHttpOutput_def out1_def)
  have "writer_accepts (sent_text table m) (FixedWriter n (n = 0), out1) [] n"
    using n by (simp add: out1_def newHttpOutput_def open_output_def)
  from fixed_put_accepts [OF this n(4)] n(1) obtain len f out' where
    p: "put_all ps (FixedWriter n (n = 0), out1) = (Ready (), FixedWriter len f, out')"
    "writer_accepts (sent_text table m) (FixedWriter len f, out') (concat ps) (n - length (concat ps))" by auto
  define out where "out = abortBody out'"
  have out: "\<not> f" "written out = sent_text table m @ concat ps" "\<not> output_canReuse out"
    using p(2) n(1,3) by (auto simp: out_def abortBody_def output_canReuse_def)
  have "send_request table (m\<lparr>msg_pieces := ps\<rparr>) newHttpOutput = (Ready (), out)"
    using p(1) out(1) w c hasBody canReuse_new n(1,3) assms(4)
    by (simp add: send_request_def client_request_def newFixedWriter_def writer_destroy_def out_def sent_text_def)
  moreover have "\<exists>e s. receive_request fresh table limit (newHttpInput fresh chunks) = (Threw e, s) \<and> \<not> canReuse s"
    if chunks: "concat chunks = written out" for fresh chunks limit
  proof -
    have "idle (newHttpInput fresh chunks) (sent_text table m @ concat ps)" using idle_new [of fresh chunks] chunks out(2) by simp
    from headers_received [OF assms(1,2,3) this, of fresh] obtain s1 where
      s1: "readRequestHeaders fresh table (newHttpInput fresh chunks) = (Ready (Request (msg_method m) (msg_url m), sent_headers m), s1)"
      "inMessage s1" "restOf s1 = concat ps" by blast
    have b: "getEntityBody REQUEST (Method (msg_method m)) 0 (sent_headers m) s1 = (Ready (FixedBody n True), s1)"
      using body_fixed [OF assms(3,4) c hasBody] n(1,3) by simp
    have "length (restOf s1) < n" using s1(3) n(1,3) by simp
    from fixed_truncated [OF s1(2) this, of fresh limit "[]"] obtain e b' s2 where
      r: "readAllBytes (body_tryRead fresh) limit [] (FixedBody n True, s1) = (Threw e, b', s2)" "\<not> body_finished b'" by blast
    show ?thesis using s1(1) b r by (simp add: receive_request_def canReuse_def body_destroy_def abortRead_def)
  qed
  ultimately show ?thesis using out(3) by blast
qed

theorem short_body_detected_witness:
  "\<exists>out. send_request HttpHeaderTable_new ((example_messages ! 2)\<lparr>msg_pieces := []\<rparr>) newHttpOutput = (Ready (), out) \<and>
     \<not> output_canReuse out \<and>
     (\<exists>e s. receive_request (\<lambda>_. NUL) HttpHeaderTable_new 9 (newHttpInput (\<lambda>_. NUL) [written out]) = (Threw e, s) \<and> \<not> canReuse s)"
proof -
  define m where "m = example_messages ! 2"
  have m: "msg_expected m = Some 2" "msg_pieces m = [] @ ''de'' # []" by (simp_all add: m_def example_messages_def)
  have "message_ok HttpHeaderTable_new m" using example_ok by (simp add: m_def example_messages_def)
  from short_body_detected [OF built_table.builtin builtin_nonempty this m] obtain out where
    out: "send_request HttpHeaderTable_new (m\<lparr>msg_pieces := []\<rparr>) newHttpOutput = (Ready (), out)" "\<not> output_canReuse out"
    "\<And>fresh chunks limit. concat chunks = written out \<Longrightarrow>
      \<exists>e s. receive_request fresh HttpHeaderTable_new limit (newHttpInput fresh chunks) = (Threw e, s) \<and> \<not> canReuse s"
    by blast
  have "concat [written out] = written out" by simp
  from out(3) [OF this, of "\<lambda>_. NUL" 9] out(1,2) show ?thesis unfolding m_def by blast
qed

section \<open>What the code does beyond its protocol\<close>

text \<open>The size of a chunk is read modulo \<open>2 ^ 64\<close>: a size of \<open>2 ^ 64\<close> ends the body.\<close>

lemma chunk_size_wraps: "chunkSizeLoop 0 (''1'' @ replicate 16 (CHR ''0'')) = Some 0"
  by code_simp

text \<open>Pumping an empty stream into a chunked body writes the end of the body, while the body goes on.\<close>

lemma empty_pump_ends_body:
  assumes "inBody out" and "open_output out" and "asyncPump read connection_put 0 0 (s, out) = (Ready 0, s, out)"
  shows "\<exists>out'. chunked_pumpImpl read 0 (s, out) = (Ready 0, s, out') \<and> written out' = written out @ lastChunk \<and> inBody out'"
proof -
  have h: "hexText 0 = ''0''" by code_simp
  show ?thesis
    by (simp add: chunked_pumpImpl_def writeBodyText_def queueWrite_def pumpBodyFrom_def asyncPump.simps h lastChunk_def) 
      (use assms in \<open>simp add: open_output_def\<close>)
qed

text \<open>A negative \<open>Content-Length\<close> is read as its two's complement.\<close>

lemma negative_length: "strtoull 10 (cStr ''-1'') = (2 ^ 64 - 1, False, [])"
  by code_simp

end
