(* ===== verification/Http_Body_Safety.thy ===== *)
theory Http_Body_Safety
  imports Http_Output
begin

text \<open>What holds for arbitrary bytes, also those that no correct peer sends.\<close>

section \<open>The headers of a message stay where they are\<close>

text \<open>Parsed headers are pointers into the buffer. While the body is read, whatever bytes arrive, the part of the buffer
  that they point into is neither moved nor changed.\<close>

definition headersHeld :: "HttpInput \<Rightarrow> bool" where
  "headersHeld s \<longleftrightarrow> messageHeaderEnd s \<le> length (headerBuffer s) \<and> leftoverEnd s \<le> length (headerBuffer s) \<and>
     (leftoverStart s < leftoverEnd s \<longrightarrow> messageHeaderEnd s \<le> leftoverStart s)"

definition headersKept :: "HttpInput \<Rightarrow> HttpInput \<Rightarrow> bool" where
  "headersKept s s' \<longleftrightarrow> headersHeld s' \<and> length (headerBuffer s') = length (headerBuffer s) \<and>
     messageHeaderEnd s' = messageHeaderEnd s \<and>
     take (messageHeaderEnd s) (headerBuffer s') = take (messageHeaderEnd s) (headerBuffer s)"

lemma headersKept_trans: "headersKept s t \<Longrightarrow> headersKept t u \<Longrightarrow> headersKept s u"
  by (auto simp: headersKept_def)

lemma take_overwrite: "k \<le> p \<Longrightarrow> p \<le> length b \<Longrightarrow> take k (overwrite b p xs) = take k b"
  by (simp add: overwrite_def min_def)

lemma makeRoom_kept:
  assumes "headersHeld s" and "messageHeaderEnd s \<le> bs" and "bs \<le> be" and "be \<le> length (headerBuffer s)"
    and "makeRoom fresh CHUNK bs be s = (r, s')"
  shows "headersKept s s' \<and> (\<forall>bs' be'. r = Ready (bs', be') \<longrightarrow>
    messageHeaderEnd s \<le> bs' \<and> bs' \<le> be' \<and> be' \<le> length (headerBuffer s'))"
  using assms by (auto simp: makeRoom_def headersKept_def headersHeld_def take_overwrite Let_def split: if_splits)

lemma fillBuffer_kept:
  assumes "headersHeld s" and "messageHeaderEnd s \<le> bs" and "bs \<le> be" and "be \<le> length (headerBuffer s)"
    and "fillBuffer fresh CHUNK bs be s = (r, s')"
  shows "headersKept s s' \<and> (\<forall>bs' be' amount. r = Ready (bs', be', amount) \<longrightarrow>
    messageHeaderEnd s \<le> bs' \<and> bs' \<le> be' \<and> be' + amount \<le> length (headerBuffer s'))"
proof (cases "leftoverStart s < leftoverEnd s")
  case True
  then show ?thesis using assms by (auto simp: fillBuffer_def headersKept_def headersHeld_def split: if_splits)
next
  case False
  obtain r1 s1 where room: "makeRoom fresh CHUNK bs be s = (r1, s1)" by force
  note k = makeRoom_kept [OF assms(1-4) room]
  show ?thesis
  proof (cases r1)
    case (Ready p)
    obtain bs1 be1 where p: "p = (bs1, be1)" by force
    note k1 = k [unfolded Ready p]
    obtain got rest where t: "tryRead 1 (min (length (headerBuffer s1) - be1) MAX_CHUNK_HEADER_SIZE) (inner s1) = (got, rest)"
      by force
    then have fits: "be1 + length got \<le> length (headerBuffer s1)" using tryRead_bounds [OF t] k1 by auto
    show ?thesis
      using assms(5) False room Ready p t k1 fits
      by (auto simp: fillBuffer_def headersKept_def headersHeld_def take_overwrite Let_def split: if_splits)
  qed (use assms(5) False room k in \<open>auto simp: fillBuffer_def\<close>)
qed

lemma readHeader_kept:
  "headersHeld s \<Longrightarrow> messageHeaderEnd s \<le> bs \<Longrightarrow> bs \<le> be \<Longrightarrow> be \<le> length (headerBuffer s) \<Longrightarrow>
   readHeader fresh CHUNK bs be s = (r, s') \<Longrightarrow> headersKept s s'"
proof (induction "unread s" arbitrary: bs be s rule: less_induct)
  case less
  obtain f s1 where fill: "fillBuffer fresh CHUNK bs be s = (f, s1)" by force
  note k = fillBuffer_kept [OF less.prems(1-4) fill]
  show ?case
  proof (cases f)
    case (Ready p)
    obtain bs1 be1 amount1 where p: "p = (bs1, be1, amount1)" by (cases p) auto
    obtain bs2 be2 amount2 s2 where skip: "skipBreak bs1 be1 amount1 s1 = (bs2, be2, amount2, s2)" by (metis prod_cases4)
    have k1: "headersKept s s1" "messageHeaderEnd s \<le> bs1" "bs1 \<le> be1" "be1 + amount1 \<le> length (headerBuffer s1)"
      using k Ready p by auto
    note fields = skipBreak_fields [OF skip]
    have "be2 + amount2 = be1 + amount1"
      using skipBreak_end [OF skip] fillBuffer_available [OF fill [unfolded Ready p]] by simp
    then have fits: "be2 + amount2 \<le> length (headerBuffer s2)" using k1(4) fields(4) by simp
    have kept: "headersKept s s2" using k1(1) fields(2-5) by (auto simp: headersKept_def headersHeld_def)
    have order: "bs1 \<le> bs2" "bs2 \<le> be2"
      using k1(3) skip by (auto simp: skipBreak_def Let_def split: if_splits prod.splits)
    note k2 = kept order fits
    have held: "headersHeld s2" "messageHeaderEnd s2 = messageHeaderEnd s" using k2(1) by (simp_all add: headersKept_def)
    note smaller = step_unread [OF fill [unfolded Ready p] skip]
    note step = readHeader_step [OF fill [unfolded Ready p] skip]
    show ?thesis
    proof (cases "amount2 = 0")
      case True
      have "headersKept s2 s'"
        by (rule less.hyps [OF smaller held(1)]) (use k1(2) k2 held step less.prems(5) True in auto)
      then show ?thesis using headersKept_trans [OF k2(1)] by blast
    next
      case False
      show ?thesis
      proof (cases "findEnd CHUNK (headerBuffer s2) be2 (be2 + amount2)")
        case None
        have "headersKept s2 s'"
          by (rule less.hyps [OF smaller held(1)]) (use k1(2) k2 held step less.prems(5) False None in auto)
        then show ?thesis using headersKept_trans [OF k2(1)] by blast
      next
        case (Some nl)
        then have "finishHeader fresh CHUNK bs2 nl (be2 + amount2) s2 = (r, s')" using step less.prems(5) False by simp
        then have "s' = s2\<lparr>lineBreakBeforeNextHeader := True, leftoverStart := nl + 1, leftoverEnd := be2 + amount2\<rparr>"
          by (simp add: finishHeader_def Let_def)
        then show ?thesis
          using k1(2) k2 held findEnd_bounds [OF Some] by (auto simp: headersKept_def headersHeld_def)
      qed
    qed
  qed (use k less.prems(5) fill in \<open>auto simp: readHeader.simps [of fresh CHUNK bs be s]\<close>)
qed

lemma headersKept_refl: "headersHeld s \<Longrightarrow> headersKept s s"
  by (simp add: headersKept_def)

lemma readChunkHeader_kept:
  assumes "headersHeld s" and "readChunkHeader fresh s = (r, s')"
  shows "headersKept s s'"
proof (cases "onMessageDone s")
  case True
  obtain r1 s1 where h: "readHeader fresh CHUNK (messageHeaderEnd s) (messageHeaderEnd s) s = (r1, s1)" by force
  have "headersKept s s1"
    by (rule readHeader_kept [OF assms(1) _ _ _ h]) (use assms(1) in \<open>simp_all add: headersHeld_def\<close>)
  moreover have "s' = s1" using assms(2) True h by (cases r1) (auto simp: readChunkHeader_def split: if_splits option.splits)
  ultimately show ?thesis by simp
qed (use assms in \<open>simp add: readChunkHeader_def headersKept_refl\<close>)

lemma input_tryRead_kept:
  assumes "headersHeld s" and "input_tryRead m n s = (r, s')"
  shows "headersKept s s'"
  using assms by (auto simp: input_tryRead_def headersKept_def headersHeld_def Let_def split: if_splits prod.splits)

lemma finishRead_kept: "headersHeld s \<Longrightarrow> headersKept s (finishRead s)"
  by (simp add: headersKept_def headersHeld_def finishRead_def)

lemma fixedLoop_kept: "headersHeld s \<Longrightarrow> fixedLoop m n acc len s = (r, len', s') \<Longrightarrow> headersKept s s'"
proof (induction len arbitrary: m n acc s rule: less_induct)
  case (less len)
  show ?case
  proof (cases "len = 0")
    case True
    then show ?thesis using less.prems by (simp add: fixedLoop.simps headersKept_refl)
  next
    case False
    obtain r1 s1 where t: "input_tryRead 1 (min n len) s = (r1, s1)" by force
    note k = input_tryRead_kept [OF less.prems(1) t]
    have held: "headersHeld s1" using k by (simp add: headersKept_def)
    show ?thesis
    proof (cases r1)
      case (Ready got)
      define again where "again \<longleftrightarrow> 0 < len - length got \<and> got \<noteq> [] \<and> length got < m"
      show ?thesis
      proof (cases again)
        case True
        then have "fixedLoop (m - length got) (n - length got) (acc @ got) (len - length got) s1 = (r, len', s')"
          using less.prems(2) False t Ready by (subst (asm) fixedLoop.simps) (simp add: again_def Let_def)
        moreover have "len - length got < len" using True False by (auto simp: again_def)
        ultimately show ?thesis using less.IH [OF _ held] headersKept_trans [OF k] by blast
      next
        case stop: False
        then have "s' = s1 \<or> s' = finishRead s1"
          using less.prems(2) False t Ready by (subst (asm) fixedLoop.simps) (auto simp: again_def Let_def split: if_splits)
        then show ?thesis using k finishRead_kept [OF held] headersKept_trans [OF k] by blast
      qed
    qed (use less.prems(2) False t k in \<open>auto simp: fixedLoop.simps [of m n acc len]\<close>)
  qed
qed

lemma chunkLoop_kept: "headersHeld s \<Longrightarrow> chunkLoop fresh m n acc cs fin s = (r, b, s') \<Longrightarrow> headersKept s s'"
proof (induction "available s" arbitrary: m n acc cs s rule: less_induct)
  case less
  consider "fin" | "\<not> fin" "cs = 0" | "\<not> fin" "cs \<noteq> 0" by blast
  then show ?case
  proof cases
    case 1
    then show ?thesis using less.prems by (simp add: chunkLoop.simps headersKept_refl)
  next
    case 2
    obtain r1 s1 where t: "readChunkHeader fresh s = (r1, s1)" by force
    note k = readChunkHeader_kept [OF less.prems(1) t]
    have held: "headersHeld s1" using k by (simp add: headersKept_def)
    show ?thesis
    proof (cases r1)
      case (Ready v)
      show ?thesis
      proof (cases "v = 0")
        case True
        then have "s' = finishRead s1" using less.prems(2) 2 t Ready by (subst (asm) chunkLoop.simps) simp
        then show ?thesis using headersKept_trans [OF k finishRead_kept [OF held]] by simp
      next
        case False
        then have "chunkLoop fresh m n acc (unat v) fin s1 = (r, b, s')"
          using less.prems(2) 2 t Ready by (subst (asm) chunkLoop.simps) simp
        then show ?thesis
          using less.hyps [OF readChunkHeader_available [OF t [unfolded Ready]] held] headersKept_trans [OF k] by blast
      qed
    qed (use less.prems(2) 2 t k in \<open>simp_all add: chunkLoop.simps [of fresh m n acc 0 False s]\<close>)
  next
    case 3
    obtain r1 s1 where t: "input_tryRead 1 (min n cs) s = (r1, s1)" by force
    note k = input_tryRead_kept [OF less.prems(1) t]
    have held: "headersHeld s1" using k by (simp add: headersKept_def)
    show ?thesis
    proof (cases r1)
      case (Ready got)
      show ?thesis
      proof (cases "got \<noteq> [] \<and> length got < m")
        case True
        then have "chunkLoop fresh (m - length got) (n - length got) (acc @ got) (cs - length got) fin s1 = (r, b, s')"
          using less.prems(2) 3 t Ready by (simp add: chunkLoop.simps [of fresh m n acc cs] Let_def)
        moreover have "available s1 < available s" using input_tryRead_progress [OF t [unfolded Ready]] True by blast
        ultimately show ?thesis using less.hyps [OF _ held] headersKept_trans [OF k] by blast
      next
        case False
        then have "s' = s1" using less.prems(2) 3 t Ready by (auto simp: chunkLoop.simps [of fresh m n acc cs] Let_def split: if_splits)
        then show ?thesis using k by simp
      qed
    qed (use less.prems(2) 3 t k in \<open>auto simp: chunkLoop.simps [of fresh m n acc cs]\<close>)
  qed
qed

lemma body_read_kept:
  assumes "headersHeld s" and "body_read fresh m n b s = (r, b', s')"
  shows "headersKept s s'"
proof (cases b)
  case (NullBody len)
  then show ?thesis using assms by (simp add: body_read_def headersKept_refl)
next
  case (CloseBody fin)
  obtain r1 s1 where t: "input_tryRead m n s = (r1, s1)" by force
  note k = input_tryRead_kept [OF assms(1) t]
  have "headersHeld s1" using k by (simp add: headersKept_def)
  from headersKept_trans [OF k finishRead_kept [OF this]] show ?thesis
    using assms t k CloseBody by (cases r1) (auto simp: body_read_def headersKept_refl split: if_splits)
next
  case (FixedBody len clean)
  obtain r1 len1 s1 where t: "fixedLoop m n [] len s = (r1, len1, s1)" by (metis prod_cases3)
  then show ?thesis
    using assms fixedLoop_kept [OF assms(1) t] FixedBody
    by (cases r1) (auto simp: body_read_def headersKept_refl split: if_splits)
next
  case (ChunkedBody cs clean fin)
  obtain r1 b1 s1 where t: "chunkLoop fresh m n [] cs fin s = (r1, b1, s1)" by (metis prod_cases3)
  then show ?thesis
    using assms chunkLoop_kept [OF assms(1) t] ChunkedBody
    by (cases r1; cases b1) (auto simp: body_read_def headersKept_refl split: if_splits)
qed

section \<open>The text of a message\<close>

text \<open>The operations on a connection while a message is being read, and all of them. Readers of bodies that are already
  gone are included, and a body may be read in any state; the bytes are arbitrary.\<close>

inductive reading_step :: "HttpInput \<Rightarrow> HttpInput \<Rightarrow> bool" where
  entity: "reading_step s (snd (getEntityBody kind m code h s))"
| part: "reading_step s (snd (snd (body_read fresh m n b s)))"
| destroy: "reading_step s (body_destroy b s)"
| drain: "reading_step s (snd (isCleanDrain s))"

inductive input_step :: "HttpInput \<Rightarrow> HttpInput \<Rightarrow> bool" where
  reading: "reading_step s s' \<Longrightarrow> input_step s s'"
| headers: "input_step s (snd (readMessageHeaders fresh s))"
| await: "input_step s (snd (awaitNextMessage s))"

lemma snarf_kept: "headersHeld s \<Longrightarrow> headersKept s (snarfBufferedLineBreak s)"
proof (induction s rule: snarfBufferedLineBreak.induct)
  case (1 s)
  have k: "headersKept s (s\<lparr>leftoverStart := leftoverStart s + 1\<rparr>)"
    "headersKept s (s\<lparr>leftoverStart := leftoverStart s + 1, lineBreakBeforeNextHeader := False\<rparr>)"
    "headersKept s (s\<lparr>lineBreakBeforeNextHeader := False\<rparr>)"
    using "1.prems" by (auto simp: headersKept_def headersHeld_def)
  note held = k [unfolded headersKept_def, THEN conjunct1]
  show ?case
  proof (cases "lineBreakBeforeNextHeader s \<and> leftoverStart s < leftoverEnd s")
    case True
    note step = headersKept_trans [OF k(1) "1.IH"(1) [OF True _ held(1)]] headersKept_trans [OF k(2) "1.IH"(2) [OF True _ _ held(2)]]
      headersKept_trans [OF k(3) "1.IH"(3) [OF True _ _ held(3)]]
    show ?thesis using step True by (subst snarfBufferedLineBreak.simps) simp
  next
    case False
    then show ?thesis using "1.prems" by (subst snarfBufferedLineBreak.simps) (auto simp: headersKept_refl)
  qed
qed

lemma getEntityBody_state: "snd (getEntityBody kind m code h s) \<in> {s, finishRead s}"
  by (auto simp: getEntityBody_def newNullBody_def newFixedBody_def Let_def simp del: fastCaseCmp.simps
      split: option.splits prod.splits)

lemma reading_step_kept: "reading_step s s' \<Longrightarrow> headersHeld s \<Longrightarrow> headersKept s s'"
proof (induction rule: reading_step.induct)
  case (entity s kind m code h)
  then show ?case using getEntityBody_state [of kind m code h s] headersKept_refl finishRead_kept by auto
next
  case (part s fresh m n b)
  then show ?case by (metis body_read_kept prod.collapse)
next
  case (destroy s b)
  then show ?case by (simp add: body_destroy_def abortRead_def headersKept_def headersHeld_def)
next
  case (drain s)
  then show ?case using snarf_kept headersKept_refl by (simp add: isCleanDrain_def Let_def)
qed

lemma reading_steps_kept: "reading_step\<^sup>*\<^sup>* s s' \<Longrightarrow> headersHeld s \<Longrightarrow> headersKept s s'"
proof (induction rule: rtranclp_induct)
  case (step t u)
  then have t: "headersKept s t" by simp
  then have "headersHeld t" by (simp add: headersKept_def)
  then show ?case using reading_step_kept [OF step(2)] headersKept_trans [OF t] by blast
qed (rule headersKept_refl)

subsection \<open>All operations\<close>

text \<open>Between messages the buffer is used from its beginning again.\<close>

definition buffered :: "HttpInput \<Rightarrow> bool" where
  "buffered s \<longleftrightarrow> messageHeaderEnd s \<le> length (headerBuffer s) \<and> leftoverEnd s \<le> length (headerBuffer s) \<and>
     (onMessageDone s \<longrightarrow> headersHeld s)"

definition loose :: "nat \<Rightarrow> nat \<Rightarrow> HttpInput \<Rightarrow> bool" where
  "loose bs be s \<longleftrightarrow> messageHeaderEnd s \<le> length (headerBuffer s) \<and> leftoverEnd s \<le> length (headerBuffer s) \<and>
     bs \<le> be \<and> be \<le> length (headerBuffer s) \<and> (leftoverStart s < leftoverEnd s \<longrightarrow> bs = be)"

lemma makeRoom_held:
  assumes "loose bs be s" and "leftoverEnd s \<le> leftoverStart s" and "makeRoom fresh MESSAGE bs be s = (r, s')"
  shows "headersHeld s' \<and> leftoverEnd s' \<le> leftoverStart s' \<and>
    (\<forall>bs' be'. r = Ready (bs', be') \<longrightarrow> bs' \<le> be' \<and> be' \<le> length (headerBuffer s'))"
  using assms by (auto simp: makeRoom_def loose_def headersHeld_def growBuffer_def Let_def split: if_splits)

lemma fillBuffer_held:
  assumes "loose bs be s" and "fillBuffer fresh MESSAGE bs be s = (r, s')"
  shows "headersHeld s' \<and> leftoverEnd s' \<le> leftoverStart s' \<and>
    (\<forall>bs' be' amount. r = Ready (bs', be', amount) \<longrightarrow> bs' \<le> be' \<and> be' + amount \<le> length (headerBuffer s'))"
proof (cases "leftoverStart s < leftoverEnd s")
  case True
  then show ?thesis using assms by (auto simp: fillBuffer_def headersHeld_def loose_def split: if_splits)
next
  case False
  obtain r1 s1 where room: "makeRoom fresh MESSAGE bs be s = (r1, s1)" by force
  note k = makeRoom_held [OF assms(1) _ room]
  show ?thesis
  proof (cases r1)
    case (Ready p)
    obtain bs1 be1 where p: "p = (bs1, be1)" by force
    obtain got rest where t: "tryRead 1 (length (headerBuffer s1) - be1) (inner s1) = (got, rest)" by force
    then have fits: "be1 + length got \<le> length (headerBuffer s1)" using tryRead_bounds [OF t] k False Ready p by auto
    show ?thesis
      using assms(2) False room Ready p t k fits
      by (auto simp: fillBuffer_def headersHeld_def Let_def split: if_splits)
  qed (use assms(2) False room k in \<open>auto simp: fillBuffer_def\<close>)
qed

lemma finishHeader_held:
  assumes "headersHeld s" and "bs \<le> nl" and "nl < newEnd" and "newEnd \<le> length (headerBuffer s)"
    and "finishHeader fresh MESSAGE bs nl newEnd s = (r, s')"
  shows "headersHeld s' \<and> (\<forall>text. r = Ready text \<longrightarrow> text = subarray bs (messageHeaderEnd s') (headerBuffer s'))"
  using assms by (auto simp: finishHeader_def headersHeld_def growBuffer_def subarray_grow Let_def split: if_splits)

lemma readHeader_held:
  "loose bs be s \<Longrightarrow> readHeader fresh MESSAGE bs be s = (r, s') \<Longrightarrow>
   headersHeld s' \<and> (\<forall>text. r = Ready text \<longrightarrow> (\<exists>i. text = subarray i (messageHeaderEnd s') (headerBuffer s')))"
proof (induction "unread s" arbitrary: bs be s rule: less_induct)
  case less
  obtain f s1 where fill: "fillBuffer fresh MESSAGE bs be s = (f, s1)" by force
  note k = fillBuffer_held [OF less.prems(1) fill]
  show ?case
  proof (cases f)
    case (Ready p)
    obtain bs1 be1 amount1 where p: "p = (bs1, be1, amount1)" by (cases p) auto
    obtain bs2 be2 amount2 s2 where skip: "skipBreak bs1 be1 amount1 s1 = (bs2, be2, amount2, s2)" by (metis prod_cases4)
    have k1: "headersHeld s1" "leftoverEnd s1 \<le> leftoverStart s1" "bs1 \<le> be1" "be1 + amount1 \<le> length (headerBuffer s1)"
      using k Ready p by auto
    note fields = skipBreak_fields [OF skip]
    have "be2 + amount2 = be1 + amount1"
      using skipBreak_end [OF skip] fillBuffer_available [OF fill [unfolded Ready p]] by simp
    then have fits: "be2 + amount2 \<le> length (headerBuffer s2)" using k1(4) fields(4) by simp
    have held: "headersHeld s2" using k1(1) fields(2-5) by (auto simp: headersHeld_def)
    have order: "bs2 \<le> be2" using k1(3) skip by (auto simp: skipBreak_def Let_def split: if_splits prod.splits)
    have next_loose: "loose bs2 (be2 + k) s2" if "k \<le> amount2" for k
      using held order fits that k1(2) fields(2,3) by (simp add: loose_def headersHeld_def)
    note smaller = step_unread [OF fill [unfolded Ready p] skip]
    note step = readHeader_step [OF fill [unfolded Ready p] skip]
    show ?thesis
    proof (cases "amount2 = 0")
      case True
      then show ?thesis using less.hyps [OF smaller next_loose [of 0]] step less.prems(2) by simp
    next
      case False
      show ?thesis
      proof (cases "findEnd MESSAGE (headerBuffer s2) be2 (be2 + amount2)")
        case None
        then show ?thesis using less.hyps [OF smaller next_loose [of amount2]] step less.prems(2) False by simp
      next
        case (Some nl)
        then have "finishHeader fresh MESSAGE bs2 nl (be2 + amount2) s2 = (r, s')" using step less.prems(2) False by simp
        from finishHeader_held [OF held _ _ fits this] findEnd_bounds [OF Some] order show ?thesis by auto
      qed
    qed
  qed (use k less.prems(2) fill in \<open>auto simp: readHeader.simps [of fresh MESSAGE bs be s]\<close>)
qed

lemma readMessageHeaders_held:
  assumes "buffered s" and "readMessageHeaders fresh s = (r, s')"
  shows "buffered s' \<and> (\<forall>text. r = Ready text \<longrightarrow>
    headersHeld s' \<and> (\<exists>i. text = subarray i (messageHeaderEnd s') (headerBuffer s')))"
proof (cases "onMessageDone s \<or> broken s")
  case True
  then show ?thesis
    using assms by (auto simp: readMessageHeaders_def buffered_def headersHeld_def Let_def split: if_splits)
next
  case False
  let ?s = "s\<lparr>pendingMessageCount := pendingMessageCount s + 1, onMessageDone := True\<rparr>"
  have "readHeader fresh MESSAGE 0 0 ?s = (r, s')" using assms(2) False by (simp add: readMessageHeaders_def)
  moreover have "loose 0 0 ?s" using assms(1) by (simp add: loose_def buffered_def)
  ultimately show ?thesis using readHeader_held [of 0 0 ?s fresh r s'] by (simp add: buffered_def headersHeld_def)
qed

lemma body_read_idle: "\<not> onMessageDone s \<Longrightarrow> snd (snd (body_read fresh m n b s)) = s"
  by (cases b) (simp_all add: body_read_def fixedLoop.simps [of m n] chunkLoop.simps [of fresh m n] input_tryRead_def
      readChunkHeader_def)

lemma snarf_buffered: "buffered s \<Longrightarrow> \<not> onMessageDone s \<Longrightarrow>
  buffered (snarfBufferedLineBreak s) \<and> \<not> onMessageDone (snarfBufferedLineBreak s)"
proof (induction s rule: snarfBufferedLineBreak.induct)
  case (1 s)
  then show ?case by (subst (1 2) snarfBufferedLineBreak.simps) (auto simp: buffered_def)
qed

lemma awaitLoop_buffered: "buffered s \<Longrightarrow> \<not> onMessageDone s \<Longrightarrow> buffered (snd (awaitLoop s))"
proof (induction s rule: awaitLoop.induct)
  case (1 s)
  define t where "t = snarfBufferedLineBreak s"
  have t: "buffered t" "\<not> onMessageDone t" using snarf_buffered "1.prems" by (simp_all add: t_def)
  obtain got rest where r: "tryRead 1 (length (headerBuffer t)) (inner t) = (got, rest)" by force
  note fits = tryRead_bounds [OF r]
  let ?u = "t\<lparr>inner := rest, headerBuffer := overwrite (headerBuffer t) 0 got, leftoverStart := 0, leftoverEnd := length got\<rparr>"
  have u: "buffered ?u" "buffered (t\<lparr>inner := rest\<rparr>)" using t fits by (simp_all add: buffered_def)
  show ?case
  proof (cases "(\<not> lineBreakBeforeNextHeader t \<and> leftoverStart t < leftoverEnd t) \<or> got = []")
    case True
    then show ?thesis using t(1) u(2) r by (subst awaitLoop.simps) (auto simp: Let_def simp flip: t_def)
  next
    case False
    then have "buffered (snd (awaitLoop ?u))" using "1.IH" [OF t_def _ r [symmetric] _ u(1)] t(2) by auto
    moreover have "awaitLoop s = awaitLoop ?u"
      using False r by (subst awaitLoop.simps) (auto simp: Let_def simp flip: t_def)
    ultimately show ?thesis by simp
  qed
qed

lemma reading_step_buffered: "reading_step s s' \<Longrightarrow> buffered s \<Longrightarrow> buffered s'"
proof (cases "onMessageDone s")
  case True
  assume "reading_step s s'" "buffered s"
  then have "headersKept s s'" using reading_step_kept True by (simp add: buffered_def)
  then show ?thesis by (auto simp: headersKept_def headersHeld_def buffered_def)
next
  case False
  assume "reading_step s s'" "buffered s"
  then show ?thesis
  proof cases
    case (entity kind m code h)
    then show ?thesis using getEntityBody_state [of kind m code h s] \<open>buffered s\<close>
      by (auto simp: finishRead_def buffered_def)
  next
    case (part fresh m n b)
    then show ?thesis using body_read_idle [OF False] \<open>buffered s\<close> by simp
  next
    case (destroy b)
    then show ?thesis using \<open>buffered s\<close> by (simp add: body_destroy_def abortRead_def buffered_def)
  next
    case drain
    then show ?thesis using snarf_buffered \<open>buffered s\<close> False by (simp add: isCleanDrain_def Let_def)
  qed
qed

lemma input_step_buffered: "input_step s s' \<Longrightarrow> buffered s \<Longrightarrow> buffered s'"
proof (induction rule: input_step.induct)
  case (headers s fresh)
  then show ?case using readMessageHeaders_held by (metis prod.collapse)
next
  case (await s)
  then show ?case using awaitLoop_buffered by (simp add: awaitNextMessage_def)
qed (rule reading_step_buffered)

lemma input_steps_buffered: "input_step\<^sup>*\<^sup>* s s' \<Longrightarrow> buffered s \<Longrightarrow> buffered s'"
  by (induction rule: rtranclp_induct) (auto intro: input_step_buffered)

lemma buffered_new: "buffered (newHttpInput fresh chunks)"
  by (simp add: buffered_def newHttpInput_def)



section \<open>Bodies, seen from outside\<close>

text \<open>C4. The readers of entity bodies refine one abstract stream: a read returns the next part of the data, less than was
  asked for only with the end, and the bytes of the next message are left to it.\<close>

theorem bodies_refine_streams:
  assumes "body_holds later (b, s) data" and "1 \<le> minBytes" and "minBytes \<le> maxBytes"
  shows "\<exists>got b' s' rest. body_read fresh minBytes maxBytes b s = (Ready got, b', s') \<and> data = got @ rest \<and>
    length got \<le> maxBytes \<and> (length got < minBytes \<longrightarrow> rest = [] \<and> body_finished b') \<and> body_holds later (b', s') rest \<and>
    (rest = [] \<and> body_finished b' \<longrightarrow> idle (body_destroy b' s') later)"
proof -
  obtain got bs' rest where r: "body_tryRead fresh minBytes maxBytes (b, s) = (Ready got, bs')" "data = got @ rest"
    "length got \<le> maxBytes" "length got < minBytes \<longrightarrow> rest = [] \<and> body_finished (fst bs')" "body_holds later bs' rest"
    using http_body.read_next [OF assms, of fresh] by blast
  obtain b' s' where bs': "bs' = (b', s')" by force
  have "body_read fresh minBytes maxBytes b s = (Ready got, b', s')" using r(1) bs' by (simp add: body_tryRead_def)
  moreover have "idle (body_destroy b' s') later" if "rest = []" "body_finished b'"
    using body_end that r(5) bs' by simp
  ultimately show ?thesis
    using r(2-5) bs' by (intro exI [of _ got] exI [of _ b'] exI [of _ s'] exI [of _ rest]) simp
qed

definition example_body :: HttpInput where
  "example_body = (newHttpInput (\<lambda>_. NUL) [''3'', [CR], [LF] @ ''abc'' @ [CR], [LF] @ ''0'' @ CRLF @ [CR], [LF]])
     \<lparr>onMessageDone := True, pendingMessageCount := 1\<rparr>"

lemma hexText_3: "hexText (Suc (Suc (Suc 0))) = ''3''"
  by code_simp

lemma example_body_holds: "body_holds [] (ChunkedBody 0 True False, example_body) ''abc''"
  by (auto simp: example_body_def newHttpInput_def chunksHold_def inMessage_def bufferOk_def chunkRoom_def restOf_def
      leftover_def pendingBreak_def lastChunk_def pieceOk_def MIN_BUFFER_def MAX_CHUNK_HEADER_SIZE_def hexText_3
      intro!: exI [of _ "[''abc'']"])

theorem bodies_refine_streams_witness:
  "\<exists>b s. body_read (\<lambda>_. NUL) 10 20 (ChunkedBody 0 True False) example_body = (Ready ''abc'', b, s) \<and>
     idle (body_destroy b s) []"
proof -
  obtain got b' s' rest where r: "body_read (\<lambda>_. NUL) 10 20 (ChunkedBody 0 True False) example_body = (Ready got, b', s')"
    "''abc'' = got @ rest" "length got < 10 \<longrightarrow> rest = [] \<and> body_finished b'"
    "rest = [] \<and> body_finished b' \<longrightarrow> idle (body_destroy b' s') []"
    using bodies_refine_streams [OF example_body_holds, of 10 20 "\<lambda>_. NUL"] by auto
  have "length got < 10" using arg_cong [OF r(2), of length] by simp
  then show ?thesis using r by auto
qed

lemma output_steps_silenced: "output_step\<^sup>*\<^sup>* out out' \<Longrightarrow> silenced out out'"
  by (induction rule: rtranclp_induct) (auto intro: silenced_ops(7) silenced_trans output_step_silenced)





end
