(* ===== verification/Spec2Isabelle.thy ===== *)
theory Spec2Isabelle
  imports Utf_Transcoding Text_Encoding Base64 Number_Text Diagnostics Main_Builder Url Glob_Filter Cidr Hash_Map
    Web_Socket_Receive Web_Socket_Sender Http_Requests Http_Body_Safety
begin

text \<open>
  A verification of ZOM: the compiler driver under \<open>products/zomlang\<close> and the parts of the library
  \<open>libraries/zc\<close> that it and its neighbours compute with.

  \<^bold>\<open>The program.\<close> \<open>zomc\<close> (\<open>utils/zomc/zomc.cc\<close>) builds its command line with \<open>MainBuilder\<close>
  (\<open>zc/core/main.cc\<close>), hands every source file to \<open>CompilerDriver\<close> (\<open>compiler/driver\<close>), which asks
  \<open>ModuleLoader\<close> (\<open>compiler/source/module.cc\<close>) for the module of the file. The loader resolves the name
  with the paths of \<open>zc/core/filesystem.cc\<close> and keeps the modules in a hash table whose hash uses
  \<open>zc/core/hash.cc\<close>. Source positions (\<open>compiler/source/location.h\<close>) and diagnostics
  (\<open>compiler/diagnostics\<close>) are what later passes report with. The library below them converts text:
  encodings (\<open>zc/core/encoding.cc\<close>), numbers (\<open>zc/core/string.cc\<close>), URLs (\<open>zc/http/url.cc\<close>), file name
  patterns (\<open>zc/core/glob-filter.cc\<close>) and address ranges (\<open>zc/core/cidr.cc\<close>). On top of it stand the
  messages and WebSockets of HTTP (\<open>zc/http/http.cc\<close>).

  \<^bold>\<open>Theories, from the bottom up.\<close>
  \<^item> \<open>Prelude\<close>: machine integers as words, bytes and characters, the result type of the decoders,
    the arithmetic of masks and shifts.
  \<^item> \<open>Utf_Transcoding\<close>: \<open>encodeUtf16\<close>, \<open>encodeUtf32\<close>, \<open>decodeUtf16\<close>, \<open>decodeUtf32\<close>; round trips, the error
    flags, and a text that the trip through UTF-32 changes.
  \<^item> \<open>Text_Encoding\<close>: hexadecimal, the five percent encoders (interpretations of one locale), C
    escapes; round trips and the delimiters that encoded text cannot contain.
  \<^item> \<open>Base64\<close>: the two state machines over buffers with explicit positions, so that a write outside
    the buffer would be an error; the accepted language of the decoder and the round trips.
  \<^item> \<open>Number_Text\<close>: \<open>parseAs\<close>, \<open>tryParseAs\<close>, \<open>str\<close> and \<open>hex\<close> for integers, over a model of \<open>strtoll\<close> and
    \<open>strtoull\<close>.
  \<^item> \<open>Zc_Path\<close>: paths in the Unix and the Windows syntax (interpretations of one locale), with all
    exceptions; canonical form, round trips, composition of evaluation, order.
  \<^item> \<open>Hashing\<close>: murmur2 and integer hashes, at their word sizes.
  \<^item> \<open>Source_Location\<close>, \<open>Diagnostics\<close>, \<open>Module_Loader\<close>, \<open>Main_Builder\<close>: the compiler. The disk is a
    parameter of the loader; reachable loaders are an inductive predicate. The command line is a
    function of a process state, exits and exceptions are outcomes; \<open>zomc_compile\<close> composes the four.
  \<^item> \<open>Char_Group\<close>: the bit sets of \<open>zc/parse/char.h\<close>, refined to sets of characters.
  \<^item> \<open>Url\<close>: both parsers and the printer; round trip, normal form, totality.
  \<^item> \<open>Glob_Filter\<close>: the automaton, equivalent to a recursive matcher.
  \<^item> \<open>Cidr\<close>: address ranges; matching as equality of bit prefixes.
  \<^item> \<open>Table\<close>: \<open>Table\<close> of \<open>zc/core/table.h\<close>, rows with any number of indexes. What an index promises is
    the locale \<open>table_index\<close>; the lemmas of the table (roll-back of insertions, erasures that move the
    last row) are proved once in \<open>table_indexes\<close>. \<open>Hash_Index\<close>: the hash index of \<open>table.h\<close> and \<open>table.cc\<close>, with
    the invariant of its buckets, interpreted in both locales. \<open>Hash_Map\<close>: \<open>HashMap\<close> of \<open>zc/core/map.h\<close>, refined
    to partial functions, and the symbol table of \<open>compiler/typecheck\<close>.
  \<^item> \<open>Http_Names\<close>: request methods, valid header names, the tables that number them. \<open>Http_Headers\<close>: the
    headers of a message, their parsers and their serialization; reachable headers are an inductive
    predicate, and their lines cannot be forged. \<open>Http_Message\<close>: the round trip of messages.
  \<^item> \<open>Async_Stream\<close>: what a promise becomes, reading everything and pumping (\<open>zc/async/async-io.cc\<close>), proved once
    under the contracts of streams: the locales \<open>input_stream\<close>, \<open>output_stream\<close> and \<open>stream_pair\<close>.
  \<^item> \<open>Http_Input\<close>: the reading side of a connection, with its buffer and the four readers of bodies.
    \<open>Http_Input_Header\<close>: a header is found in whatever pieces the bytes arrive. \<open>Http_Bodies\<close>: the readers are input
    streams. \<open>Http_Output\<close>: the writing side and the writers of bodies, which are output streams.
    \<open>Http_Connection\<close>: the requests of a client. \<open>Http_Requests\<close>: sequences of requests arrive as they were sent,
    and a body that ends too early is noticed. \<open>Http_Body_Safety\<close>: what holds for arbitrary bytes and after failures.
  \<^item> \<open>Web_Socket_Frame\<close>: masks and frame headers. \<open>Web_Socket\<close>: \<open>WebSocketImpl::receive\<close> over a stream that
    delivers its bytes in any pieces, decompression, and what \<open>send\<close> and \<open>close\<close> write. \<open>Web_Socket_Receive\<close>:
    refinement of the protocol on frames, round trip, bounds of all arrays, termination of the
    decompression. \<open>Web_Socket_Sender\<close>: the coroutine that sends and the queued control messages as a step
    relation; at most one write at a time, and control messages leave.

  \<^bold>\<open>Conventions.\<close> A struct is a record, an enum a datatype. A failed requirement or assertion that
  the code reports by an exception is \<open>Inl\<close> of an error type; a read or write outside a buffer is
  \<open>None\<close>. A mutable object is passed in and returned. Loops are recursive functions with termination
  proofs; only the wrapping of help text has a bound on its iterations, the length of the text, and
  \<open>wrapText_correct\<close> shows that it is never reached. Text is a list of characters without the
  terminating NUL.

  \<^bold>\<open>Parameters.\<close> The contents of the disk and the bucket counts of \<open>std::unordered_map\<close>
  (\<open>Module_Loader\<close>), the descriptions of exceptions (\<open>Main_Builder\<close>), and \<open>inet_pton\<close>, \<open>inet_ntop\<close> and
  uninitialized memory (\<open>Cidr\<close>), the functions of zlib, the contents of fresh arrays and the sizes of
  the pieces a stream delivers (\<open>Web_Socket\<close>, \<open>Http_Input\<close>) are arguments of the definitions. The preprocessor cases of the array
  comparison in \<open>common.h\<close> are a datatype \<open>compiler\<close>.

  \<^bold>\<open>Not modelled.\<close> System calls, sockets, promises and the event loop, TLS and compression, which are
  calls into other libraries; of the HTTP client and server what connects the modelled parts by promises: the
  responses of the client, the loop of the server, timeouts, upgrades to WebSockets, suspended requests; memory management and templates, whose values appear directly; floating
  point output; the lexer, parser and type checker of ZOM, which have no code yet.
\<close>

end
